(* ===== verification/Prelude.thy ===== *)
theory Prelude
  imports Main "HOL-Library.Word"
begin

text \<open>
  Shared vocabulary of the development: the machine-integer types of the Rust code, the saturating
  operations and inclusive ranges it uses on \<open>u64\<close>, decimal printing (for error messages), and the
  generic lemmas on words, lists and preorders the component theories share. Rust's \<open>+\<close> and \<open>-\<close> on
  \<open>u64\<close> are the wrapping word operations, which is what the release profile computes (the debug
  profile panics where they wrap; the theorems that need it exclude the overflow explicitly).
  \<open>usize\<close> is 64 bits wide; a \<open>Vec\<close>'s length is its HOL length, and \<open>len as u64\<close> is \<open>of_nat\<close>.
\<close>

subsection \<open>Machine integers\<close>

type_synonym u8 = "8 word"
type_synonym u16 = "16 word"
type_synonym u32 = "32 word"
type_synonym u64 = "64 word"

text \<open>\<open>Instant\<close> and \<open>Duration\<close>: nanoseconds on an unbounded monotonic clock.\<close>

type_synonym Instant = nat
type_synonym Duration = nat

named_theorems word_nat
  \<comment> \<open>facts that move a \<open>u64\<close> computation to natural numbers\<close>

text \<open>\<open>u64::saturating_sub\<close> and \<open>u64::saturating_add\<close>.\<close>

definition sat_sub :: "u64 \<Rightarrow> u64 \<Rightarrow> u64" where
  "sat_sub x y = (if x < y then 0 else x - y)"

definition sat_add :: "u64 \<Rightarrow> u64 \<Rightarrow> u64" where
  "sat_add x y = (if x + y < x then - 1 else x + y)"

text \<open>The inclusive range \<open>lo..=hi\<close> over \<open>u64\<close>, in ascending order.\<close>

definition u64_range :: "u64 \<Rightarrow> u64 \<Rightarrow> u64 list" where
  "u64_range lo hi = map of_nat [unat lo ..< Suc (unat hi)]"

lemma unat_lt_u64: "unat (x :: u64) < 2 ^ 64"
  using unsigned_less [of x] by simp

lemma unat_lt_u64_num [simp]: "unat (x :: u64) < 18446744073709551616"
  using unat_lt_u64 [of x] by simp

lemma unat_of_nat_u64 [word_nat]: "n < 2 ^ 64 \<Longrightarrow> unat (of_nat n :: u64) = n"
  by (simp add: unat_of_nat take_bit_nat_eq_self)

lemma of_nat_unat_u64 [simp]: "(of_nat (unat x) :: u64) = x"
  by simp

lemma unat_add_u64 [word_nat]:
  "unat x + unat y < 2 ^ 64 \<Longrightarrow> unat ((x :: u64) + y) = unat x + unat y"
  by (simp add: unat_word_ariths)

lemma unat_Suc_u64 [word_nat]:
  "x < y \<Longrightarrow> unat ((x :: u64) + 1) = Suc (unat x)"
proof -
  assume "x < y"
  then have "unat x < unat y" by (simp add: word_less_nat_alt)
  moreover have "unat y < 2 ^ 64" by (rule unat_lt_u64)
  ultimately have "unat x + unat (1 :: u64) < 2 ^ 64" unfolding unsigned_1 by linarith
  then show ?thesis by (simp add: unat_add_u64)
qed

lemma unat_Suc_u64_bound [word_nat]:
  "Suc (unat x) < 2 ^ 64 \<Longrightarrow> unat ((x :: u64) + 1) = Suc (unat x)"
  by (simp add: unat_add_u64)

lemma unat_sub_u64 [word_nat]:
  "y \<le> x \<Longrightarrow> unat ((x :: u64) - y) = unat x - unat y"
  by (rule unat_sub)

lemma unat_pred_u64 [word_nat]: "x \<noteq> 0 \<Longrightarrow> unat ((x :: u64) - 1) = unat x - 1"
  by (simp add: unat_sub_u64 word_le_nat_alt unat_gt_0 Suc_leI)

lemma unat_pos_u64: "(x :: u64) \<noteq> 0 \<Longrightarrow> 0 < unat x"
  by (simp add: unat_gt_0)

lemma unat_inject_u64: "unat (x :: u64) = unat y \<longleftrightarrow> x = y"
  by (simp add: word_unat_eq_iff)

lemma unat_sat_sub [word_nat]: "unat (sat_sub x y) = unat x - unat y"
  by (auto simp: sat_sub_def unat_sub_u64 word_less_nat_alt word_le_nat_alt not_less)

lemma unat_sat_add_1 [word_nat]: "x < y \<Longrightarrow> unat (sat_add x 1) = Suc (unat x)"
  using unat_Suc_u64 [of x y] by (auto simp: sat_add_def word_less_nat_alt)

lemma unat_not_max_u64: "(x :: u64) \<noteq> - 1 \<Longrightarrow> Suc (unat x) < 2 ^ 64"
proof -
  assume "x \<noteq> - 1"
  then have "unat x \<noteq> unat (- 1 :: u64)" by (simp add: word_unat_eq_iff)
  moreover have "unat (- 1 :: u64) = 18446744073709551615"
    by (simp add: unsigned_minus_1_eq_mask mask_eq_exp_minus_1)
  moreover have "unat x < 18446744073709551616" by (rule unat_lt_u64_num)
  ultimately have "unat x < 18446744073709551615" by linarith
  then show ?thesis by simp
qed

lemma less_Suc_u64: "(x :: u64) \<noteq> - 1 \<Longrightarrow> x < x + 1"
  by (simp add: word_less_nat_alt unat_Suc_u64_bound [OF unat_not_max_u64])

lemma unat_max_u64 [word_nat]: "unat (max (x :: u64) y) = max (unat x) (unat y)"
  by (simp add: max_def word_le_nat_alt)

lemma unat_min_u64 [word_nat]: "unat (min (x :: u64) y) = min (unat x) (unat y)"
  by (simp add: min_def word_le_nat_alt)

lemma set_u64_range [simp]: "set (u64_range lo hi) = {lo..hi}"
proof -
  have "\<exists>n \<in> {unat lo ..< Suc (unat hi)}. x = of_nat n" if "lo \<le> x" "x \<le> hi" for x
    using that by (intro bexI [where x = "unat x"]) (auto simp: word_le_nat_alt)
  moreover have "lo \<le> of_nat n \<and> of_nat n \<le> hi" if "unat lo \<le> n" "n < Suc (unat hi)" for n
  proof -
    have "n < 2 ^ 64" using that(2) unat_lt_u64 [of hi] by linarith
    then show ?thesis using that by (simp add: word_le_nat_alt unat_of_nat_u64)
  qed
  ultimately show ?thesis
    by (fastforce simp: u64_range_def)
qed

lemma map_unat_u64_range: "map unat (u64_range lo hi) = [unat lo ..< Suc (unat hi)]"
proof -
  have "map unat (u64_range lo hi) = map (\<lambda>n. unat (of_nat n :: u64)) [unat lo ..< Suc (unat hi)]"
    by (simp add: u64_range_def)
  also have "\<dots> = map (\<lambda>n. n) [unat lo ..< Suc (unat hi)]"
  proof (rule map_cong [OF refl])
    fix n assume "n \<in> set [unat lo ..< Suc (unat hi)]"
    then have "n \<le> unat hi" by auto
    then have "n < 2 ^ 64" using unat_lt_u64 [of hi] by linarith
    then show "unat (of_nat n :: u64) = n" by (rule unat_of_nat_u64)
  qed
  finally show ?thesis by simp
qed

subsection \<open>Decimal printing\<close>

fun show_nat :: "nat \<Rightarrow> string" where
  "show_nat n =
     (if n < 10 then [char_of (48 + n)] else show_nat (n div 10) @ [char_of (48 + n mod 10)])"

declare show_nat.simps [simp del]

subsection \<open>Lists\<close>

lemma nth_take_append: "i < n \<Longrightarrow> n \<le> length xs \<Longrightarrow> (take n xs @ ys) ! i = xs ! i"
  by (simp add: nth_append)

lemma take_append_all: "length xs = n \<Longrightarrow> take n (xs @ ys) = xs"
  by simp

lemma map_nth_upt_slice:
  "j \<le> length xs \<Longrightarrow> map (\<lambda>k. xs ! k) [i ..< j] = drop i (take j xs)"
  by (rule nth_equalityI) auto

subsection \<open>Hash iteration order\<close>

text \<open>
  Rust's \<open>HashSet\<close> and \<open>HashMap\<close> iterate over their keys in an unspecified order. The model takes the
  order as a parameter \<open>ho\<close>; all that is known of it is that it lists every key once.
\<close>

definition hash_order :: "('a set \<Rightarrow> 'a list) \<Rightarrow> bool" where
  "hash_order ho \<longleftrightarrow> (\<forall>S. finite S \<longrightarrow> distinct (ho S) \<and> set (ho S) = S)"

lemma hash_orderD:
  "hash_order ho \<Longrightarrow> finite S \<Longrightarrow> distinct (ho S)"
  "hash_order ho \<Longrightarrow> finite S \<Longrightarrow> set (ho S) = S"
  by (simp_all add: hash_order_def)

lemma hash_order_sorted: "hash_order (sorted_list_of_set :: u64 set \<Rightarrow> u64 list)"
  by (simp add: hash_order_def)

subsection \<open>Runs\<close>

text \<open>A step that keeps a predicate keeps it along a list of steps.\<close>

lemma fold_preserves:
  assumes "P s" and "\<And>s x. P s \<Longrightarrow> x \<in> set xs \<Longrightarrow> P (f x s)"
  shows "P (fold f xs s)"
  using assms by (induction xs arbitrary: s) auto

end
