(* ===== verification/RaftTypes.thy ===== *)
theory RaftTypes
  imports Prelude
begin

text \<open>
  The data types of the program: \<open>src/raft/types.rs\<close> (node ids, terms, indices, roles, hard state, log
  entries, snapshots), \<open>src/protocol/messages.rs\<close> (the six Raft messages and the wire envelope),
  \<open>src/error.rs\<close> and \<open>src/config.rs\<close>. libp2p's \<open>PeerId\<close> and \<open>Multiaddr\<close> are opaque values of a
  library: they are the type parameters \<open>'p\<close> and \<open>'a\<close>.
\<close>

subsection \<open>src/raft/types.rs\<close>

type_synonym NodeId = u64
type_synonym Term = u64
type_synonym Index = u64

datatype Role = Follower | Candidate | Leader

record HardState =
  current_term :: Term
  voted_for :: "NodeId option"

text \<open>\<open>HardState::default\<close>.\<close>

definition HardState_default :: HardState where
  "HardState_default = \<lparr>current_term = 0, voted_for = None\<rparr>"

datatype EntryType = Command "u8 list"

record LogEntry =
  le_index :: Index
  le_term :: Term
  entry_type :: EntryType

record Snapshot =
  last_included_index :: Index
  last_included_term :: Term
  conf :: "NodeId list"
  state_blob :: "u8 list"

subsection \<open>src/protocol/messages.rs\<close>

text \<open>
  The fields of each message are positional, in the order of the source:
  \<open>RequestVote term candidate_id last_log_index last_log_term\<close>,
  \<open>RequestVoteResp term vote_granted\<close>,
  \<open>AppendEntries term leader_id prev_log_index prev_log_term entries leader_commit\<close>,
  \<open>AppendEntriesResp term success match_index\<close>,
  \<open>InstallSnapshot term leader_id last_included_index last_included_term offset data done\<close>,
  \<open>InstallSnapshotResp term\<close>.
\<close>

datatype RaftMessage =
    RequestVote Term NodeId Index Term
  | RequestVoteResp Term bool
  | AppendEntries Term NodeId Index Term "LogEntry list" Index
  | AppendEntriesResp Term bool Index
  | InstallSnapshot Term NodeId Index Term u64 "u8 list" bool
  | InstallSnapshotResp Term

record WireEnvelope =
  correlation_id :: u64
  env_msg :: RaftMessage

subsection \<open>src/error.rs\<close>

datatype RaftError = NotLeader | MembershipPending | InvalidMembership

datatype StorageError = Msg string

text \<open>\<open>Error\<close> (\<open>#[from]\<close> makes the first two variants carry the errors above).\<close>

datatype Error =
    Raft RaftError
  | StorageFailure StorageError
  | Codec string
  | UnknownNode u64
  | Rpc string

subsection \<open>src/config.rs\<close>

record ('p, 'a) SeedPeer =
  sp_node_id :: NodeId
  sp_peer_id :: 'p
  sp_addrs :: "'a list"

record ('p, 'a) RaftConfig =
  cfg_node_id :: NodeId
  cfg_voters :: "NodeId list"
  cfg_seed_peers :: "('p, 'a) SeedPeer list"
  cfg_election_timeout :: Duration
  cfg_election_jitter :: Duration
  cfg_heartbeat_interval :: Duration
  cfg_rpc_timeout :: Duration
  cfg_rpc_max_retries :: u32
  cfg_snapshot_threshold :: u64

subsection \<open>Commands and reading entries\<close>

text \<open>The payload of an entry, as the application reads it.\<close>

fun command_data :: "EntryType \<Rightarrow> u8 list" where
  "command_data (Command d) = d"

end
