(* ===== verification/Storage.thy ===== *)
theory Storage
  imports RaftTypes
begin

text \<open>
  \<open>src/storage/mod.rs\<close> and \<open>src/storage/memory.rs\<close>. The trait \<open>Storage\<close> is the locale \<open>storage_trait\<close>:
  the operations the Raft engine calls, an abstraction \<open>log\<close> to the list of stored entries, an
  invariant, and the laws every implementation promises. \<open>MemoryStorage\<close> is the record of the
  source with one definition per method; the interpretation \<open>ms\<close> discharges the laws for it, and
  the engine's proofs rest on the facts \<open>ms.\<dots>\<close>.
\<close>

subsection \<open>Numbered entry lists\<close>

text \<open>The entries carry the indices \<open>n + 1, n + 2, \<dots>\<close> (the log itself starts at \<open>n = 0\<close>).\<close>

fun numbered :: "nat \<Rightarrow> LogEntry list \<Rightarrow> bool" where
  "numbered n [] = True"
| "numbered n (e # es) = (unat (le_index e) = Suc n \<and> numbered (Suc n) es)"

lemma numbered_append [simp]:
  "numbered n (xs @ ys) = (numbered n xs \<and> numbered (n + length xs) ys)"
  by (induction xs arbitrary: n) auto

lemma numbered_nth: "numbered n es \<Longrightarrow> i < length es \<Longrightarrow> unat (le_index (es ! i)) = Suc (n + i)"
proof (induction es arbitrary: n i)
  case (Cons e es)
  then show ?case by (cases i) auto
qed simp

lemma numbered_take: "numbered n es \<Longrightarrow> numbered n (take k es)"
proof (induction es arbitrary: n k)
  case (Cons e es)
  then show ?case by (cases k) auto
qed simp

lemma numbered_drop: "numbered n es \<Longrightarrow> k \<le> length es \<Longrightarrow> numbered (n + k) (drop k es)"
proof (induction es arbitrary: n k)
  case (Cons e es)
  then show ?case by (cases k) fastforce+
qed simp

text \<open>A numbered list is shorter than \<open>2 ^ 64\<close>: its last index is a \<open>u64\<close>.\<close>

lemma numbered_length: "numbered n es \<Longrightarrow> es \<noteq> [] \<Longrightarrow> n + length es < 2 ^ 64"
proof -
  assume n: "numbered n es" and ne: "es \<noteq> []"
  then have "unat (le_index (es ! (length es - 1))) = Suc (n + (length es - 1))"
    by (intro numbered_nth) auto
  moreover have "unat (le_index (es ! (length es - 1))) < 2 ^ 64" by (rule unat_lt_u64)
  ultimately show ?thesis using ne by (cases es) auto
qed

lemma numbered_length_0: "numbered 0 es \<Longrightarrow> length es < 2 ^ 64"
  using numbered_length [of 0 es] by (cases es) auto

lemma numbered_last: "numbered 0 es \<Longrightarrow> es \<noteq> [] \<Longrightarrow> unat (le_index (last es)) = length es"
  using numbered_nth [of 0 es "length es - 1"] by (simp add: last_conv_nth)

subsection \<open>MemoryStorage\<close>

record MemoryStorage =
  ms_hard_state :: HardState
  ms_entries :: "LogEntry list"
  ms_snapshot :: "Snapshot option"

definition MemoryStorage_new :: MemoryStorage where
  "MemoryStorage_new =
     \<lparr>ms_hard_state = HardState_default, ms_entries = [], ms_snapshot = None\<rparr>"

definition hard_state :: "MemoryStorage \<Rightarrow> HardState" where
  "hard_state s = ms_hard_state s"

definition entry :: "MemoryStorage \<Rightarrow> Index \<Rightarrow> LogEntry option" where
  "entry s i =
     (if i = 0 then None
      else if unat (i - 1) < length (ms_entries s) then Some (ms_entries s ! unat (i - 1))
      else None)"

definition last_index_term :: "MemoryStorage \<Rightarrow> Index \<times> Term" where
  "last_index_term s =
     (case ms_entries s of
        [] \<Rightarrow> (0, 0)
      | _ \<Rightarrow> (le_index (last (ms_entries s)), le_term (last (ms_entries s))))"

definition truncate_from :: "MemoryStorage \<Rightarrow> Index \<Rightarrow> MemoryStorage" where
  "truncate_from s i =
     (if i = 0 then s\<lparr>ms_entries := []\<rparr>
      else
        let keep = unat (i - 1) in
        if keep < length (ms_entries s)
        then s\<lparr>ms_entries := take keep (ms_entries s)\<rparr>
        else s)"

definition snapshot :: "MemoryStorage \<Rightarrow> Snapshot option" where
  "snapshot s = ms_snapshot s"

definition install_snapshot :: "MemoryStorage \<Rightarrow> Snapshot \<Rightarrow> MemoryStorage" where
  "install_snapshot s snap = s\<lparr>ms_snapshot := Some snap\<rparr>"

text \<open>
  The loop of \<open>persist\<close> over the entries: it returns the entries written so far together with
  the error when it stops early.
\<close>

fun persist_entries :: "LogEntry list \<Rightarrow> LogEntry list \<Rightarrow> LogEntry list \<times> (StorageError + unit)" where
  "persist_entries es [] = (es, Inr ())"
| "persist_entries es (e # rest) =
     (let idx = unat (le_index e) in
      if idx = 0 then (es, Inl (Msg ''log index must be >= 1''))
      else
        let slot = idx - 1 in
        if slot = length es then persist_entries (es @ [e]) rest
        else if slot < length es then persist_entries (take idx (es[slot := e])) rest
        else (es, Inl (Msg (''non-contiguous append at index '' @ show_nat (unat (le_index e))))))"

definition persist ::
  "MemoryStorage \<Rightarrow> HardState option \<Rightarrow> LogEntry list \<Rightarrow> MemoryStorage \<times> (StorageError + unit)" where
  "persist s hs es =
     (let s1 = (case hs of Some h \<Rightarrow> s\<lparr>ms_hard_state := h\<rparr> | None \<Rightarrow> s);
          (es', r) = persist_entries (ms_entries s1) es
      in (s1\<lparr>ms_entries := es'\<rparr>, r))"

subsection \<open>The trait Storage\<close>

locale storage_trait =
  fixes st_hard_state :: "'s \<Rightarrow> HardState"
    and st_entry :: "'s \<Rightarrow> Index \<Rightarrow> LogEntry option"
    and st_last :: "'s \<Rightarrow> Index \<times> Term"
    and st_truncate :: "'s \<Rightarrow> Index \<Rightarrow> 's"
    and st_persist :: "'s \<Rightarrow> HardState option \<Rightarrow> LogEntry list \<Rightarrow> 's \<times> (StorageError + unit)"
    and log :: "'s \<Rightarrow> LogEntry list"
    and invar :: "'s \<Rightarrow> bool"
  assumes log_numbered: "invar s \<Longrightarrow> numbered 0 (log s)"
    and entry_log: "invar s \<Longrightarrow> st_entry s i =
        (if i \<noteq> 0 \<and> unat i \<le> length (log s) then Some (log s ! (unat i - 1)) else None)"
    and last_log: "invar s \<Longrightarrow> st_last s =
        (if log s = [] then (0, 0) else (le_index (last (log s)), le_term (last (log s))))"
    and truncate_log: "invar s \<Longrightarrow> i \<noteq> 0 \<Longrightarrow> log (st_truncate s i) = take (unat i - 1) (log s)"
    and truncate_invar: "invar s \<Longrightarrow> i \<noteq> 0 \<Longrightarrow> invar (st_truncate s i)"
    and truncate_hard: "invar s \<Longrightarrow> st_hard_state (st_truncate s i) = st_hard_state s"
    and persist_hard: "st_hard_state (fst (st_persist s hs es)) =
        (case hs of None \<Rightarrow> st_hard_state s | Some h \<Rightarrow> h)"
    and persist_nil: "log (fst (st_persist s hs [])) = log s"
    and persist_nil_invar: "invar s \<Longrightarrow> invar (fst (st_persist s hs []))"
    and persist_log: "invar s \<Longrightarrow> n \<le> length (log s) \<Longrightarrow> numbered n es \<Longrightarrow> es \<noteq> [] \<Longrightarrow>
        log (fst (st_persist s hs es)) = take n (log s) @ es"
    and persist_invar: "invar s \<Longrightarrow> n \<le> length (log s) \<Longrightarrow> numbered n es \<Longrightarrow> es \<noteq> [] \<Longrightarrow>
        invar (fst (st_persist s hs es))"
    and persist_ok: "invar s \<Longrightarrow> n \<le> length (log s) \<Longrightarrow> numbered n es \<Longrightarrow>
        snd (st_persist s hs es) = Inr ()"
begin

lemma last_index: "invar s \<Longrightarrow> unat (fst (st_last s)) = length (log s)"
  using numbered_last [of "log s"] log_numbered [of s] by (simp add: last_log)

lemma length_log: "invar s \<Longrightarrow> length (log s) < 2 ^ 64"
  by (rule numbered_length_0 [OF log_numbered])

lemma entry_Some_iff:
  "invar s \<Longrightarrow> (\<exists>e. st_entry s i = Some e) \<longleftrightarrow> i \<noteq> 0 \<and> unat i \<le> length (log s)"
  by (simp add: entry_log)

lemma entry_index: "invar s \<Longrightarrow> st_entry s i = Some e \<Longrightarrow> le_index e = i"
proof -
  assume inv: "invar s" and e: "st_entry s i = Some e"
  then have i: "i \<noteq> 0" "unat i \<le> length (log s)" "e = log s ! (unat i - 1)"
    by (auto simp: entry_log split: if_splits)
  moreover have "0 < unat i" using i(1) by (rule unat_pos_u64)
  ultimately have "unat (le_index e) = unat i"
    using numbered_nth [OF log_numbered [OF inv], of "unat i - 1"] by auto
  then show "le_index e = i" by (simp add: unat_inject_u64)
qed

text \<open>Appending one entry with the next index, as \<open>propose\<close> does.\<close>

lemma append_one:
  assumes "invar s" "unat (le_index e) = Suc (length (log s))"
  shows "log (fst (st_persist s hs [e])) = log s @ [e]" and "invar (fst (st_persist s hs [e]))"
    and "snd (st_persist s hs [e]) = Inr ()"
  using persist_log [of s "length (log s)" "[e]" hs] persist_invar [of s "length (log s)" "[e]" hs]
    persist_ok [of s "length (log s)" "[e]" hs] assms
  by auto

text \<open>Truncating at \<open>i\<close> and writing entries from \<open>i\<close> on replaces the suffix.\<close>

lemma truncate_persist:
  assumes "invar s" "i \<noteq> 0" "unat i \<le> Suc (length (log s))" "numbered (unat i - 1) es" "es \<noteq> []"
  shows "log (fst (st_persist (st_truncate s i) hs es)) = take (unat i - 1) (log s) @ es"
    and "invar (fst (st_persist (st_truncate s i) hs es))"
proof -
  let ?s = "st_truncate s i" and ?n = "unat i - 1"
  have l: "log ?s = take ?n (log s)" "invar ?s"
    using assms truncate_log truncate_invar by auto
  have n: "?n \<le> length (log ?s)" using assms(3) unat_pos_u64 [OF assms(2)] by (simp add: l)
  show "log (fst (st_persist ?s hs es)) = take ?n (log s) @ es"
    using persist_log [OF l(2) n assms(4,5), of hs] by (simp add: l)
  show "invar (fst (st_persist ?s hs es))"
    by (rule persist_invar [OF l(2) n assms(4,5)])
qed

end

subsection \<open>MemoryStorage implements the trait\<close>

text \<open>The invariant of the stored entries: the entry in slot \<open>i\<close> carries the index \<open>i + 1\<close>.\<close>

definition storage_wf :: "MemoryStorage \<Rightarrow> bool" where
  "storage_wf s = numbered 0 (ms_entries s)"

lemma persist_entries_step:
  "n \<le> length es \<Longrightarrow> unat (le_index e) = Suc n \<Longrightarrow>
    persist_entries es (e # rest) = persist_entries (take n es @ [e]) rest"
  by (cases "n = length es") (auto simp: Let_def take_Suc_conv_app_nth)

text \<open>A batch numbered from \<open>n\<close> is written behind the first \<open>n\<close> entries, whatever follows it.\<close>

lemma persist_entries_append:
  "n \<le> length es \<Longrightarrow> numbered n new \<Longrightarrow> new \<noteq> [] \<Longrightarrow>
    persist_entries es (new @ rest) = persist_entries (take n es @ new) rest"
proof (induction new arbitrary: es n)
  case (Cons e new)
  have step: "persist_entries es ((e # new) @ rest) = persist_entries (take n es @ [e]) (new @ rest)"
    using Cons.prems persist_entries_step [of n es e "new @ rest"] by simp
  show ?case
  proof (cases "new = []")
    case True
    then show ?thesis using step by simp
  next
    case False
    have "persist_entries (take n es @ [e]) (new @ rest) =
        persist_entries (take (Suc n) (take n es @ [e]) @ new) rest"
      using Cons.prems False by (intro Cons.IH) auto
    then show ?thesis using step Cons.prems(1) by simp
  qed
qed simp

lemma persist_entries_numbered:
  "n \<le> length es \<Longrightarrow> numbered n new \<Longrightarrow>
    persist_entries es new = (if new = [] then es else take n es @ new, Inr ())"
  using persist_entries_append [of n es new "[]"] by simp

lemma storage_wf_new: "storage_wf MemoryStorage_new"
  by (simp add: storage_wf_def MemoryStorage_new_def)

interpretation ms: storage_trait hard_state entry last_index_term truncate_from persist ms_entries storage_wf
proof (unfold_locales, goal_cases)
  case (1 s)
  then show ?case by (simp add: storage_wf_def)
next
  case (2 s i)
  have "i \<noteq> 0 \<Longrightarrow> unat (i - 1) < length (ms_entries s) \<longleftrightarrow> unat i \<le> length (ms_entries s)"
    using unat_pos_u64 [of i] by (auto simp: unat_pred_u64)
  then show ?case by (simp add: entry_def unat_pred_u64)
next
  case (3 s)
  then show ?case by (simp add: last_index_term_def split: list.split)
next
  case (4 s i)
  then show ?case by (auto simp: truncate_from_def Let_def unat_pred_u64)
next
  case (5 s i)
  then show ?case by (auto simp: truncate_from_def Let_def storage_wf_def numbered_take)
next
  case (6 s i)
  then show ?case by (auto simp: truncate_from_def Let_def hard_state_def)
next
  case (7 s hs es)
  then show ?case by (auto simp: persist_def Let_def hard_state_def split: option.split prod.split)
next
  case (8 s hs)
  then show ?case by (auto simp: persist_def Let_def split: option.split)
next
  case (9 s hs)
  then show ?case by (auto simp: persist_def Let_def storage_wf_def split: option.split)
next
  case (10 s n es hs)
  then show ?case
    using persist_entries_numbered [of n "ms_entries s" es]
    by (auto simp: persist_def Let_def storage_wf_def split: option.split)
next
  case (11 s n es hs)
  then show ?case
    using persist_entries_numbered [of n "ms_entries s" es]
    by (auto simp: persist_def Let_def storage_wf_def numbered_take min_absorb1 split: option.split)
next
  case (12 s n es hs)
  then show ?case
    using persist_entries_numbered [of n "ms_entries s" es]
    by (auto simp: persist_def Let_def storage_wf_def split: option.split)
qed

text \<open>The snapshot slot is independent of the log and the hard state.\<close>

lemma install_snapshot_frame [simp]:
  "snapshot (install_snapshot s sn) = Some sn"
  "ms_entries (install_snapshot s sn) = ms_entries s"
  "hard_state (install_snapshot s sn) = hard_state s"
  "storage_wf (install_snapshot s sn) = storage_wf s"
  by (simp_all add: snapshot_def install_snapshot_def hard_state_def storage_wf_def)

subsection \<open>Properties of MemoryStorage\<close>

text \<open>
  \<open>persist\<close> on a batch with consecutive indices, the first of them at most one past the end of
  the stored log, writes it whole: no error, the log becomes its old part below the batch followed
  by the batch (an overlapping suffix is cut off), the hard state is the one given, and the stored
  entries stay numbered \<open>1, 2, \<dots>\<close>.
\<close>

lemma persist_contiguous:
  assumes "storage_wf s" "n \<le> length (ms_entries s)" "numbered n es" "es \<noteq> []"
  shows "\<exists>s'. persist s hs es = (s', Inr ()) \<and> ms_entries s' = take n (ms_entries s) @ es \<and>
      hard_state s' = (case hs of None \<Rightarrow> hard_state s | Some h \<Rightarrow> h) \<and> storage_wf s'"
  using assms ms.persist_ok [of s n es hs] ms.persist_log [of s n es hs] ms.persist_invar [of s n es hs]
    ms.persist_hard [of s hs es]
  by (cases "persist s hs es") auto

lemma persist_contiguous_witness:
  "\<exists>s'. persist MemoryStorage_new None
        [\<lparr>le_index = 1, le_term = 3, entry_type = Command [7]\<rparr>] = (s', Inr ()) \<and>
      ms_entries s' = [\<lparr>le_index = 1, le_term = 3, entry_type = Command [7]\<rparr>]"
  using persist_contiguous [of MemoryStorage_new 0
      "[\<lparr>le_index = 1, le_term = 3, entry_type = Command [7]\<rparr>]" None]
  by (simp add: storage_wf_new) (auto simp: MemoryStorage_new_def)

text \<open>
  \<open>persist\<close> is not atomic when it fails: the hard state it was given is installed, and the
  entries before the offending one have been written, although the caller gets an error. (The
  README and the architecture notes call \<open>persist\<close> one atomic in-process update.)
\<close>

lemma persist_failure_not_atomic:
  assumes "n \<le> length (ms_entries s)" "numbered n es" "es \<noteq> []"
    and "unat (le_index e) \<noteq> 0" "n + length es + 1 < unat (le_index e)"
  shows "\<exists>s' err. persist s (Some hs) (es @ e # rest) = (s', Inl err) \<and> hard_state s' = hs \<and>
      ms_entries s' = take n (ms_entries s) @ es"
  using assms persist_entries_append [of n "ms_entries s" es "e # rest"]
  by (auto simp: persist_def Let_def hard_state_def)

lemma persist_failure_not_atomic_witness:
  "\<exists>s' err. persist MemoryStorage_new (Some \<lparr>current_term = 9, voted_for = None\<rparr>)
        [\<lparr>le_index = 1, le_term = 3, entry_type = Command []\<rparr>,
         \<lparr>le_index = 5, le_term = 3, entry_type = Command []\<rparr>] = (s', Inl err) \<and>
      hard_state s' = \<lparr>current_term = 9, voted_for = None\<rparr> \<and>
      ms_entries s' = [\<lparr>le_index = 1, le_term = 3, entry_type = Command []\<rparr>]"
  using persist_failure_not_atomic [of 0 MemoryStorage_new
      "[\<lparr>le_index = 1, le_term = 3, entry_type = Command []\<rparr>]"
      "\<lparr>le_index = 5, le_term = 3, entry_type = Command []\<rparr>"
      "\<lparr>current_term = 9, voted_for = None\<rparr>" "[]"]
  by (simp add: MemoryStorage_new_def)

end
