(* ===== verification/RaftLog.thy ===== *)
theory RaftLog
  imports Storage
begin

text \<open>
  \<open>src/raft/log.rs\<close>: the up-to-date test of the voting rule, and the order on log positions it
  decides. A position is the pair of the last entry's term and index; positions are ordered first
  by term, then by index, and are made an instance of the library's \<open>linorder\<close>, so that the facts of
  the order (reflexive, transitive, total) are available to the engine's proofs.
\<close>

definition log_is_up_to_date :: "MemoryStorage \<Rightarrow> Index \<Rightarrow> Term \<Rightarrow> bool" where
  "log_is_up_to_date s candidate_last_index candidate_last_term =
     (let (last_index, last_term) = last_index_term s in
      candidate_last_term > last_term \<or>
      (candidate_last_term = last_term \<and> candidate_last_index \<ge> last_index))"

subsection \<open>Log positions\<close>

datatype LogPos = LogPos (pos_term: Term) (pos_index: Index)

instantiation LogPos :: linorder
begin

definition less_eq_LogPos :: "LogPos \<Rightarrow> LogPos \<Rightarrow> bool" where
  "less_eq_LogPos p q =
     (pos_term p < pos_term q \<or> pos_term p = pos_term q \<and> pos_index p \<le> pos_index q)"

definition less_LogPos :: "LogPos \<Rightarrow> LogPos \<Rightarrow> bool" where
  "less_LogPos (p :: LogPos) q = (p \<le> q \<and> \<not> q \<le> p)"

instance
  by standard
    (auto simp: less_eq_LogPos_def less_LogPos_def intro: LogPos.expand)

end

definition last_pos :: "MemoryStorage \<Rightarrow> LogPos" where
  "last_pos s = (let (i, t) = last_index_term s in LogPos t i)"

text \<open>The test of the code is the order on positions.\<close>

lemma log_is_up_to_date_iff: "log_is_up_to_date s i t \<longleftrightarrow> last_pos s \<le> LogPos t i"
  by (auto simp: log_is_up_to_date_def last_pos_def less_eq_LogPos_def split: prod.split)

text \<open>
  The voting rule's up-to-date test is a total preorder on logs: two logs can always be
  compared (each is up to date with respect to the other, or one is strictly ahead), a log is up to
  date with respect to itself, and a log up to date with respect to a second one that is up to date
  with respect to a third is up to date with respect to the third.
\<close>

lemma up_to_date_total_preorder:
  "(let (i1, t1) = last_index_term s1; (i2, t2) = last_index_term s2; (i3, t3) = last_index_term s3 in
     log_is_up_to_date s1 i1 t1 \<and>
     (log_is_up_to_date s1 i2 t2 \<or> log_is_up_to_date s2 i1 t1) \<and>
     (log_is_up_to_date s2 i1 t1 \<and> log_is_up_to_date s3 i2 t2 \<longrightarrow> log_is_up_to_date s3 i1 t1))"
proof -
  have "LogPos (snd (last_index_term s)) (fst (last_index_term s)) = last_pos s" for s
    by (simp add: last_pos_def case_prod_unfold Let_def)
  then show ?thesis
    by (auto simp: case_prod_unfold Let_def log_is_up_to_date_iff intro: order_trans)
qed

lemma up_to_date_total_preorder_witness:
  "log_is_up_to_date MemoryStorage_new 0 0 \<and> last_index_term MemoryStorage_new = (0, 0)"
  using up_to_date_total_preorder [of MemoryStorage_new MemoryStorage_new MemoryStorage_new]
  by (simp add: MemoryStorage_new_def last_index_term_def)

end
