(* ===== verification/Membership.thy ===== *)
theory Membership
  imports RaftTypes
begin

text \<open>
  \<open>src/raft/membership.rs\<close>: the voter set and its quorum size. The \<open>HashSet\<close> of voters is the list of
  its elements in the order its iterator yields them (\<open>HashSet\<close> fixes that order when the set is
  built; it is the parameter \<open>ho\<close> of \<open>Membership_new\<close>), so \<open>other_voters\<close> filters it in that order. The locale \<open>quorum_system\<close>
  states what elections and commitment need of quorums; the majorities of a membership interpret it.
\<close>

record Membership =
  voters :: "NodeId list"

definition Membership_new :: "(NodeId set \<Rightarrow> NodeId list) \<Rightarrow> NodeId list \<Rightarrow> Membership" where
  "Membership_new ho vs = \<lparr>voters = ho (set vs)\<rparr>"

definition contains :: "Membership \<Rightarrow> NodeId \<Rightarrow> bool" where
  "contains m i = (i \<in> set (voters m))"

definition len :: "Membership \<Rightarrow> nat" where
  "len m = length (voters m)"

definition quorum :: "Membership \<Rightarrow> nat" where
  "quorum m = length (voters m) div 2 + 1"

definition other_voters :: "Membership \<Rightarrow> NodeId \<Rightarrow> NodeId list" where
  "other_voters m self_id = filter (\<lambda>i. i \<noteq> self_id) (voters m)"

definition membership_wf :: "Membership \<Rightarrow> bool" where
  "membership_wf m = distinct (voters m)"

lemma membership_new:
  assumes "hash_order ho"
  shows "membership_wf (Membership_new ho vs)" and "set (voters (Membership_new ho vs)) = set vs"
  using hash_orderD [OF assms, of "set vs"] by (simp_all add: membership_wf_def Membership_new_def)

lemma set_other_voters [simp]: "set (other_voters m i) = set (voters m) - {i}"
  by (auto simp: other_voters_def)

lemma distinct_other_voters: "membership_wf m \<Longrightarrow> distinct (other_voters m i)"
  by (simp add: other_voters_def membership_wf_def)

subsection \<open>Quorum systems\<close>

locale quorum_system =
  fixes is_quorum :: "'n set \<Rightarrow> bool"
  assumes quorums_meet: "is_quorum Q \<Longrightarrow> is_quorum R \<Longrightarrow> \<exists>v. v \<in> Q \<and> v \<in> R"
begin

lemma quorum_not_empty: "is_quorum Q \<Longrightarrow> Q \<noteq> {}"
  using quorums_meet [of Q Q] by auto

text \<open>Where each voter backs at most one candidate, at most one candidate has a quorum behind it.\<close>

lemma unique_winner:
  assumes "is_quorum Q" "is_quorum R"
    and "\<And>v. v \<in> Q \<Longrightarrow> backs v c" and "\<And>v. v \<in> R \<Longrightarrow> backs v d"
    and "\<And>v. backs v c \<Longrightarrow> backs v d \<Longrightarrow> c = d"
  shows "c = d"
  using quorums_meet [OF assms(1,2)] assms(3-5) by blast

text \<open>A fact that holds at a whole quorum is known to some member of every other quorum.\<close>

lemma quorum_overlap:
  assumes "is_quorum Q" "is_quorum R" and "\<And>v. v \<in> Q \<Longrightarrow> P v"
  shows "\<exists>v \<in> R. P v"
  using quorums_meet [OF assms(1,2)] assms(3) by blast

end

definition majority_of :: "Membership \<Rightarrow> NodeId set \<Rightarrow> bool" where
  "majority_of m Q = (Q \<subseteq> set (voters m) \<and> quorum m \<le> card Q)"

lemma quorum_double: "length (voters m) < quorum m + quorum m"
  unfolding quorum_def by linarith

interpretation maj: quorum_system "majority_of m" for m
proof unfold_locales
  fix Q R assume Q: "majority_of m Q" and R: "majority_of m R"
  then have fin: "finite Q" "finite R"
    by (auto simp: majority_of_def intro: finite_subset)
  show "\<exists>v. v \<in> Q \<and> v \<in> R"
  proof (rule ccontr)
    assume "\<not> ?thesis"
    then have "card Q + card R = card (Q \<union> R)" using fin by (subst card_Un_disjoint) auto
    also have "\<dots> \<le> card (set (voters m))" using Q R by (intro card_mono) (auto simp: majority_of_def)
    also have "\<dots> \<le> length (voters m)" by (rule card_length)
    finally have "card Q + card R \<le> length (voters m)" .
    moreover have "quorum m \<le> card Q" "quorum m \<le> card R"
      using Q R by (simp_all add: majority_of_def)
    ultimately show False using quorum_double [of m] by linarith
  qed
qed

text \<open>
  Any two quorums of a membership share a voter, whatever the number of voters, and the size
  \<open>quorum()\<close> is the smallest with that property: half the voters (rounded down) can be missed by as
  many others.
\<close>

lemma quorum_is_majority:
  assumes "membership_wf m"
  shows "(majority_of m Q \<and> majority_of m R \<longrightarrow> Q \<inter> R \<noteq> {}) \<and>
    (voters m \<noteq> [] \<longrightarrow> (\<exists>A B. A \<subseteq> set (voters m) \<and> B \<subseteq> set (voters m) \<and> A \<inter> B = {} \<and>
        card A = quorum m - 1 \<and> card B = quorum m - 1))"
proof -
  let ?k = "length (voters m) div 2"
  have d: "distinct (take ?k (voters m))" "distinct (drop ?k (voters m))"
    using assms by (simp_all add: membership_wf_def)
  have disj: "set (take ?k (voters m)) \<inter> set (drop ?k (voters m)) = {}"
    using assms by (intro set_take_disj_set_drop_if_distinct) (auto simp: membership_wf_def)
  let ?A = "set (take ?k (voters m))" and ?B = "set (take ?k (drop ?k (voters m)))"
  have "?A \<subseteq> set (voters m)" "?B \<subseteq> set (voters m)"
    by (auto dest: in_set_takeD in_set_dropD)
  moreover have "?A \<inter> ?B = {}" using disj by (auto dest: in_set_takeD)
  moreover have "card ?A = ?k" "card ?B = ?k"
    using d by (auto simp: distinct_card distinct_take)
  ultimately have "\<exists>A B. A \<subseteq> set (voters m) \<and> B \<subseteq> set (voters m) \<and> A \<inter> B = {} \<and>
      card A = quorum m - 1 \<and> card B = quorum m - 1"
    by (intro exI [of _ ?A] exI [of _ ?B]) (simp add: quorum_def)
  then show ?thesis using maj.quorums_meet [of m Q R] by auto
qed

lemma quorum_is_majority_witness:
  "majority_of \<lparr>voters = [1, 2, 3]\<rparr> {1, 2} \<and> majority_of \<lparr>voters = [1, 2, 3]\<rparr> {2, 3} \<and>
    {1, 2} \<inter> {2, 3 :: NodeId} \<noteq> {}"
proof -
  have "membership_wf \<lparr>voters = [1, 2, 3]\<rparr>" by (simp add: membership_wf_def)
  moreover have "majority_of \<lparr>voters = [1, 2, 3]\<rparr> {1, 2}" "majority_of \<lparr>voters = [1, 2, 3]\<rparr> {2, 3}"
    by (simp_all add: majority_of_def quorum_def)
  ultimately show ?thesis
    using quorum_is_majority [of "\<lparr>voters = [1, 2, 3]\<rparr>" "{1, 2}" "{2, 3}"] by blast
qed

end
