(* ===== verification/Engine.thy ===== *)
theory Engine
  imports RaftLog Membership
begin

text \<open>
  \<open>src/raft/engine.rs\<close>: the Raft engine as the code has it. \<open>RaftEngine\<close> is generic over its storage;
  here it runs on \<open>MemoryStorage\<close>, the only implementation in the repository. Every method is one
  definition; \<open>&mut self\<close> is the engine passed in and returned, \<open>actions: &mut Vec<Action>\<close> the list
  passed in and returned. \<open>self.storage.persist(..)\<close> whose result the code drops is \<open>fst (persist ..)\<close>.
  This theory holds the definitions only; the lemmas are in the theories \<open>Engine\<dots>\<close> that follow.
\<close>

subsection \<open>RpcKind, Action, TickOutcome\<close>

datatype RpcKind = KRequestVote | KAppendEntries | KInstallSnapshot

datatype Action =
    Send NodeId RaftMessage
  | Broadcast RaftMessage
  | Apply "LogEntry list"
  | BecomeLeader Term
  | BecomeFollower Term "NodeId option"
  | BecomeCandidate Term
  | SnapshotInstallComplete Index

record TickOutcome =
  out_actions :: "Action list"
  out_next_deadline :: Instant

subsection \<open>RaftEngine\<close>

record ('p, 'a) RaftEngine =
  config :: "('p, 'a) RaftConfig"
  storage :: MemoryStorage
  role :: Role
  leader :: "NodeId option"
  votes :: "NodeId set"
  election_deadline :: Instant
  heartbeat_deadline :: Instant
  membership :: Membership
  next_index :: "NodeId \<rightharpoonup> Index"
  match_index :: "NodeId \<rightharpoonup> Index"
  last_ae :: "NodeId \<rightharpoonup> Index \<times> nat"
  ae_inflight :: "NodeId set"
  commit_index :: Index
  last_applied :: Index

text \<open>\<open>RaftEngine::new\<close>, with the clock reading \<open>now\<close> it takes and the hash order \<open>ho\<close> of the voter set.\<close>

definition engine_new ::
  "(NodeId set \<Rightarrow> NodeId list) \<Rightarrow> Instant \<Rightarrow> ('p, 'a) RaftConfig \<Rightarrow> MemoryStorage \<Rightarrow> ('p, 'a) RaftEngine" where
  "engine_new ho now cfg st =
     \<lparr>config = cfg, storage = st, role = Follower, leader = None, votes = {},
      election_deadline = now + cfg_election_timeout cfg + cfg_election_jitter cfg,
      heartbeat_deadline = now + cfg_heartbeat_interval cfg,
      membership = Membership_new ho (cfg_voters cfg),
      next_index = Map.empty, match_index = Map.empty, last_ae = Map.empty, ae_inflight = {},
      commit_index = 0, last_applied = 0\<rparr>"

subsection \<open>Accessors\<close>

text \<open>\<open>role()\<close>, \<open>leader()\<close>, \<open>commit_index()\<close>, \<open>last_applied()\<close>, \<open>next_index(p)\<close>, \<open>match_index(p)\<close> are the fields.\<close>

definition engine_current_term :: "('p, 'a) RaftEngine \<Rightarrow> Term" where
  "engine_current_term e = current_term (hard_state (storage e))"

definition engine_node_id :: "('p, 'a) RaftEngine \<Rightarrow> NodeId" where
  "engine_node_id e = cfg_node_id (config e)"

definition engine_other_voters :: "('p, 'a) RaftEngine \<Rightarrow> NodeId list" where
  "engine_other_voters e = other_voters (membership e) (cfg_node_id (config e))"

definition next_deadline :: "('p, 'a) RaftEngine \<Rightarrow> Instant" where
  "next_deadline e =
     (case role e of
        Leader \<Rightarrow> min (heartbeat_deadline e) (election_deadline e)
      | Follower \<Rightarrow> election_deadline e
      | Candidate \<Rightarrow> election_deadline e)"

definition reset_election_deadline :: "('p, 'a) RaftEngine \<Rightarrow> Instant \<Rightarrow> ('p, 'a) RaftEngine" where
  "reset_election_deadline e now =
     e\<lparr>election_deadline := now + cfg_election_timeout (config e) + cfg_election_jitter (config e)\<rparr>"

subsection \<open>Sending AppendEntries\<close>

text \<open>
  The loop \<open>while idx <= last_index { entries.push(storage.entry(idx)?); idx += 1 }\<close>. \<open>None\<close> is the early
  return of \<open>?\<close>. It stops even at \<open>last_index = u64::MAX\<close>, where \<open>idx\<close> wraps to \<open>0\<close> and \<open>entry(0)\<close>
  is \<open>None\<close>.
\<close>

function collect_entries :: "MemoryStorage \<Rightarrow> Index \<Rightarrow> Index \<Rightarrow> LogEntry list option" where
  "collect_entries s idx last_index =
     (if idx \<le> last_index then
        (case entry s idx of
           None \<Rightarrow> None
         | Some e \<Rightarrow>
             (case collect_entries s (idx + 1) last_index of
                None \<Rightarrow> None
              | Some es \<Rightarrow> Some (e # es)))
      else Some [])"
  by pat_completeness auto
termination
proof (relation "measure (\<lambda>(s, idx, last_index). if idx = 0 then 0 else 2 ^ 64 - unat (idx :: u64))", goal_cases)
  case (2 s idx last_index e)
  then have "idx \<noteq> 0" by (auto simp: entry_def)
  moreover have "idx + 1 \<noteq> 0 \<Longrightarrow> unat (idx + 1) = Suc (unat idx)"
    by (metis Suc_eq_plus1 add.commute unatSuc)
  moreover have "(18446744073709551615 :: nat) - n < 18446744073709551616 - n"
    if "n < 18446744073709551616" for n
    using that by linarith
  ultimately show ?case by simp
qed simp

declare collect_entries.simps [simp del]

definition build_append_entries ::
  "('p, 'a) RaftEngine \<Rightarrow> NodeId \<Rightarrow> (RaftMessage \<times> Index \<times> nat) option" where
  "build_append_entries e peer =
     (case next_index e peer of
        None \<Rightarrow> None
      | Some nxt \<Rightarrow>
          (let prev_log_index = sat_sub nxt 1 in
           case (if prev_log_index = 0 then Some 0
                 else map_option le_term (entry (storage e) prev_log_index)) of
             None \<Rightarrow> None
           | Some prev_log_term \<Rightarrow>
               (let (last_index, _) = last_index_term (storage e) in
                case collect_entries (storage e) nxt last_index of
                  None \<Rightarrow> None
                | Some es \<Rightarrow>
                    Some (AppendEntries (engine_current_term e) (cfg_node_id (config e))
                            prev_log_index prev_log_term es (commit_index e),
                          prev_log_index, length es))))"

definition send_append_entries_to ::
  "('p, 'a) RaftEngine \<Rightarrow> NodeId \<Rightarrow> ('p, 'a) RaftEngine \<times> Action option" where
  "send_append_entries_to e peer =
     (if peer \<in> ae_inflight e then (e, None)
      else
        (case build_append_entries e peer of
           None \<Rightarrow> (e, None)
         | Some (msg, prev, n) \<Rightarrow>
             (e\<lparr>last_ae := (last_ae e)(peer \<mapsto> (prev, n)),
                ae_inflight := insert peer (ae_inflight e)\<rparr>,
              Some (Send peer msg))))"

text \<open>The loop of \<open>replicate_actions\<close> over the other voters.\<close>

fun replicate_to :: "('p, 'a) RaftEngine \<Rightarrow> NodeId list \<Rightarrow> ('p, 'a) RaftEngine \<times> Action list" where
  "replicate_to e [] = (e, [])"
| "replicate_to e (peer # peers) =
     (let (e1, oa) = send_append_entries_to e peer;
          (e2, actions) = replicate_to e1 peers
      in (e2, (case oa of Some a \<Rightarrow> a # actions | None \<Rightarrow> actions)))"

definition replicate_actions :: "('p, 'a) RaftEngine \<Rightarrow> ('p, 'a) RaftEngine \<times> Action list" where
  "replicate_actions e = replicate_to e (engine_other_voters e)"

subsection \<open>propose\<close>

definition propose ::
  "('p, 'a) RaftEngine \<Rightarrow> u8 list \<Rightarrow> ('p, 'a) RaftEngine \<times> (RaftError + Index \<times> Action list)" where
  "propose e data =
     (if role e \<noteq> Leader then (e, Inl NotLeader)
      else
        let (last_index, _) = last_index_term (storage e);
            index = last_index + 1;
            new_entry = \<lparr>le_index = index, le_term = engine_current_term e, entry_type = Command data\<rparr>;
            e1 = e\<lparr>storage := fst (persist (storage e) None [new_entry])\<rparr>;
            (e2, actions) = replicate_actions e1
        in (e2, Inr (index, actions)))"

subsection \<open>Role changes\<close>

definition become_candidate ::
  "('p, 'a) RaftEngine \<Rightarrow> Term \<Rightarrow> Action list \<Rightarrow> ('p, 'a) RaftEngine \<times> Action list" where
  "become_candidate e t actions =
     (let hs = \<lparr>current_term = t, voted_for = Some (cfg_node_id (config e))\<rparr> in
      (e\<lparr>role := Candidate, leader := None, votes := {cfg_node_id (config e)},
         storage := fst (persist (storage e) (Some hs) [])\<rparr>,
       actions @ [BecomeCandidate t]))"

definition become_follower ::
  "('p, 'a) RaftEngine \<Rightarrow> Term \<Rightarrow> NodeId option \<Rightarrow> Action list \<Rightarrow> ('p, 'a) RaftEngine \<times> Action list" where
  "become_follower e t l actions =
     (let e1 = (if t > engine_current_term e
                then e\<lparr>storage := fst (persist (storage e)
                         (Some \<lparr>current_term = t, voted_for = None\<rparr>) [])\<rparr>
                else e)
      in (e1\<lparr>role := Follower, leader := l, votes := {}, next_index := Map.empty,
             match_index := Map.empty, last_ae := Map.empty, ae_inflight := {}\<rparr>,
          actions @ [BecomeFollower t l]))"

definition become_leader ::
  "('p, 'a) RaftEngine \<Rightarrow> Term \<Rightarrow> Instant \<Rightarrow> Action list \<Rightarrow> ('p, 'a) RaftEngine \<times> Action list" where
  "become_leader e t now actions =
     (let (last_index, _) = last_index_term (storage e);
          peers = other_voters (membership e) (cfg_node_id (config e));
          e1 = e\<lparr>role := Leader, leader := Some (cfg_node_id (config e)), votes := {},
                 next_index := fold (\<lambda>v m. m(v \<mapsto> last_index + 1)) peers Map.empty,
                 match_index := fold (\<lambda>v m. m(v \<mapsto> 0)) peers Map.empty,
                 last_ae := Map.empty, ae_inflight := {},
                 heartbeat_deadline := now + cfg_heartbeat_interval (config e)\<rparr>
      in (reset_election_deadline e1 now, actions @ [BecomeLeader t]))"

definition start_election ::
  "('p, 'a) RaftEngine \<Rightarrow> Instant \<Rightarrow> ('p, 'a) RaftEngine \<times> Action list" where
  "start_election e now =
     (let t = engine_current_term e + 1;
          (e1, actions) = become_candidate e t [];
          e2 = reset_election_deadline e1 now;
          (last_log_index, last_log_term) = last_index_term (storage e2)
      in (e2, actions @
            [Broadcast (RequestVote t (cfg_node_id (config e2)) last_log_index last_log_term)]))"

subsection \<open>tick\<close>

definition tick :: "('p, 'a) RaftEngine \<Rightarrow> Instant \<Rightarrow> ('p, 'a) RaftEngine \<times> TickOutcome" where
  "tick e now =
     (if now < next_deadline e then (e, \<lparr>out_actions = [], out_next_deadline = next_deadline e\<rparr>)
      else
        let (e1, actions) =
          (if (role e = Follower \<or> role e = Candidate) \<and> now \<ge> election_deadline e
           then start_election e now
           else if role e = Leader \<and> now \<ge> heartbeat_deadline e
           then (let (e1, actions) = replicate_actions e in
                 (e1\<lparr>heartbeat_deadline := now + cfg_heartbeat_interval (config e1)\<rparr>, actions))
           else (e, []))
        in (e1, \<lparr>out_actions = actions, out_next_deadline = next_deadline e1\<rparr>))"

subsection \<open>Votes\<close>

definition handle_request_vote ::
  "('p, 'a) RaftEngine \<Rightarrow> NodeId \<Rightarrow> Term \<Rightarrow> NodeId \<Rightarrow> Index \<Rightarrow> Term \<Rightarrow> Instant \<Rightarrow>
    ('p, 'a) RaftEngine \<times> Action list" where
  "handle_request_vote e src t candidate_id last_log_index last_log_term now =
     (let cur = engine_current_term e in
      if t < cur then (e, [Send src (RequestVoteResp cur False)])
      else
        let (e1, actions) = (if t > cur then become_follower e t None [] else (e, []));
            hs = hard_state (storage e1);
            can_vote = (voted_for hs = None \<or> voted_for hs = Some candidate_id)
        in
          if can_vote \<and> log_is_up_to_date (storage e1) last_log_index last_log_term then
            let new_hs = \<lparr>current_term = max t (engine_current_term e1),
                          voted_for = Some candidate_id\<rparr>;
                e2 = e1\<lparr>storage := fst (persist (storage e1) (Some new_hs) []),
                        role := Follower, leader := None, votes := {}\<rparr>;
                e3 = reset_election_deadline e2 now
            in (e3, actions @ [Send src (RequestVoteResp (engine_current_term e3) True)])
          else (e1, actions @ [Send src (RequestVoteResp (engine_current_term e1) False)]))"

definition handle_request_vote_resp ::
  "('p, 'a) RaftEngine \<Rightarrow> NodeId \<Rightarrow> Term \<Rightarrow> bool \<Rightarrow> Instant \<Rightarrow> ('p, 'a) RaftEngine \<times> Action list" where
  "handle_request_vote_resp e src t vote_granted now =
     (let cur = engine_current_term e in
      if t < cur then (e, [])
      else if t > cur then become_follower e t None []
      else if role e \<noteq> Candidate \<or> \<not> vote_granted then (e, [])
      else
        let e1 = e\<lparr>votes := insert src (votes e)\<rparr> in
        if card (votes e1) \<ge> quorum (membership e1) then become_leader e1 t now []
        else (e1, []))"

subsection \<open>Commit and apply\<close>

definition advance_commit_and_apply ::
  "('p, 'a) RaftEngine \<Rightarrow> Index \<Rightarrow> Index \<Rightarrow> Action list \<Rightarrow> ('p, 'a) RaftEngine \<times> Action list" where
  "advance_commit_and_apply e leader_commit last_new actions =
     (let new_commit = min leader_commit last_new;
          e1 = (if new_commit > commit_index e then e\<lparr>commit_index := new_commit\<rparr> else e)
      in
        if commit_index e1 \<le> last_applied e1 then (e1, actions)
        else
          let es = concat (map (\<lambda>i. case entry (storage e1) i of Some x \<Rightarrow> [x] | None \<Rightarrow> [])
                     (u64_range (last_applied e1 + 1) (commit_index e1)));
              e2 = e1\<lparr>last_applied := commit_index e1\<rparr>
          in (e2, if es \<noteq> [] then actions @ [Apply es] else actions))"

text \<open>The number of voters that hold the entry at \<open>n\<close>, as the leader knows it (itself included).\<close>

definition replica_count :: "('p, 'a) RaftEngine \<Rightarrow> Index \<Rightarrow> nat" where
  "replica_count e n =
     1 + length (filter (\<lambda>peer. (case match_index e peer of Some m \<Rightarrow> m | None \<Rightarrow> 0) \<ge> n)
           (engine_other_voters e))"

text \<open>The scan of \<open>maybe_commit\<close> over the candidate indices, highest first.\<close>

fun commit_scan :: "('p, 'a) RaftEngine \<Rightarrow> Term \<Rightarrow> nat \<Rightarrow> Index list \<Rightarrow> Index option" where
  "commit_scan e t q [] = None"
| "commit_scan e t q (n # ns) =
     (case entry (storage e) n of
        None \<Rightarrow> commit_scan e t q ns
      | Some x \<Rightarrow>
          if le_term x \<noteq> t then commit_scan e t q ns
          else if replica_count e n \<ge> q then Some n
          else commit_scan e t q ns)"

definition maybe_commit ::
  "('p, 'a) RaftEngine \<Rightarrow> Action list \<Rightarrow> ('p, 'a) RaftEngine \<times> Action list" where
  "maybe_commit e actions =
     (let (last_index, _) = last_index_term (storage e);
          t = engine_current_term e;
          q = quorum (membership e);
          start = sat_add (commit_index e) 1
      in
        if start > last_index then (e, actions)
        else
          let new_commit =
            (case commit_scan e t q (rev (u64_range start last_index)) of
               Some n \<Rightarrow> n | None \<Rightarrow> commit_index e)
          in
            if new_commit > commit_index e
            then advance_commit_and_apply e new_commit new_commit actions
            else (e, actions))"

subsection \<open>AppendEntries on the follower\<close>

text \<open>
  The loop over the received entries: it returns the storage, truncated if a conflict was met, and
  \<open>append_from\<close>. (\<open>debug_assert!(idx > commit_index)\<close> has no effect in a release build; that it
  holds is a property of the protocol.)
\<close>

fun reconcile ::
  "MemoryStorage \<Rightarrow> Index \<Rightarrow> nat \<Rightarrow> LogEntry list \<Rightarrow> nat \<Rightarrow> MemoryStorage \<times> nat" where
  "reconcile s prev i [] append_from = (s, append_from)"
| "reconcile s prev i (x # xs) append_from =
     (let idx = prev + 1 + of_nat i in
      case entry s idx of
        Some existing \<Rightarrow>
          if le_term existing = le_term x then reconcile s prev (i + 1) xs (i + 1)
          else (truncate_from s idx, i)
      | None \<Rightarrow> (s, i))"

text \<open>The loop followed by the write of the remaining entries (the durability barrier of the source).\<close>

definition store_entries :: "MemoryStorage \<Rightarrow> Index \<Rightarrow> LogEntry list \<Rightarrow> MemoryStorage" where
  "store_entries s prev es =
     (let (s1, append_from) = reconcile s prev 0 es 0 in
      if append_from < length es then fst (persist s1 None (drop append_from es)) else s1)"

definition prev_log_ok :: "MemoryStorage \<Rightarrow> Index \<Rightarrow> Term \<Rightarrow> bool" where
  "prev_log_ok s prev_log_index prev_log_term =
     (if prev_log_index = 0 then prev_log_term = 0
      else (case entry s prev_log_index of
              Some x \<Rightarrow> le_term x = prev_log_term
            | None \<Rightarrow> False))"

definition handle_append_entries ::
  "('p, 'a) RaftEngine \<Rightarrow> NodeId \<Rightarrow> Term \<Rightarrow> NodeId \<Rightarrow> Index \<Rightarrow> Term \<Rightarrow> LogEntry list \<Rightarrow> Index \<Rightarrow> Instant \<Rightarrow>
    ('p, 'a) RaftEngine \<times> Action list" where
  "handle_append_entries e src t leader_id prev_log_index prev_log_term es leader_commit now =
     (let cur = engine_current_term e;
          (last_index, _) = last_index_term (storage e)
      in
      if t < cur then (e, [Send src (AppendEntriesResp cur False last_index)])
      else
        let (e1, actions) =
              (if t > cur then become_follower e t (Some leader_id) []
               else if role e \<noteq> Follower then become_follower e t (Some leader_id) []
               else (e\<lparr>leader := Some leader_id\<rparr>, []));
            e2 = reset_election_deadline e1 now
        in
        if \<not> prev_log_ok (storage e2) prev_log_index prev_log_term then
          let (last_index, _) = last_index_term (storage e2) in
          (e2, actions @ [Send src (AppendEntriesResp (engine_current_term e2) False last_index)])
        else
          let e3 = e2\<lparr>storage := store_entries (storage e2) prev_log_index es\<rparr>;
              last_new = prev_log_index + of_nat (length es);
              (e4, actions) = advance_commit_and_apply e3 leader_commit last_new actions
          in (e4, actions @ [Send src (AppendEntriesResp (engine_current_term e4) True last_new)]))"

subsection \<open>AppendEntriesResp on the leader\<close>

text \<open>\<open>actions.push(action)\<close> for an optional action.\<close>

definition push_opt :: "Action list \<Rightarrow> Action option \<Rightarrow> Action list" where
  "push_opt actions oa = (case oa of Some a \<Rightarrow> actions @ [a] | None \<Rightarrow> actions)"

definition handle_append_entries_resp ::
  "('p, 'a) RaftEngine \<Rightarrow> NodeId \<Rightarrow> Term \<Rightarrow> bool \<Rightarrow> Index \<Rightarrow> Instant \<Rightarrow>
    ('p, 'a) RaftEngine \<times> Action list" where
  "handle_append_entries_resp e src t success resp_match_index now =
     (let cur = engine_current_term e in
      if t > cur then become_follower e t None []
      else if role e \<noteq> Leader \<or> t \<noteq> cur then (e, [])
      else
        case last_ae e src of
          None \<Rightarrow> (e, [])
        | Some (req_prev, req_len) \<Rightarrow>
            (let e1 = e\<lparr>ae_inflight := ae_inflight e - {src}\<rparr> in
             if success then
               let matched = req_prev + of_nat req_len;
                   cur_match = (case match_index e1 src of Some m \<Rightarrow> m | None \<Rightarrow> 0);
                   e2 = e1\<lparr>match_index := (match_index e1)(src \<mapsto> max cur_match matched),
                           next_index := (next_index e1)(src \<mapsto> matched + 1)\<rparr>;
                   (e3, actions) = maybe_commit e2 [];
                   nxt = (case next_index e3 src of Some n \<Rightarrow> n | None \<Rightarrow> 1);
                   (last_index, _) = last_index_term (storage e3)
               in
                 if nxt \<le> last_index then
                   let (e4, oa) = send_append_entries_to e3 src in (e4, push_opt actions oa)
                 else (e3, actions)
             else
               let nxt = (case next_index e1 src of Some n \<Rightarrow> n | None \<Rightarrow> 1) in
               if nxt \<noteq> req_prev + 1 then (e1, [])
               else
                 let match_i = (case match_index e1 src of Some m \<Rightarrow> m | None \<Rightarrow> 0);
                     new_next = max (max (sat_sub nxt 1) (match_i + 1)) 1;
                     e2 = e1\<lparr>next_index := (next_index e1)(src \<mapsto> new_next)\<rparr>;
                     (e3, oa) = send_append_entries_to e2 src
                 in (e3, push_opt [] oa)))"

subsection \<open>Dispatch\<close>

fun handle_rpc ::
  "('p, 'a) RaftEngine \<Rightarrow> NodeId \<Rightarrow> RaftMessage \<Rightarrow> Instant \<Rightarrow> ('p, 'a) RaftEngine \<times> Action list" where
  "handle_rpc e src (RequestVote t c li lt) now = handle_request_vote e src t c li lt now"
| "handle_rpc e src (RequestVoteResp t g) now = handle_request_vote_resp e src t g now"
| "handle_rpc e src (AppendEntries t l pi pt es lc) now = handle_append_entries e src t l pi pt es lc now"
| "handle_rpc e src (AppendEntriesResp t ok m) now = handle_append_entries_resp e src t ok m now"
| "handle_rpc e src _ now = (e, [])"

definition handle_rpc_failure ::
  "('p, 'a) RaftEngine \<Rightarrow> NodeId \<Rightarrow> RpcKind \<Rightarrow> ('p, 'a) RaftEngine \<times> Action list" where
  "handle_rpc_failure e peer kind =
     (if kind = KAppendEntries then e\<lparr>ae_inflight := ae_inflight e - {peer}\<rparr> else e, [])"

subsection \<open>Inputs and runs\<close>

text \<open>
  The public entry points of the engine as inputs, so that statements can range over everything a
  caller can do. \<open>engine_apply\<close> is one call and the actions it returned, \<open>engine_run\<close> a list of them.
\<close>

datatype EngineInput =
    InTick Instant
  | InRpc NodeId RaftMessage Instant
  | InRpcFailure NodeId RpcKind
  | InPropose "u8 list"

fun engine_apply :: "('p, 'a) RaftEngine \<Rightarrow> EngineInput \<Rightarrow> ('p, 'a) RaftEngine \<times> Action list" where
  "engine_apply e (InTick now) = (let (e', out) = tick e now in (e', out_actions out))"
| "engine_apply e (InRpc src msg now) = handle_rpc e src msg now"
| "engine_apply e (InRpcFailure peer kind) = handle_rpc_failure e peer kind"
| "engine_apply e (InPropose data) =
     (case propose e data of (e', Inr (_, actions)) \<Rightarrow> (e', actions) | (e', Inl _) \<Rightarrow> (e', []))"

fun engine_run :: "('p, 'a) RaftEngine \<Rightarrow> EngineInput list \<Rightarrow> ('p, 'a) RaftEngine \<times> Action list" where
  "engine_run e [] = (e, [])"
| "engine_run e (i # is) =
     (let (e1, a1) = engine_apply e i; (e2, a2) = engine_run e1 is in (e2, a1 @ a2))"

subsection \<open>A configuration for concrete runs\<close>

text \<open>A voter of a three-voter deployment: the timeouts of the engine tests, in milliseconds.\<close>

definition demo_config :: "NodeId \<Rightarrow> (unit, unit) RaftConfig" where
  "demo_config n =
     \<lparr>cfg_node_id = n, cfg_voters = [1, 2, 3], cfg_seed_peers = [], cfg_election_timeout = 15,
      cfg_election_jitter = 0, cfg_heartbeat_interval = 5, cfg_rpc_timeout = 10,
      cfg_rpc_max_retries = 0, cfg_snapshot_threshold = 10000\<rparr>"

text \<open>
  The definitions by which a concrete run of the engine is evaluated: \<open>simp\<close> with them, \<open>Let_def\<close> and
  the congruence rule \<open>let_weak_cong\<close> computes call by value.
\<close>

lemmas engine_eval = engine_new_def MemoryStorage_new_def Membership_new_def HardState_default_def
  hard_state_def last_index_term_def entry_def truncate_from_def persist_def sat_sub_def sat_add_def u64_range_def
  engine_current_term_def engine_node_id_def engine_other_voters_def other_voters_def quorum_def len_def
  next_deadline_def reset_election_deadline_def tick_def start_election_def become_candidate_def
  become_leader_def become_follower_def log_is_up_to_date_def handle_request_vote_def handle_request_vote_resp_def
  propose_def replicate_actions_def send_append_entries_to_def build_append_entries_def collect_entries.simps
  handle_append_entries_def prev_log_ok_def store_entries_def advance_commit_and_apply_def
  handle_append_entries_resp_def maybe_commit_def replica_count_def push_opt_def handle_rpc_failure_def
  word_less_nat_alt word_le_nat_alt Let_def

end
