(* ===== verification/EngineFrame.thy ===== *)
theory EngineFrame
  imports Engine
begin

text \<open>
  Frame facts: which fields each operation of the engine leaves alone and which shapes of action it
  returns. They are simplification rules, so that the proofs about a handler only see the parts of
  the state it changes.
\<close>

subsection \<open>Storage calls\<close>

lemma hard_state_persist [simp]:
  "hard_state (fst (persist s hs es)) = (case hs of None \<Rightarrow> hard_state s | Some h \<Rightarrow> h)"
  by (rule ms.persist_hard)

lemma entries_persist_nil [simp]: "ms_entries (fst (persist s hs [])) = ms_entries s"
  by (rule ms.persist_nil)

lemma last_index_term_entries: "ms_entries s = ms_entries s' \<Longrightarrow> last_index_term s = last_index_term s'"
  by (simp add: last_index_term_def split: list.split)

lemma entry_entries: "ms_entries s = ms_entries s' \<Longrightarrow> entry s = entry s'"
  by (rule ext) (simp add: entry_def)

lemma persist_nil_reads [simp]:
  "last_index_term (fst (persist s hs [])) = last_index_term s"
  "entry (fst (persist s hs [])) = entry s"
  "prev_log_ok (fst (persist s hs [])) = prev_log_ok s"
  "storage_wf (fst (persist s hs [])) = storage_wf s"
  "log_is_up_to_date (fst (persist s hs [])) = log_is_up_to_date s"
  "last_pos (fst (persist s hs [])) = last_pos s"
  using last_index_term_entries [of "fst (persist s hs [])" s] entry_entries [of "fst (persist s hs [])" s]
  by (auto simp: fun_eq_iff prev_log_ok_def storage_wf_def log_is_up_to_date_def last_pos_def)

lemma hard_state_truncate [simp]: "hard_state (truncate_from s i) = hard_state s"
  by (simp add: truncate_from_def Let_def hard_state_def)

lemma hard_state_reconcile [simp]: "hard_state (fst (reconcile s prev i es k)) = hard_state s"
  by (induction s prev i es k rule: reconcile.induct) (auto simp: Let_def split: option.splits)

lemma hard_state_store [simp]: "hard_state (store_entries s prev es) = hard_state s"
  by (simp add: store_entries_def Let_def case_prod_unfold)

subsection \<open>Sending\<close>

lemma send_append_entries_to_frame [simp]:
  "config (fst (send_append_entries_to e p)) = config e"
  "storage (fst (send_append_entries_to e p)) = storage e"
  "role (fst (send_append_entries_to e p)) = role e"
  "leader (fst (send_append_entries_to e p)) = leader e"
  "votes (fst (send_append_entries_to e p)) = votes e"
  "election_deadline (fst (send_append_entries_to e p)) = election_deadline e"
  "heartbeat_deadline (fst (send_append_entries_to e p)) = heartbeat_deadline e"
  "membership (fst (send_append_entries_to e p)) = membership e"
  "next_index (fst (send_append_entries_to e p)) = next_index e"
  "match_index (fst (send_append_entries_to e p)) = match_index e"
  "commit_index (fst (send_append_entries_to e p)) = commit_index e"
  "last_applied (fst (send_append_entries_to e p)) = last_applied e"
  by (simp_all add: send_append_entries_to_def split: option.splits prod.splits)

lemma replicate_to_frame [simp]:
  "config (fst (replicate_to e ps)) = config e"
  "storage (fst (replicate_to e ps)) = storage e"
  "role (fst (replicate_to e ps)) = role e"
  "leader (fst (replicate_to e ps)) = leader e"
  "votes (fst (replicate_to e ps)) = votes e"
  "election_deadline (fst (replicate_to e ps)) = election_deadline e"
  "heartbeat_deadline (fst (replicate_to e ps)) = heartbeat_deadline e"
  "membership (fst (replicate_to e ps)) = membership e"
  "next_index (fst (replicate_to e ps)) = next_index e"
  "match_index (fst (replicate_to e ps)) = match_index e"
  "commit_index (fst (replicate_to e ps)) = commit_index e"
  "last_applied (fst (replicate_to e ps)) = last_applied e"
  by (induction ps arbitrary: e) (simp_all add: Let_def case_prod_unfold)

lemma replicate_actions_frame [simp]:
  "config (fst (replicate_actions e)) = config e"
  "storage (fst (replicate_actions e)) = storage e"
  "role (fst (replicate_actions e)) = role e"
  "leader (fst (replicate_actions e)) = leader e"
  "votes (fst (replicate_actions e)) = votes e"
  "election_deadline (fst (replicate_actions e)) = election_deadline e"
  "heartbeat_deadline (fst (replicate_actions e)) = heartbeat_deadline e"
  "membership (fst (replicate_actions e)) = membership e"
  "next_index (fst (replicate_actions e)) = next_index e"
  "match_index (fst (replicate_actions e)) = match_index e"
  "commit_index (fst (replicate_actions e)) = commit_index e"
  "last_applied (fst (replicate_actions e)) = last_applied e"
  by (simp_all add: replicate_actions_def)

text \<open>What \<open>build_append_entries\<close> returns depends on these fields only.\<close>

lemma build_append_entries_cong:
  assumes "next_index e p = next_index e' p" "storage e = storage e'" "config e = config e'"
    and "commit_index e = commit_index e'"
  shows "build_append_entries e p = build_append_entries e' p"
  unfolding build_append_entries_def engine_current_term_def assms by (rule refl)

lemma build_append_entries_send [simp]:
  "build_append_entries (fst (send_append_entries_to e q)) p = build_append_entries e p"
  by (rule build_append_entries_cong) simp_all

lemma send_append_entries_to_Some:
  "snd (send_append_entries_to e p) = Some a \<Longrightarrow>
    p \<notin> ae_inflight e \<and>
    (\<exists>msg prev n. build_append_entries e p = Some (msg, prev, n) \<and> a = Send p msg)"
  by (auto simp: send_append_entries_to_def split: if_splits option.splits prod.splits)

lemma replicate_to_member:
  "a \<in> set (snd (replicate_to e ps)) \<Longrightarrow>
    \<exists>p \<in> set ps. \<exists>msg prev n. build_append_entries e p = Some (msg, prev, n) \<and> a = Send p msg"
proof (induction ps arbitrary: e)
  case (Cons q ps)
  then consider "snd (send_append_entries_to e q) = Some a"
    | "a \<in> set (snd (replicate_to (fst (send_append_entries_to e q)) ps))"
    by (auto simp: Let_def case_prod_unfold split: option.splits)
  then show ?case
  proof cases
    case 1
    then show ?thesis by (auto dest: send_append_entries_to_Some)
  next
    case 2
    then show ?thesis by (auto dest: Cons.IH)
  qed
qed simp

lemma build_append_entries_Some:
  assumes "build_append_entries e p = Some (msg, prev, n)"
  shows "\<exists>nxt pt es. next_index e p = Some nxt \<and> prev = sat_sub nxt 1 \<and> n = length es \<and>
    collect_entries (storage e) nxt (fst (last_index_term (storage e))) = Some es \<and>
    (if prev = 0 then pt = 0 else map_option le_term (entry (storage e) prev) = Some pt) \<and>
    msg = AppendEntries (engine_current_term e) (cfg_node_id (config e)) prev pt es (commit_index e)"
  using assms
  by (auto simp: build_append_entries_def Let_def case_prod_unfold split: option.splits if_splits)

text \<open>The actions of replication are AppendEntries messages and nothing else.\<close>

definition is_append_entries :: "Action \<Rightarrow> bool" where
  "is_append_entries a =
     (case a of Send _ msg \<Rightarrow> (case msg of AppendEntries _ _ _ _ _ _ \<Rightarrow> True | _ \<Rightarrow> False) | _ \<Rightarrow> False)"

lemma is_append_entriesE:
  "is_append_entries a \<Longrightarrow> (\<And>p t l pi pt es c. a = Send p (AppendEntries t l pi pt es c) \<Longrightarrow> R) \<Longrightarrow> R"
  by (auto simp: is_append_entries_def split: Action.splits RaftMessage.splits)

lemma send_append_entries_to_kind:
  "snd (send_append_entries_to e p) = Some a \<Longrightarrow> is_append_entries a"
  by (auto dest!: send_append_entries_to_Some build_append_entries_Some simp: is_append_entries_def)

lemma replicate_actions_kind: "a \<in> set (snd (replicate_actions e)) \<Longrightarrow> is_append_entries a"
  by (auto simp: replicate_actions_def dest!: replicate_to_member build_append_entries_Some
      simp: is_append_entries_def)

lemma set_push_opt [simp]: "set (push_opt as oa) = set as \<union> set_option oa"
  by (auto simp: push_opt_def split: option.splits)

subsection \<open>Commit and apply\<close>

lemma advance_commit_frame [simp]:
  "config (fst (advance_commit_and_apply e c n as)) = config e"
  "storage (fst (advance_commit_and_apply e c n as)) = storage e"
  "role (fst (advance_commit_and_apply e c n as)) = role e"
  "leader (fst (advance_commit_and_apply e c n as)) = leader e"
  "votes (fst (advance_commit_and_apply e c n as)) = votes e"
  "election_deadline (fst (advance_commit_and_apply e c n as)) = election_deadline e"
  "heartbeat_deadline (fst (advance_commit_and_apply e c n as)) = heartbeat_deadline e"
  "membership (fst (advance_commit_and_apply e c n as)) = membership e"
  "next_index (fst (advance_commit_and_apply e c n as)) = next_index e"
  "match_index (fst (advance_commit_and_apply e c n as)) = match_index e"
  "last_ae (fst (advance_commit_and_apply e c n as)) = last_ae e"
  "ae_inflight (fst (advance_commit_and_apply e c n as)) = ae_inflight e"
  by (simp_all add: advance_commit_and_apply_def Let_def)

lemma advance_commit_actions:
  "\<exists>new. snd (advance_commit_and_apply e c n as) = as @ new \<and> (\<forall>a \<in> set new. \<exists>es. a = Apply es)"
  by (auto simp: advance_commit_and_apply_def Let_def)

lemma maybe_commit_frame [simp]:
  "config (fst (maybe_commit e as)) = config e"
  "storage (fst (maybe_commit e as)) = storage e"
  "role (fst (maybe_commit e as)) = role e"
  "leader (fst (maybe_commit e as)) = leader e"
  "votes (fst (maybe_commit e as)) = votes e"
  "election_deadline (fst (maybe_commit e as)) = election_deadline e"
  "heartbeat_deadline (fst (maybe_commit e as)) = heartbeat_deadline e"
  "membership (fst (maybe_commit e as)) = membership e"
  "next_index (fst (maybe_commit e as)) = next_index e"
  "match_index (fst (maybe_commit e as)) = match_index e"
  "last_ae (fst (maybe_commit e as)) = last_ae e"
  "ae_inflight (fst (maybe_commit e as)) = ae_inflight e"
  by (simp_all add: maybe_commit_def Let_def case_prod_unfold)

lemma maybe_commit_actions:
  "\<exists>new. snd (maybe_commit e as) = as @ new \<and> (\<forall>a \<in> set new. \<exists>es. a = Apply es)"
  using advance_commit_actions [of e] by (auto simp: maybe_commit_def Let_def case_prod_unfold)

lemma maybe_commit_action: "a \<in> set (snd (maybe_commit e [])) \<Longrightarrow> \<exists>es. a = Apply es"
  using maybe_commit_actions [of e "[]"] by auto

lemma advance_commit_action:
  "a \<in> set (snd (advance_commit_and_apply e c n as)) \<Longrightarrow> a \<in> set as \<or> (\<exists>es. a = Apply es)"
  using advance_commit_actions [of e c n as] by auto

subsection \<open>Role changes\<close>

lemma reset_election_deadline_frame [simp]:
  "config (reset_election_deadline e now) = config e"
  "storage (reset_election_deadline e now) = storage e"
  "role (reset_election_deadline e now) = role e"
  "leader (reset_election_deadline e now) = leader e"
  "votes (reset_election_deadline e now) = votes e"
  "heartbeat_deadline (reset_election_deadline e now) = heartbeat_deadline e"
  "membership (reset_election_deadline e now) = membership e"
  "next_index (reset_election_deadline e now) = next_index e"
  "match_index (reset_election_deadline e now) = match_index e"
  "last_ae (reset_election_deadline e now) = last_ae e"
  "ae_inflight (reset_election_deadline e now) = ae_inflight e"
  "commit_index (reset_election_deadline e now) = commit_index e"
  "last_applied (reset_election_deadline e now) = last_applied e"
  "engine_current_term (reset_election_deadline e now) = engine_current_term e"
  by (simp_all add: reset_election_deadline_def engine_current_term_def)

lemma become_follower_frame [simp]:
  "config (fst (become_follower e t l as)) = config e"
  "role (fst (become_follower e t l as)) = Follower"
  "leader (fst (become_follower e t l as)) = l"
  "votes (fst (become_follower e t l as)) = {}"
  "election_deadline (fst (become_follower e t l as)) = election_deadline e"
  "heartbeat_deadline (fst (become_follower e t l as)) = heartbeat_deadline e"
  "membership (fst (become_follower e t l as)) = membership e"
  "next_index (fst (become_follower e t l as)) = Map.empty"
  "match_index (fst (become_follower e t l as)) = Map.empty"
  "last_ae (fst (become_follower e t l as)) = Map.empty"
  "ae_inflight (fst (become_follower e t l as)) = {}"
  "commit_index (fst (become_follower e t l as)) = commit_index e"
  "last_applied (fst (become_follower e t l as)) = last_applied e"
  "ms_entries (storage (fst (become_follower e t l as))) = ms_entries (storage e)"
  "hard_state (storage (fst (become_follower e t l as))) =
     (if t > engine_current_term e then \<lparr>current_term = t, voted_for = None\<rparr>
      else hard_state (storage e))"
  "engine_current_term (fst (become_follower e t l as)) = max t (engine_current_term e)"
  "snd (become_follower e t l as) = as @ [BecomeFollower t l]"
  by (auto simp: become_follower_def Let_def engine_current_term_def max_def)

lemma become_follower_reads [simp]:
  "last_index_term (storage (fst (become_follower e t l as))) = last_index_term (storage e)"
  "entry (storage (fst (become_follower e t l as))) = entry (storage e)"
  "prev_log_ok (storage (fst (become_follower e t l as))) = prev_log_ok (storage e)"
  "storage_wf (storage (fst (become_follower e t l as))) = storage_wf (storage e)"
  "log_is_up_to_date (storage (fst (become_follower e t l as))) = log_is_up_to_date (storage e)"
  "last_pos (storage (fst (become_follower e t l as))) = last_pos (storage e)"
  by (simp_all add: become_follower_def Let_def)

lemma become_candidate_frame [simp]:
  "config (fst (become_candidate e t as)) = config e"
  "role (fst (become_candidate e t as)) = Candidate"
  "votes (fst (become_candidate e t as)) = {cfg_node_id (config e)}"
  "membership (fst (become_candidate e t as)) = membership e"
  "commit_index (fst (become_candidate e t as)) = commit_index e"
  "last_applied (fst (become_candidate e t as)) = last_applied e"
  "ms_entries (storage (fst (become_candidate e t as))) = ms_entries (storage e)"
  "hard_state (storage (fst (become_candidate e t as))) =
     \<lparr>current_term = t, voted_for = Some (cfg_node_id (config e))\<rparr>"
  "engine_current_term (fst (become_candidate e t as)) = t"
  "last_index_term (storage (fst (become_candidate e t as))) = last_index_term (storage e)"
  "next_index (fst (become_candidate e t as)) = next_index e"
  "match_index (fst (become_candidate e t as)) = match_index e"
  "last_ae (fst (become_candidate e t as)) = last_ae e"
  "ae_inflight (fst (become_candidate e t as)) = ae_inflight e"
  "storage_wf (storage (fst (become_candidate e t as))) = storage_wf (storage e)"
  "snd (become_candidate e t as) = as @ [BecomeCandidate t]"
  by (simp_all add: become_candidate_def Let_def engine_current_term_def)

lemma become_leader_frame [simp]:
  "config (fst (become_leader e t now as)) = config e"
  "storage (fst (become_leader e t now as)) = storage e"
  "role (fst (become_leader e t now as)) = Leader"
  "leader (fst (become_leader e t now as)) = Some (cfg_node_id (config e))"
  "votes (fst (become_leader e t now as)) = {}"
  "membership (fst (become_leader e t now as)) = membership e"
  "last_ae (fst (become_leader e t now as)) = Map.empty"
  "ae_inflight (fst (become_leader e t now as)) = {}"
  "commit_index (fst (become_leader e t now as)) = commit_index e"
  "last_applied (fst (become_leader e t now as)) = last_applied e"
  "engine_current_term (fst (become_leader e t now as)) = engine_current_term e"
  "snd (become_leader e t now as) = as @ [BecomeLeader t]"
  by (simp_all add: become_leader_def Let_def case_prod_unfold engine_current_term_def)

lemma fold_map_upd:
  "(fold (\<lambda>v m. m(v \<mapsto> c)) ps m0) p = (if p \<in> set ps then Some c else m0 p)"
  by (induction ps arbitrary: m0) auto

lemma become_leader_indices [simp]:
  "next_index (fst (become_leader e t now as)) p =
     (if p \<in> set (engine_other_voters e) then Some (fst (last_index_term (storage e)) + 1) else None)"
  "match_index (fst (become_leader e t now as)) p =
     (if p \<in> set (engine_other_voters e) then Some 0 else None)"
  by (simp_all add: become_leader_def Let_def case_prod_unfold fold_map_upd engine_other_voters_def
      reset_election_deadline_def)

lemmas engine_defs =
  tick_def start_election_def handle_request_vote_def handle_request_vote_resp_def
  handle_append_entries_def handle_append_entries_resp_def handle_rpc_failure_def propose_def

subsection \<open>Configuration and membership never change\<close>

lemma start_election_config [simp]:
  "config (fst (start_election e now)) = config e"
  "membership (fst (start_election e now)) = membership e"
  by (simp_all add: start_election_def Let_def case_prod_unfold)

lemma tick_config [simp]:
  "config (fst (tick e now)) = config e"
  "membership (fst (tick e now)) = membership e"
  by (simp_all add: tick_def Let_def case_prod_unfold)

lemma handle_request_vote_config [simp]:
  "config (fst (handle_request_vote e s t c li lt now)) = config e"
  "membership (fst (handle_request_vote e s t c li lt now)) = membership e"
  by (simp_all add: handle_request_vote_def Let_def case_prod_unfold)

lemma handle_request_vote_resp_config [simp]:
  "config (fst (handle_request_vote_resp e s t g now)) = config e"
  "membership (fst (handle_request_vote_resp e s t g now)) = membership e"
  by (simp_all add: handle_request_vote_resp_def Let_def)

lemma handle_append_entries_config [simp]:
  "config (fst (handle_append_entries e s t l pi pt es lc now)) = config e"
  "membership (fst (handle_append_entries e s t l pi pt es lc now)) = membership e"
  by (simp_all add: handle_append_entries_def Let_def case_prod_unfold)

lemma handle_append_entries_resp_config [simp]:
  "config (fst (handle_append_entries_resp e s t ok m now)) = config e"
  "membership (fst (handle_append_entries_resp e s t ok m now)) = membership e"
  by (simp_all add: handle_append_entries_resp_def Let_def case_prod_unfold split: option.split)

lemma propose_config [simp]:
  "config (fst (propose e d)) = config e"
  "membership (fst (propose e d)) = membership e"
  by (simp_all add: propose_def Let_def case_prod_unfold)

lemma handle_rpc_config [simp]:
  "config (fst (handle_rpc e s m now)) = config e"
  "membership (fst (handle_rpc e s m now)) = membership e"
  by (cases m; simp)+

lemma engine_apply_fst:
  "fst (engine_apply e (InTick now)) = fst (tick e now)"
  "fst (engine_apply e (InPropose d)) = fst (propose e d)"
  "fst (engine_apply e (InRpcFailure p k)) = fst (handle_rpc_failure e p k)"
  by (cases "propose e d"; cases "snd (propose e d)"; auto simp: Let_def case_prod_unfold)+

lemma engine_apply_config [simp]:
  "config (fst (engine_apply e i)) = config e"
  "membership (fst (engine_apply e i)) = membership e"
  by (cases i; simp add: engine_apply_fst handle_rpc_failure_def del: engine_apply.simps(1,3,4))+

lemma engine_run_config [simp]:
  "config (fst (engine_run e is)) = config e"
  "membership (fst (engine_run e is)) = membership e"
  by (induction "is" arbitrary: e) (simp_all add: Let_def case_prod_unfold)

end
