(* ===== verification/EngineVote.thy ===== *)
theory EngineVote
  imports EngineFrame
begin

text \<open>
  Terms, votes and roles of one engine: how the persisted hard state may change, what a granted vote,
  a candidacy and a won election say about the engine, for every input of \<open>engine_apply\<close> and for
  runs. The cluster theory combines these facts over several engines.
\<close>

subsection \<open>Progress of the hard state\<close>

text \<open>The term only grows, and within a term a vote once given stays.\<close>

definition hs_le :: "HardState \<Rightarrow> HardState \<Rightarrow> bool" where
  "hs_le h h' \<longleftrightarrow> current_term h < current_term h' \<or>
     current_term h = current_term h' \<and> (voted_for h = None \<or> voted_for h' = voted_for h)"

lemma hs_le_refl [simp, intro]: "hs_le h h"
  by (simp add: hs_le_def)

lemma hs_le_trans [trans]: "hs_le a b \<Longrightarrow> hs_le b c \<Longrightarrow> hs_le a c"
  by (auto simp: hs_le_def)

abbreviation engine_hard :: "('p, 'a) RaftEngine \<Rightarrow> HardState" where
  "engine_hard e \<equiv> hard_state (storage e)"

subsection \<open>The vote handler, branch by branch\<close>

text \<open>When the code grants a vote.\<close>

definition grants_vote :: "('p, 'a) RaftEngine \<Rightarrow> Term \<Rightarrow> NodeId \<Rightarrow> Index \<Rightarrow> Term \<Rightarrow> bool" where
  "grants_vote e t c li lt \<longleftrightarrow>
     engine_current_term e \<le> t \<and>
     (engine_current_term e < t \<or> voted_for (engine_hard e) = None \<or> voted_for (engine_hard e) = Some c) \<and>
     last_pos (storage e) \<le> LogPos lt li"

lemma handle_request_vote_spec:
  "snd (handle_request_vote e s t c li lt now) =
     (if engine_current_term e < t then [BecomeFollower t None] else []) @
     [Send s (RequestVoteResp (max (engine_current_term e) t) (grants_vote e t c li lt))]"
  "engine_hard (fst (handle_request_vote e s t c li lt now)) =
     (if grants_vote e t c li lt then \<lparr>current_term = t, voted_for = Some c\<rparr>
      else if engine_current_term e < t then \<lparr>current_term = t, voted_for = None\<rparr>
      else engine_hard e)"
  "role (fst (handle_request_vote e s t c li lt now)) =
     (if grants_vote e t c li lt \<or> engine_current_term e < t then Follower else role e)"
  "votes (fst (handle_request_vote e s t c li lt now)) =
     (if grants_vote e t c li lt \<or> engine_current_term e < t then {} else votes e)"
  "election_deadline (fst (handle_request_vote e s t c li lt now)) =
     (if grants_vote e t c li lt
      then now + cfg_election_timeout (config e) + cfg_election_jitter (config e)
      else election_deadline e)"
  "ms_entries (storage (fst (handle_request_vote e s t c li lt now))) = ms_entries (storage e)"
  "commit_index (fst (handle_request_vote e s t c li lt now)) = commit_index e"
  "last_applied (fst (handle_request_vote e s t c li lt now)) = last_applied e"
proof -
  let ?r = "handle_request_vote e s t c li lt now"
  have "snd ?r = (if engine_current_term e < t then [BecomeFollower t None] else []) @
          [Send s (RequestVoteResp (max (engine_current_term e) t) (grants_vote e t c li lt))] \<and>
     engine_hard (fst ?r) =
       (if grants_vote e t c li lt then \<lparr>current_term = t, voted_for = Some c\<rparr>
        else if engine_current_term e < t then \<lparr>current_term = t, voted_for = None\<rparr>
        else engine_hard e) \<and>
     role (fst ?r) = (if grants_vote e t c li lt \<or> engine_current_term e < t then Follower else role e) \<and>
     votes (fst ?r) = (if grants_vote e t c li lt \<or> engine_current_term e < t then {} else votes e) \<and>
     election_deadline (fst ?r) =
       (if grants_vote e t c li lt
        then now + cfg_election_timeout (config e) + cfg_election_jitter (config e)
        else election_deadline e) \<and>
     ms_entries (storage (fst ?r)) = ms_entries (storage e) \<and>
     commit_index (fst ?r) = commit_index e \<and> last_applied (fst ?r) = last_applied e"
  proof (rule linorder_cases [of t "engine_current_term e"])
    assume t: "t < engine_current_term e"
    then have "\<not> grants_vote e t c li lt" "\<not> engine_current_term e < t" "max (engine_current_term e) t = engine_current_term e"
      by (auto simp: grants_vote_def)
    with t show ?thesis by (simp add: handle_request_vote_def Let_def)
  next
    assume t: "t = engine_current_term e"
    show ?thesis
      unfolding t
      by (simp add: handle_request_vote_def grants_vote_def Let_def log_is_up_to_date_iff
          engine_current_term_def reset_election_deadline_def)
  next
    assume t: "engine_current_term e < t"
    then have m: "max t (engine_current_term e) = t" "max (engine_current_term e) t = t"
        "engine_current_term e \<le> t" "\<not> t < engine_current_term e"
      by simp_all
    have ct: "engine_current_term (x\<lparr>storage := st, role := Follower, leader := None, votes := {}\<rparr>) =
        current_term (hard_state st)" for x :: "('a, 'b) RaftEngine" and st
      by (simp add: engine_current_term_def)
    from t show ?thesis
      by (simp add: handle_request_vote_def grants_vote_def Let_def log_is_up_to_date_iff m ct
          case_prod_unfold) (simp add: reset_election_deadline_def)
  qed
  then show
    "snd ?r = (if engine_current_term e < t then [BecomeFollower t None] else []) @
          [Send s (RequestVoteResp (max (engine_current_term e) t) (grants_vote e t c li lt))]"
    "engine_hard (fst ?r) =
       (if grants_vote e t c li lt then \<lparr>current_term = t, voted_for = Some c\<rparr>
        else if engine_current_term e < t then \<lparr>current_term = t, voted_for = None\<rparr>
        else engine_hard e)"
    "role (fst ?r) = (if grants_vote e t c li lt \<or> engine_current_term e < t then Follower else role e)"
    "votes (fst ?r) = (if grants_vote e t c li lt \<or> engine_current_term e < t then {} else votes e)"
    "election_deadline (fst ?r) =
       (if grants_vote e t c li lt
        then now + cfg_election_timeout (config e) + cfg_election_jitter (config e)
        else election_deadline e)"
    "ms_entries (storage (fst ?r)) = ms_entries (storage e)"
    "commit_index (fst ?r) = commit_index e" "last_applied (fst ?r) = last_applied e"
    by simp_all
qed

lemma handle_request_vote_rest:
  "leader (fst (handle_request_vote e s t c li lt now)) =
     (if grants_vote e t c li lt \<or> engine_current_term e < t then None else leader e)"
  "next_index (fst (handle_request_vote e s t c li lt now)) = (if engine_current_term e < t then Map.empty else next_index e)"
  "match_index (fst (handle_request_vote e s t c li lt now)) = (if engine_current_term e < t then Map.empty else match_index e)"
  "last_ae (fst (handle_request_vote e s t c li lt now)) = (if engine_current_term e < t then Map.empty else last_ae e)"
  "ae_inflight (fst (handle_request_vote e s t c li lt now)) = (if engine_current_term e < t then {} else ae_inflight e)"
  "heartbeat_deadline (fst (handle_request_vote e s t c li lt now)) = heartbeat_deadline e"
  "membership (fst (handle_request_vote e s t c li lt now)) = membership e"
  by (auto simp: handle_request_vote_def grants_vote_def Let_def case_prod_unfold log_is_up_to_date_iff
      reset_election_deadline_def engine_current_term_def)

subsection \<open>Every call keeps the order on hard states\<close>

text \<open>
  The one place where the term could wrap: an election started at term \<open>u64::MAX\<close>
  (\<open>current_term() + 1\<close> panics in a debug build and wraps in a release build).
\<close>

fun term_overflow :: "('p, 'a) RaftEngine \<Rightarrow> EngineInput \<Rightarrow> bool" where
  "term_overflow e (InTick now) =
     (role e \<noteq> Leader \<and> election_deadline e \<le> now \<and> engine_current_term e = - 1)"
| "term_overflow e _ = False"

lemma term_not_max: "engine_current_term e \<noteq> - 1 \<Longrightarrow> engine_current_term e < engine_current_term e + 1"
  by (rule less_Suc_u64)

lemma start_election_hard [simp]:
  "engine_hard (fst (start_election e now)) =
     \<lparr>current_term = engine_current_term e + 1, voted_for = Some (cfg_node_id (config e))\<rparr>"
  "role (fst (start_election e now)) = Candidate"
  "votes (fst (start_election e now)) = {cfg_node_id (config e)}"
  "engine_current_term (fst (start_election e now)) = engine_current_term e + 1"
  "snd (start_election e now) =
     [BecomeCandidate (engine_current_term e + 1),
      Broadcast (RequestVote (engine_current_term e + 1) (cfg_node_id (config e))
        (fst (last_index_term (storage e))) (snd (last_index_term (storage e))))]"
  by (simp_all add: start_election_def Let_def case_prod_unfold engine_current_term_def)

lemma tick_hard:
  "\<not> term_overflow e (InTick now) \<Longrightarrow> hs_le (engine_hard e) (engine_hard (fst (tick e now)))"
  using term_not_max [of e]
  by (cases "role e") (auto simp: tick_def Let_def case_prod_unfold hs_le_def engine_current_term_def
      next_deadline_def)

lemma request_vote_hard: "hs_le (engine_hard e) (engine_hard (fst (handle_request_vote e s t c li lt now)))"
  by (auto simp: handle_request_vote_spec grants_vote_def hs_le_def engine_current_term_def)

lemma request_vote_resp_hard: "hs_le (engine_hard e) (engine_hard (fst (handle_request_vote_resp e s t g now)))"
  by (auto simp: handle_request_vote_resp_def Let_def hs_le_def engine_current_term_def)

lemma append_entries_hard:
  "hs_le (engine_hard e) (engine_hard (fst (handle_append_entries e s t l pi pt es lc now)))"
  by (auto simp: handle_append_entries_def Let_def case_prod_unfold hs_le_def engine_current_term_def)

lemma append_entries_resp_hard:
  "hs_le (engine_hard e) (engine_hard (fst (handle_append_entries_resp e s t ok m now)))"
  by (auto simp: handle_append_entries_resp_def Let_def case_prod_unfold hs_le_def engine_current_term_def
      split: option.split)

lemma propose_hard: "engine_hard (fst (propose e d)) = engine_hard e"
  by (auto simp: propose_def Let_def case_prod_unfold)

lemma handle_rpc_hard: "hs_le (engine_hard e) (engine_hard (fst (handle_rpc e s m now)))"
  by (cases m) (auto simp: request_vote_hard request_vote_resp_hard append_entries_hard append_entries_resp_hard)

lemma engine_apply_hard:
  "\<not> term_overflow e i \<Longrightarrow> hs_le (engine_hard e) (engine_hard (fst (engine_apply e i)))"
  by (cases i) (auto simp: engine_apply_fst tick_hard handle_rpc_hard propose_hard handle_rpc_failure_def
      simp del: engine_apply.simps(1,4) term_overflow.simps)

text \<open>A run none of whose elections starts at the maximal term.\<close>

fun no_overflow :: "('p, 'a) RaftEngine \<Rightarrow> EngineInput list \<Rightarrow> bool" where
  "no_overflow e [] = True"
| "no_overflow e (i # is) = (\<not> term_overflow e i \<and> no_overflow (fst (engine_apply e i)) is)"

text \<open>
  C25: Over any sequence of calls (ticks, messages from anyone, RPC failures, proposals, in any order)
  the persisted term never decreases, and as long as it stays the same a vote once cast is never
  changed: the engine votes for at most one candidate per term.
\<close>

theorem one_vote_per_term:
  assumes "no_overflow e is"
  shows "hs_le (engine_hard e) (engine_hard (fst (engine_run e is)))"
  using assms
proof (induction "is" arbitrary: e)
  case (Cons i "is")
  then have "hs_le (engine_hard e) (engine_hard (fst (engine_apply e i)))"
    by (intro engine_apply_hard) auto
  also have "hs_le \<dots> (engine_hard (fst (engine_run (fst (engine_apply e i)) is)))"
    using Cons by auto
  finally show ?case by (simp add: Let_def case_prod_unfold)
qed simp

theorem one_vote_per_term_witness:
  "let e = engine_new sorted_list_of_set 0
       \<lparr>cfg_node_id = 1, cfg_voters = [1, 2, 3], cfg_seed_peers = [], cfg_election_timeout = 15,
        cfg_election_jitter = 0, cfg_heartbeat_interval = 5, cfg_rpc_timeout = 10,
        cfg_rpc_max_retries = 0, cfg_snapshot_threshold = 10000\<rparr> MemoryStorage_new
       :: (unit, unit) RaftEngine;
     is = [InRpc 2 (RequestVote 4 2 0 0) 1, InRpc 3 (RequestVote 4 3 0 0) 2, InTick 40]
   in no_overflow e is \<and> hs_le (engine_hard e) (engine_hard (fst (engine_run e is)))"
proof -
  have "no_overflow (engine_new sorted_list_of_set 0
       \<lparr>cfg_node_id = 1, cfg_voters = [1, 2, 3], cfg_seed_peers = [], cfg_election_timeout = 15,
        cfg_election_jitter = 0, cfg_heartbeat_interval = 5, cfg_rpc_timeout = 10,
        cfg_rpc_max_retries = 0, cfg_snapshot_threshold = 10000\<rparr> MemoryStorage_new
       :: (unit, unit) RaftEngine)
      [InRpc 2 (RequestVote 4 2 0 0) 1, InRpc 3 (RequestVote 4 3 0 0) 2, InTick 40]"
    by code_simp
  with one_vote_per_term [OF this] show ?thesis by (simp add: Let_def)
qed

subsection \<open>What the actions say\<close>

lemma append_entries_resp_kind:
  "a \<in> set (snd (handle_append_entries_resp e s t ok m now)) \<Longrightarrow>
    is_append_entries a \<or> (\<exists>es. a = Apply es) \<or> (\<exists>t. a = BecomeFollower t None)"
  by (auto simp: handle_append_entries_resp_def Let_def case_prod_unfold
      dest: send_append_entries_to_kind maybe_commit_action split: option.splits if_splits)

lemma append_entries_kind:
  "a \<in> set (snd (handle_append_entries e s t l pi pt es lc now)) \<Longrightarrow>
    (\<exists>t ok m. a = Send s (AppendEntriesResp t ok m)) \<or> (\<exists>es. a = Apply es) \<or>
    (\<exists>t l. a = BecomeFollower t (Some l))"
  by (auto simp: handle_append_entries_def Let_def case_prod_unfold
      dest!: advance_commit_action split: if_splits)

lemma propose_kind: "propose e d = (e', Inr (n, as)) \<Longrightarrow> a \<in> set as \<Longrightarrow> is_append_entries a"
  by (auto simp: propose_def Let_def case_prod_unfold dest: replicate_actions_kind split: if_splits)

lemma tick_kind:
  "a \<in> set (out_actions (snd (tick e now))) \<Longrightarrow>
    is_append_entries a \<or>
    role e \<noteq> Leader \<and> election_deadline e \<le> now \<and> fst (tick e now) = fst (start_election e now) \<and>
      a \<in> set (snd (start_election e now))"
  by (cases "role e")
     (auto simp: tick_def Let_def case_prod_unfold simp del: start_election_hard(5)
      dest: replicate_actions_kind split: if_splits)

lemma request_vote_kind:
  "a \<in> set (snd (handle_request_vote e s t c li lt now)) \<Longrightarrow>
    (\<exists>l. a = BecomeFollower t l) \<or>
    (\<exists>t' g. a = Send s (RequestVoteResp t' g) \<and>
       (g \<longrightarrow> t' = t \<and> engine_hard (fst (handle_request_vote e s t c li lt now)) =
                \<lparr>current_term = t, voted_for = Some c\<rparr>))"
  by (auto simp: handle_request_vote_spec grants_vote_def max_def split: if_splits)

lemma request_vote_resp_kind:
  "a \<in> set (snd (handle_request_vote_resp e s t g now)) \<Longrightarrow>
    (\<exists>l. a = BecomeFollower t l) \<or>
    a = BecomeLeader t \<and> g \<and> t = engine_current_term e \<and> role e = Candidate \<and>
      quorum (membership e) \<le> card (insert s (votes e)) \<and>
      fst (handle_request_vote_resp e s t g now) = fst (become_leader (e\<lparr>votes := insert s (votes e)\<rparr>) t now [])"
proof (cases "t = engine_current_term e \<and> role e = Candidate \<and> g \<and>
    quorum (membership e) \<le> card (insert s (votes e))")
  case True
  moreover assume "a \<in> set (snd (handle_request_vote_resp e s t g now))"
  ultimately show ?thesis by (simp add: handle_request_vote_resp_def Let_def)
next
  case False
  moreover assume "a \<in> set (snd (handle_request_vote_resp e s t g now))"
  ultimately show ?thesis
    by (cases "t < engine_current_term e"; cases "t > engine_current_term e")
       (auto simp: handle_request_vote_resp_def Let_def split: if_splits)
qed

text \<open>
  Every action of every call, by its origin: replication and commitment, a step down, an election
  started by the timer, a vote, an answer to AppendEntries, a won election.
\<close>

lemma engine_apply_action_cases:
  assumes "a \<in> set (snd (engine_apply e i))"
  obtains "is_append_entries a"
  | es where "a = Apply es"
  | t l where "a = BecomeFollower t l"
  | now where "i = InTick now" "role e \<noteq> Leader" "election_deadline e \<le> now"
      "fst (engine_apply e i) = fst (start_election e now)" "a \<in> set (snd (start_election e now))"
  | s t c li lt now t' g where "i = InRpc s (RequestVote t c li lt) now" "a = Send s (RequestVoteResp t' g)"
      "g \<Longrightarrow> t' = t" "g \<Longrightarrow> engine_hard (fst (engine_apply e i)) = \<lparr>current_term = t, voted_for = Some c\<rparr>"
  | s t l pi pt es lc now t' ok m where "i = InRpc s (AppendEntries t l pi pt es lc) now"
      "a = Send s (AppendEntriesResp t' ok m)"
  | s t now where "i = InRpc s (RequestVoteResp t True) now" "a = BecomeLeader t"
      "t = engine_current_term e" "role e = Candidate"
      "quorum (membership e) \<le> card (insert s (votes e))"
      "fst (engine_apply e i) = fst (become_leader (e\<lparr>votes := insert s (votes e)\<rparr>) t now [])"
proof (cases i)
  case (InTick now)
  then have "a \<in> set (out_actions (snd (tick e now)))"
    using assms by (simp add: Let_def case_prod_unfold)
  from tick_kind [OF this] show ?thesis
  proof (elim disjE conjE)
    assume "fst (tick e now) = fst (start_election e now)"
    then have "fst (engine_apply e i) = fst (start_election e now)"
      unfolding InTick engine_apply_fst .
    moreover assume "role e \<noteq> Leader" "election_deadline e \<le> now" "a \<in> set (snd (start_election e now))"
    ultimately show ?thesis using InTick that(4) by blast
  qed (rule that(1))
next
  case (InRpc s m now)
  show ?thesis
  proof (cases m)
    case (RequestVote t c li lt)
    then show ?thesis using assms InRpc that(3,5) by (auto dest!: request_vote_kind)
  next
    case (RequestVoteResp t g)
    then show ?thesis using assms InRpc that(3,7) by (auto dest!: request_vote_resp_kind)
  next
    case (AppendEntries t l pi pt es lc)
    then show ?thesis using assms InRpc that(2,3,6) by (auto dest!: append_entries_kind)
  next
    case (AppendEntriesResp t ok m)
    then show ?thesis using assms InRpc that(1-3) by (auto dest!: append_entries_resp_kind)
  qed (use assms InRpc in auto)
next
  case (InPropose d)
  then show ?thesis using assms that(1) by (auto dest!: propose_kind split: prod.splits sum.splits)
qed (use assms in \<open>simp add: handle_rpc_failure_def\<close>)

lemma not_append_entries [simp]:
  "\<not> is_append_entries (Broadcast m)" "\<not> is_append_entries (BecomeLeader t)"
  "\<not> is_append_entries (BecomeCandidate t)" "\<not> is_append_entries (BecomeFollower t l)"
  "\<not> is_append_entries (Apply es)"
  "\<not> is_append_entries (Send c (RequestVoteResp t g))"
  "\<not> is_append_entries (Send c (RequestVote t cd li lt))"
  "\<not> is_append_entries (Send c (AppendEntriesResp t g mi))"
  by (simp_all add: is_append_entries_def)

text \<open>
  A vote is granted only in answer to a \<open>RequestVote\<close>, in its term, and for the candidate recorded
  as \<open>voted_for\<close>.
\<close>

lemma grant_step:
  assumes "Send c (RequestVoteResp t True) \<in> set (snd (engine_apply e i))"
  shows "\<exists>cand li lt now. i = InRpc c (RequestVote t cand li lt) now \<and>
    engine_hard (fst (engine_apply e i)) = \<lparr>current_term = t, voted_for = Some cand\<rparr>"
  using assms by (rule engine_apply_action_cases) auto

lemma candidacy_step:
  assumes "BecomeCandidate t \<in> set (snd (engine_apply e i))"
  shows "t = engine_current_term e + 1 \<and> (\<exists>now. i = InTick now \<and> role e \<noteq> Leader \<and> election_deadline e \<le> now) \<and>
    engine_hard (fst (engine_apply e i)) =
      \<lparr>current_term = t, voted_for = Some (cfg_node_id (config e))\<rparr>"
  using assms by (rule engine_apply_action_cases) auto

lemma leader_step:
  assumes "BecomeLeader t \<in> set (snd (engine_apply e i))"
  shows "\<exists>s now. i = InRpc s (RequestVoteResp t True) now \<and> t = engine_current_term e \<and> role e = Candidate \<and>
    quorum (membership e) \<le> card (insert s (votes e)) \<and>
    fst (engine_apply e i) = fst (become_leader (e\<lparr>votes := insert s (votes e)\<rparr>) t now [])"
  using assms by (rule engine_apply_action_cases) auto

lemma broadcast_step:
  assumes "Broadcast m \<in> set (snd (engine_apply e i))"
  shows "\<exists>li lt. m = RequestVote (engine_current_term e + 1) (cfg_node_id (config e)) li lt"
  using assms by (rule engine_apply_action_cases) auto

lemma send_not_request_vote:
  "Send c (RequestVote t cd li lt) \<notin> set (snd (engine_apply e i))"
proof
  assume "Send c (RequestVote t cd li lt) \<in> set (snd (engine_apply e i))"
  then show False by (rule engine_apply_action_cases) auto
qed

subsection \<open>How a candidate or a leader came about\<close>

lemma append_entries_role:
  "role (fst (handle_append_entries e s t l pi pt es lc now)) =
     (if t < engine_current_term e then role e else Follower)"
  by (auto simp: handle_append_entries_def Let_def case_prod_unfold)

lemma append_entries_resp_core:
  "t \<le> engine_current_term e \<Longrightarrow>
    role (fst (handle_append_entries_resp e s t ok m now)) = role e \<and>
    votes (fst (handle_append_entries_resp e s t ok m now)) = votes e \<and>
    storage (fst (handle_append_entries_resp e s t ok m now)) = storage e"
  by (auto simp: handle_append_entries_resp_def Let_def case_prod_unfold split: option.split)

lemma append_entries_resp_role:
  "engine_current_term e < t \<Longrightarrow> role (fst (handle_append_entries_resp e s t ok m now)) = Follower"
  by (simp add: handle_append_entries_resp_def Let_def)

lemma tick_core:
  "(fst (tick e now) = fst (start_election e now) \<and>
      out_actions (snd (tick e now)) = snd (start_election e now)) \<or>
   (role (fst (tick e now)) = role e \<and> votes (fst (tick e now)) = votes e \<and>
      storage (fst (tick e now)) = storage e)"
  by (cases "role e")
     (auto simp: tick_def Let_def case_prod_unfold simp del: start_election_hard(5))

lemma propose_core:
  "role (fst (propose e d)) = role e" "votes (fst (propose e d)) = votes e"
  by (simp_all add: propose_def Let_def case_prod_unfold)

lemma request_vote_resp_core:
  fixes e :: "('p, 'a) RaftEngine" and s :: NodeId and now :: Instant
  defines "r \<equiv> \<lambda>t g. handle_request_vote_resp e s t g now"
  shows "role (fst (r t g)) = Candidate \<Longrightarrow>
      role e = Candidate \<and> engine_hard (fst (r t g)) = engine_hard e \<and>
      (votes (fst (r t g)) = votes e \<or>
       t = engine_current_term e \<and> g \<and> votes (fst (r t g)) = insert s (votes e))"
    and "role (fst (r t g)) = Leader \<Longrightarrow> engine_hard (fst (r t g)) = engine_hard e \<and>
      (role e = Leader \<or> BecomeLeader (engine_current_term e) \<in> set (snd (r t g)))"
proof -
  have lt: "r t g = (e, [])" if "t < engine_current_term e" for t g
    using that by (simp add: r_def handle_request_vote_resp_def Let_def)
  have gt: "r t g = become_follower e t None []" if "engine_current_term e < t" for t g
    using that less_not_sym [OF that] by (simp add: r_def handle_request_vote_resp_def Let_def)
  have eq: "r (engine_current_term e) g =
      (if role e = Candidate \<and> g
       then (if quorum (membership e) \<le> card (insert s (votes e))
             then become_leader (e\<lparr>votes := insert s (votes e)\<rparr>) (engine_current_term e) now []
             else (e\<lparr>votes := insert s (votes e)\<rparr>, []))
       else (e, []))" for g
    by (simp add: r_def handle_request_vote_resp_def Let_def)
  show "role (fst (r t g)) = Candidate \<Longrightarrow>
      role e = Candidate \<and> engine_hard (fst (r t g)) = engine_hard e \<and>
      (votes (fst (r t g)) = votes e \<or>
       t = engine_current_term e \<and> g \<and> votes (fst (r t g)) = insert s (votes e))"
    by (rule linorder_cases [of t "engine_current_term e"]) (auto simp: lt gt eq split: if_splits)
  show "role (fst (r t g)) = Leader \<Longrightarrow> engine_hard (fst (r t g)) = engine_hard e \<and>
      (role e = Leader \<or> BecomeLeader (engine_current_term e) \<in> set (snd (r t g)))"
    by (rule linorder_cases [of t "engine_current_term e"]) (auto simp: lt gt eq split: if_splits)
qed

lemma candidate_step:
  assumes "role (fst (engine_apply e i)) = Candidate"
  shows "(BecomeCandidate (engine_current_term (fst (engine_apply e i))) \<in> set (snd (engine_apply e i)) \<and>
      votes (fst (engine_apply e i)) = {cfg_node_id (config e)}) \<or>
    (role e = Candidate \<and> engine_hard (fst (engine_apply e i)) = engine_hard e \<and>
      (votes (fst (engine_apply e i)) = votes e \<or>
       (\<exists>s now. i = InRpc s (RequestVoteResp (engine_current_term e) True) now \<and>
          votes (fst (engine_apply e i)) = insert s (votes e))))"
proof (cases i)
  case (InTick now)
  then have acts: "fst (engine_apply e i) = fst (tick e now)"
      "snd (engine_apply e i) = out_actions (snd (tick e now))"
    by (simp_all add: Let_def case_prod_unfold)
  from tick_core [of e now] show ?thesis
    using assms unfolding acts by (elim disjE conjE) simp_all
next
  case (InRpc s m now)
  show ?thesis
  proof (cases m)
    case (RequestVote t c li lt)
    then show ?thesis using assms InRpc by (auto simp: handle_request_vote_spec split: if_splits)
  next
    case (RequestVoteResp t g)
    with assms InRpc have "role (fst (handle_request_vote_resp e s t g now)) = Candidate" by simp
    from request_vote_resp_core(1) [OF this] show ?thesis
      unfolding InRpc RequestVoteResp handle_rpc.simps engine_apply.simps by blast
  next
    case (AppendEntries t l pi pt es lc)
    then show ?thesis using assms InRpc
      by (auto simp: append_entries_role handle_append_entries_def Let_def case_prod_unfold split: if_splits)
  next
    case (AppendEntriesResp t ok m')
    then show ?thesis using assms InRpc append_entries_resp_core [of t e s ok m' now]
        append_entries_resp_role [of e t s ok m' now]
      by (cases "t \<le> engine_current_term e") auto
  qed (use assms InRpc in auto)
next
  case (InPropose d)
  then show ?thesis using assms
    by (simp add: engine_apply_fst propose_core propose_hard del: engine_apply.simps)
qed (use assms in \<open>auto simp: handle_rpc_failure_def split: if_splits\<close>)

lemma leading_step:
  assumes "role (fst (engine_apply e i)) = Leader"
  shows "engine_hard (fst (engine_apply e i)) = engine_hard e \<and>
    (role e = Leader \<or> BecomeLeader (engine_current_term e) \<in> set (snd (engine_apply e i)))"
proof (cases i)
  case (InTick now)
  then have acts: "fst (engine_apply e i) = fst (tick e now)"
      "snd (engine_apply e i) = out_actions (snd (tick e now))"
    by (simp_all add: Let_def case_prod_unfold)
  from tick_core [of e now] show ?thesis
    using assms unfolding acts by (elim disjE conjE) simp_all
next
  case (InRpc s m now)
  show ?thesis
  proof (cases m)
    case (RequestVote t c li lt)
    then show ?thesis using assms InRpc by (auto simp: handle_request_vote_spec split: if_splits)
  next
    case (RequestVoteResp t g)
    with assms InRpc have "role (fst (handle_request_vote_resp e s t g now)) = Leader" by simp
    from request_vote_resp_core(2) [OF this] show ?thesis
      unfolding InRpc RequestVoteResp handle_rpc.simps engine_apply.simps by blast
  next
    case (AppendEntries t l pi pt es lc)
    then show ?thesis using assms InRpc
      by (auto simp: append_entries_role handle_append_entries_def Let_def case_prod_unfold split: if_splits)
  next
    case (AppendEntriesResp t ok m')
    then show ?thesis using assms InRpc append_entries_resp_core [of t e s ok m' now]
        append_entries_resp_role [of e t s ok m' now]
      by (cases "t \<le> engine_current_term e") auto
  qed (use assms InRpc in auto)
next
  case (InPropose d)
  then show ?thesis using assms
    by (simp add: engine_apply_fst propose_core propose_hard del: engine_apply.simps)
qed (use assms in \<open>auto simp: handle_rpc_failure_def split: if_splits\<close>)

end
