(* ===== verification/Cluster.thy ===== *)
theory Cluster
  imports EngineVote
begin

text \<open>
  Several engines and the network between them. A cluster is one engine per node and the history of
  the actions every engine has returned. The network is asynchronous: a message may be delivered to
  its addressee any number of times, in any order, at any later moment, or never; the history only
  grows, so every message ever sent stays deliverable (\<open>in_flight\<close>). \<open>Behaviour::execute_actions\<close>
  turns \<open>Send\<close> into one RPC and expands \<open>Broadcast\<close> to the other voters, which is what
  \<open>in_flight\<close> says. A step is one call of one voter's engine. Restarts are not steps:
  \<open>MemoryStorage\<close> does not survive them. The step that would start an election at term \<open>u64::MAX\<close> is
  excluded (it panics in a debug build).
\<close>

record ('p, 'a) Cluster =
  nodes :: "NodeId \<Rightarrow> ('p, 'a) RaftEngine"
  history :: "(NodeId \<times> Action) set"

definition in_flight :: "('p, 'a) Cluster \<Rightarrow> NodeId \<Rightarrow> NodeId \<Rightarrow> RaftMessage \<Rightarrow> bool" where
  "in_flight c src dst msg \<longleftrightarrow>
     (src, Send dst msg) \<in> history c \<or>
     (src, Broadcast msg) \<in> history c \<and> dst \<in> set (engine_other_voters (nodes c src))"

fun admissible :: "('p, 'a) Cluster \<Rightarrow> NodeId \<Rightarrow> EngineInput \<Rightarrow> bool" where
  "admissible c n (InTick now) = (\<not> term_overflow (nodes c n) (InTick now))"
| "admissible c n (InRpc src msg now) = in_flight c src n msg"
| "admissible c n (InRpcFailure peer kind) = True"
| "admissible c n (InPropose data) = True"

definition cluster_apply :: "('p, 'a) Cluster \<Rightarrow> NodeId \<Rightarrow> EngineInput \<Rightarrow> ('p, 'a) Cluster" where
  "cluster_apply c n i =
     (let (e, actions) = engine_apply (nodes c n) i in
      c\<lparr>nodes := (nodes c)(n := e), history := history c \<union> Pair n ` set actions\<rparr>)"

text \<open>The start: every node runs \<open>RaftEngine::new\<close> on its own configuration, clock and hash order.\<close>

definition cluster_init ::
  "(NodeId \<Rightarrow> NodeId set \<Rightarrow> NodeId list) \<Rightarrow> (NodeId \<Rightarrow> Instant) \<Rightarrow> (NodeId \<Rightarrow> ('p, 'a) RaftConfig) \<Rightarrow>
    ('p, 'a) Cluster" where
  "cluster_init hos nows cfgs =
     \<lparr>nodes = (\<lambda>n. engine_new (hos n) (nows n) (cfgs n) MemoryStorage_new), history = {}\<rparr>"

text \<open>
  The deployment the code expects: every voter is configured with its own id and with the same voter
  set (in any order, and with any hash order).
\<close>

definition deployment ::
  "NodeId set \<Rightarrow> (NodeId \<Rightarrow> NodeId set \<Rightarrow> NodeId list) \<Rightarrow> (NodeId \<Rightarrow> ('p, 'a) RaftConfig) \<Rightarrow> bool" where
  "deployment V hos cfgs \<longleftrightarrow> finite V \<and>
     (\<forall>n \<in> V. hash_order (hos n) \<and> cfg_node_id (cfgs n) = n \<and> set (cfg_voters (cfgs n)) = V)"

inductive cluster_step :: "NodeId set \<Rightarrow> ('p, 'a) Cluster \<Rightarrow> ('p, 'a) Cluster \<Rightarrow> bool" for V where
  call: "n \<in> V \<Longrightarrow> admissible c n i \<Longrightarrow> cluster_step V c (cluster_apply c n i)"

inductive cluster_reachable :: "NodeId set \<Rightarrow> ('p, 'a) Cluster \<Rightarrow> ('p, 'a) Cluster \<Rightarrow> bool" for V c0 where
  start: "cluster_reachable V c0 c0"
| step: "cluster_reachable V c0 c \<Longrightarrow> cluster_step V c c' \<Longrightarrow> cluster_reachable V c0 c'"

text \<open>The same as a function of a schedule, for executing concrete runs.\<close>

fun cluster_run :: "NodeId set \<Rightarrow> ('p, 'a) Cluster \<Rightarrow> (NodeId \<times> EngineInput) list \<Rightarrow> ('p, 'a) Cluster option" where
  "cluster_run V c [] = Some c"
| "cluster_run V c ((n, i) # sched) =
     (if n \<in> V \<and> admissible c n i then cluster_run V (cluster_apply c n i) sched else None)"

lemma cluster_run_reachable:
  "cluster_reachable V c0 c \<Longrightarrow> cluster_run V c sched = Some c' \<Longrightarrow> cluster_reachable V c0 c'"
proof (induction sched arbitrary: c)
  case (Cons a sched)
  obtain n i where a: "a = (n, i)" by (cases a)
  with Cons.prems(2) have "n \<in> V" "admissible c n i" "cluster_run V (cluster_apply c n i) sched = Some c'"
    by (auto split: if_splits)
  then show ?case using Cons.IH [of "cluster_apply c n i"] Cons.prems(1)
    by (blast intro: cluster_step.call cluster_reachable.step)
qed simp

lemma cluster_apply_sel:
  "nodes (cluster_apply c n i) m = (if m = n then fst (engine_apply (nodes c n) i) else nodes c m)"
  "x \<in> history (cluster_apply c n i) \<longleftrightarrow>
     x \<in> history c \<or> fst x = n \<and> snd x \<in> set (snd (engine_apply (nodes c n) i))"
  by (cases x; auto simp: cluster_apply_def Let_def case_prod_unfold image_iff)+

lemma cluster_inv_reachable:
  assumes "cluster_reachable V c0 c" and "P c0"
    and "\<And>c n i. P c \<Longrightarrow> n \<in> V \<Longrightarrow> admissible c n i \<Longrightarrow> P (cluster_apply c n i)"
  shows "P c"
  using assms by (induction rule: cluster_reachable.induct) (auto elim: cluster_step.cases)

subsection \<open>The static part\<close>

text \<open>Every voter keeps its id and the common voter set, and so the common quorum size.\<close>

definition static_ok :: "NodeId set \<Rightarrow> ('p, 'a) Cluster \<Rightarrow> bool" where
  "static_ok V c \<longleftrightarrow> finite V \<and> (\<forall>n \<in> V. cfg_node_id (config (nodes c n)) = n \<and>
     distinct (voters (membership (nodes c n))) \<and> set (voters (membership (nodes c n))) = V)"

lemma static_ok_init: "deployment V hos cfgs \<Longrightarrow> static_ok V (cluster_init hos nows cfgs)"
  using membership_new by (auto simp: static_ok_def deployment_def cluster_init_def engine_new_def
      membership_wf_def)

lemma static_ok_apply: "static_ok V c \<Longrightarrow> static_ok V (cluster_apply c n i)"
  by (simp add: static_ok_def cluster_apply_sel)

text \<open>The quorums of the deployment, read off any one membership with the voters \<open>V\<close>.\<close>

definition voter_membership :: "NodeId set \<Rightarrow> Membership" where
  "voter_membership V = \<lparr>voters = sorted_list_of_set V\<rparr>"

lemma static_ok_majority:
  assumes "static_ok V c" "n \<in> V" "Q \<subseteq> V" "quorum (membership (nodes c n)) \<le> card Q"
  shows "majority_of (voter_membership V) Q"
proof -
  have "length (voters (membership (nodes c n))) = card V"
    using assms(1,2) distinct_card [of "voters (membership (nodes c n))"] by (simp add: static_ok_def)
  then show ?thesis using assms
    by (simp add: majority_of_def voter_membership_def quorum_def static_ok_def)
qed

subsection \<open>Votes on the record\<close>

text \<open>
  \<open>voted c v x t\<close>: the history shows that \<open>v\<close> gave its vote of term \<open>t\<close> to \<open>x\<close>, by granting a
  request or by becoming a candidate itself.
\<close>

definition voted :: "('p, 'a) Cluster \<Rightarrow> NodeId \<Rightarrow> NodeId \<Rightarrow> Term \<Rightarrow> bool" where
  "voted c v x t \<longleftrightarrow> (v, Send x (RequestVoteResp t True)) \<in> history c \<or>
     v = x \<and> (v, BecomeCandidate t) \<in> history c"

text \<open>Requests for votes are broadcasts of the candidate itself; only voters act.\<close>

definition requests_ok :: "NodeId set \<Rightarrow> ('p, 'a) Cluster \<Rightarrow> bool" where
  "requests_ok V c \<longleftrightarrow>
     (\<forall>m a. (m, a) \<in> history c \<longrightarrow> m \<in> V) \<and>
     (\<forall>m msg. (m, Broadcast msg) \<in> history c \<longrightarrow> (\<exists>t li lt. msg = RequestVote t m li lt)) \<and>
     (\<forall>m d t x li lt. (m, Send d (RequestVote t x li lt)) \<notin> history c)"

definition votes_ok :: "('p, 'a) Cluster \<Rightarrow> bool" where
  "votes_ok c \<longleftrightarrow>
     (\<forall>v x t. voted c v x t \<longrightarrow> hs_le \<lparr>current_term = t, voted_for = Some x\<rparr> (engine_hard (nodes c v))) \<and>
     (\<forall>v x y t. voted c v x t \<longrightarrow> voted c v y t \<longrightarrow> x = y)"

definition elections_ok :: "NodeId set \<Rightarrow> ('p, 'a) Cluster \<Rightarrow> bool" where
  "elections_ok V c \<longleftrightarrow>
     (\<forall>n \<in> V. role (nodes c n) = Candidate \<longrightarrow> votes (nodes c n) \<subseteq> V \<and>
        (\<forall>v \<in> votes (nodes c n). voted c v n (engine_current_term (nodes c n)))) \<and>
     (\<forall>n t. (n, BecomeLeader t) \<in> history c \<longrightarrow>
        (\<exists>Q. majority_of (voter_membership V) Q \<and> (\<forall>v \<in> Q. voted c v n t))) \<and>
     (\<forall>n \<in> V. role (nodes c n) = Leader \<longrightarrow>
        (n, BecomeLeader (engine_current_term (nodes c n))) \<in> history c)"

definition election_inv :: "NodeId set \<Rightarrow> ('p, 'a) Cluster \<Rightarrow> bool" where
  "election_inv V c \<longleftrightarrow> static_ok V c \<and> requests_ok V c \<and> votes_ok c \<and> elections_ok V c"

lemma election_inv_init: "deployment V hos cfgs \<Longrightarrow> election_inv V (cluster_init hos nows cfgs)"
  using static_ok_init [of V hos cfgs nows]
  by (simp add: election_inv_def requests_ok_def votes_ok_def elections_ok_def voted_def
      cluster_init_def engine_new_def)

lemma requests_ok_apply:
  assumes "requests_ok V c" "static_ok V c" "n \<in> V"
  shows "requests_ok V (cluster_apply c n i)"
  using assms broadcast_step [of _ "nodes c n" i] send_not_request_vote [of _ _ _ _ _ "nodes c n" i]
  unfolding requests_ok_def static_ok_def cluster_apply_sel fst_conv snd_conv by metis

lemma in_flight_request:
  "requests_ok V c \<Longrightarrow> in_flight c src dst (RequestVote t x li lt) \<Longrightarrow> x = src"
  unfolding requests_ok_def in_flight_def by blast

lemma in_flight_grant:
  "requests_ok V c \<Longrightarrow> in_flight c src dst (RequestVoteResp t True) \<Longrightarrow> src \<in> V \<and> voted c src dst t"
  unfolding requests_ok_def in_flight_def voted_def by blast

lemma admissible_hard:
  "admissible c n i \<Longrightarrow> hs_le (engine_hard (nodes c n)) (engine_hard (fst (engine_apply (nodes c n) i)))"
  by (rule engine_apply_hard) (cases i; simp)

text \<open>A vote is new only for the node that moves, and then it is that node's recorded vote.\<close>

lemma voted_mono: "voted c v x t \<Longrightarrow> voted (cluster_apply c n i) v x t"
  by (auto simp: voted_def cluster_apply_sel)

lemma voted_new:
  assumes "static_ok V c" "requests_ok V c" "n \<in> V" "admissible c n i"
    and "voted (cluster_apply c n i) v x t"
  shows "voted c v x t \<or>
    v = n \<and> engine_hard (fst (engine_apply (nodes c n) i)) = \<lparr>current_term = t, voted_for = Some x\<rparr>"
proof (cases "voted c v x t")
  case False
  with assms(5) have v: "v = n"
    and acts: "Send x (RequestVoteResp t True) \<in> set (snd (engine_apply (nodes c n) i)) \<or>
      x = n \<and> BecomeCandidate t \<in> set (snd (engine_apply (nodes c n) i))"
    by (auto simp: voted_def cluster_apply_sel)
  from acts have "engine_hard (fst (engine_apply (nodes c n) i)) = \<lparr>current_term = t, voted_for = Some x\<rparr>"
  proof
    assume "Send x (RequestVoteResp t True) \<in> set (snd (engine_apply (nodes c n) i))"
    from grant_step [OF this] obtain cand li lt now where
      i: "i = InRpc x (RequestVote t cand li lt) now"
      and h: "engine_hard (fst (engine_apply (nodes c n) i)) = \<lparr>current_term = t, voted_for = Some cand\<rparr>"
      by blast
    from assms(4) i have "cand = x" by (auto dest: in_flight_request [OF assms(2)])
    with h show ?thesis by simp
  next
    assume "x = n \<and> BecomeCandidate t \<in> set (snd (engine_apply (nodes c n) i))"
    then show ?thesis using candidacy_step [of t "nodes c n" i] assms(1,3) by (simp add: static_ok_def)
  qed
  with v show ?thesis by simp
qed simp

lemma hs_le_vote:
  "hs_le \<lparr>current_term = t, voted_for = Some x\<rparr> h \<Longrightarrow> hs_le h \<lparr>current_term = t, voted_for = Some y\<rparr> \<Longrightarrow> x = y"
  by (auto simp: hs_le_def)

lemma votes_ok_apply:
  assumes "static_ok V c" "requests_ok V c" "votes_ok c" "n \<in> V" "admissible c n i"
  shows "votes_ok (cluster_apply c n i)"
proof -
  let ?h = "engine_hard (fst (engine_apply (nodes c n) i))"
  note new = voted_new [OF assms(1,2,4,5)]
  have mono: "hs_le (engine_hard (nodes c n)) ?h" using assms(5) by (rule admissible_hard)
  have old: "hs_le \<lparr>current_term = t, voted_for = Some x\<rparr> (engine_hard (nodes c v))" if "voted c v x t" for v x t
    using that assms(3) by (simp add: votes_ok_def)
  have "hs_le \<lparr>current_term = t, voted_for = Some x\<rparr> (engine_hard (nodes (cluster_apply c n i) v))"
    if "voted (cluster_apply c n i) v x t" for v x t
    using new [OF that] old [of v x t] mono
    by (auto simp: cluster_apply_sel intro: hs_le_trans)
  moreover have "x = y" if v: "voted (cluster_apply c n i) v x t" "voted (cluster_apply c n i) v y t" for v x y t
  proof -
    have cross: "x' = y'" if "voted c v x' t" "v = n" "?h = \<lparr>current_term = t, voted_for = Some y'\<rparr>" for x' y'
      using old [OF that(1)] mono that(2,3) hs_le_vote by fastforce
    from new [OF v(1)] new [OF v(2)] assms(3) cross show ?thesis
      by (auto simp: votes_ok_def)
  qed
  ultimately show ?thesis unfolding votes_ok_def by blast
qed

lemma elections_ok_apply:
  assumes "static_ok V c" "requests_ok V c" "elections_ok V c" "n \<in> V" "admissible c n i"
  shows "elections_ok V (cluster_apply c n i)"
proof -
  let ?c = "cluster_apply c n i" and ?e = "nodes c n"
  let ?e' = "fst (engine_apply ?e i)"
  have id: "cfg_node_id (config ?e) = n" using assms(1,4) by (simp add: static_ok_def)
  have cand: "votes ?e \<subseteq> V" "v \<in> votes ?e \<Longrightarrow> voted c v n (engine_current_term ?e)"
    if "role ?e = Candidate" for v
    using that assms(3,4) by (auto simp: elections_ok_def)
  have grant: "s \<in> V \<and> voted c s n t" if "i = InRpc s (RequestVoteResp t True) now" for s t now
    using that assms(5) by (auto dest: in_flight_grant [OF assms(2)])
  have candidates: "votes ?e' \<subseteq> V \<and> (\<forall>v \<in> votes ?e'. voted ?c v n (engine_current_term ?e'))"
    if "role ?e' = Candidate"
    using candidate_step [OF that]
  proof (elim disjE conjE exE)
    assume "BecomeCandidate (engine_current_term ?e') \<in> set (snd (engine_apply ?e i))"
      and "votes ?e' = {cfg_node_id (config ?e)}"
    then show ?thesis using assms(4) by (simp add: id voted_def cluster_apply_sel)
  next
    assume "role ?e = Candidate" "engine_hard ?e' = engine_hard ?e" "votes ?e' = votes ?e"
    then show ?thesis using cand by (auto simp: engine_current_term_def intro: voted_mono)
  next
    fix s now
    assume "role ?e = Candidate" "engine_hard ?e' = engine_hard ?e" "votes ?e' = insert s (votes ?e)"
      and "i = InRpc s (RequestVoteResp (engine_current_term ?e) True) now"
    then show ?thesis using cand grant by (auto simp: engine_current_term_def intro: voted_mono)
  qed
  have winners: "\<exists>Q. majority_of (voter_membership V) Q \<and> (\<forall>v \<in> Q. voted ?c v n t)"
    if win: "BecomeLeader t \<in> set (snd (engine_apply ?e i))" for t
  proof -
    from leader_step [OF win] obtain s now where s: "i = InRpc s (RequestVoteResp t True) now"
      and t: "t = engine_current_term ?e" "role ?e = Candidate"
      and q: "quorum (membership ?e) \<le> card (insert s (votes ?e))" by blast
    let ?Q = "insert s (votes ?e)"
    have "?Q \<subseteq> V" using cand(1) [OF t(2)] grant [OF s] by simp
    then have "majority_of (voter_membership V) ?Q" by (rule static_ok_majority [OF assms(1,4) _ q])
    moreover have "\<forall>v \<in> ?Q. voted ?c v n t"
      using cand(2) [OF t(2)] grant [OF s] t(1) by (auto intro: voted_mono)
    ultimately show ?thesis by blast
  qed
  have leaders: "(n, BecomeLeader (engine_current_term ?e')) \<in> history ?c" if "role ?e' = Leader"
    using leading_step [OF that] assms(3,4)
    by (auto simp: elections_ok_def cluster_apply_sel engine_current_term_def)
  have node: "nodes ?c m = (if m = n then ?e' else nodes c m)" for m
    by (simp add: cluster_apply_sel)
  show ?thesis
    unfolding elections_ok_def
  proof (intro conjI ballI allI impI)
    fix m assume m: "m \<in> V" "role (nodes ?c m) = Candidate"
    show "votes (nodes ?c m) \<subseteq> V"
      using candidates m assms(3) by (cases "m = n") (auto simp: node elections_ok_def)
    fix v assume "v \<in> votes (nodes ?c m)"
    then show "voted ?c v m (engine_current_term (nodes ?c m))"
      using candidates m assms(3)
      by (cases "m = n") (auto simp: node elections_ok_def intro: voted_mono)
  next
    fix m t assume "(m, BecomeLeader t) \<in> history ?c"
    then consider "(m, BecomeLeader t) \<in> history c"
      | "m = n" "BecomeLeader t \<in> set (snd (engine_apply ?e i))"
      by (auto simp: cluster_apply_sel)
    then show "\<exists>Q. majority_of (voter_membership V) Q \<and> (\<forall>v \<in> Q. voted ?c v m t)"
    proof cases
      case 1
      then obtain Q where "majority_of (voter_membership V) Q" "\<forall>v \<in> Q. voted c v m t"
        using assms(3) unfolding elections_ok_def by blast
      then show ?thesis by (blast intro: voted_mono)
    next
      case 2
      then show ?thesis using winners by simp
    qed
  next
    fix m assume "m \<in> V" "role (nodes ?c m) = Leader"
    then show "(m, BecomeLeader (engine_current_term (nodes ?c m))) \<in> history ?c"
      using leaders assms(3) by (cases "m = n") (auto simp: node elections_ok_def cluster_apply_sel(2))
  qed
qed

lemma election_inv_apply:
  "election_inv V c \<Longrightarrow> n \<in> V \<Longrightarrow> admissible c n i \<Longrightarrow> election_inv V (cluster_apply c n i)"
  unfolding election_inv_def
  by (blast intro: static_ok_apply requests_ok_apply votes_ok_apply elections_ok_apply)

lemma election_inv_reachable:
  assumes "deployment V hos cfgs" "cluster_reachable V (cluster_init hos nows cfgs) c"
  shows "election_inv V c"
  using assms(2) election_inv_init [OF assms(1)] election_inv_apply
  by (rule cluster_inv_reachable)

subsection \<open>Election safety\<close>

lemma elected_unique:
  assumes "election_inv V c" "(n, BecomeLeader t) \<in> history c" "(m, BecomeLeader t) \<in> history c"
  shows "n = m"
proof -
  have won: "\<exists>Q. majority_of (voter_membership V) Q \<and> (\<forall>v \<in> Q. voted c v x t)"
    if "(x, BecomeLeader t) \<in> history c" for x
    using that assms(1) unfolding election_inv_def elections_ok_def by blast
  obtain Q where Q: "majority_of (voter_membership V) Q" "\<forall>v \<in> Q. voted c v n t"
    using won [OF assms(2)] by blast
  obtain R where R: "majority_of (voter_membership V) R" "\<forall>v \<in> R. voted c v m t"
    using won [OF assms(3)] by blast
  have once: "x = y" if "voted c v x t" "voted c v y t" for v x y
    using that assms(1) unfolding election_inv_def votes_ok_def by blast
  show ?thesis
    by (rule maj.unique_winner [OF Q(1) R(1), of "\<lambda>v x. voted c v x t"])
      (use Q(2) R(2) once in blast)+
qed

text \<open>
  C1: Election safety: in every reachable cluster, whatever the network delays, duplicates, reorders
  or loses and whenever timers fire, at most one node has ever become leader in a given term.
\<close>

theorem election_safety:
  assumes "deployment V hos cfgs" and "cluster_reachable V (cluster_init hos nows cfgs) c"
    and "(n, BecomeLeader t) \<in> history c" and "(m, BecomeLeader t) \<in> history c"
  shows "n = m"
  using election_inv_reachable [OF assms(1,2)] assms(3,4) by (rule elected_unique)

text \<open>The three-voter deployment of the witnesses.\<close>

definition demo_init :: "(unit, unit) Cluster" where
  "demo_init = cluster_init (\<lambda>_. sorted_list_of_set) (\<lambda>_. 0) demo_config"

lemma demo_deployment: "deployment {1, 2, 3} (\<lambda>_. sorted_list_of_set) demo_config"
  by (auto simp: deployment_def demo_config_def hash_order_sorted)

text \<open>Node 1 times out, node 2 grants its vote, node 1 becomes leader of term 1.\<close>

definition demo_election :: "(NodeId \<times> EngineInput) list" where
  "demo_election =
     [(1, InTick 20), (2, InRpc 1 (RequestVote 1 1 0 0) 21), (1, InRpc 2 (RequestVoteResp 1 True) 22)]"

lemma demo_election_run:
  "\<exists>c. cluster_run {1, 2, 3} demo_init demo_election = Some c \<and> (1, BecomeLeader 1) \<in> history c \<and>
     role (nodes c 1) = Leader \<and> engine_current_term (nodes c 1) = 1"
proof -
  have "case cluster_run {1, 2, 3} demo_init demo_election of None \<Rightarrow> False
     | Some c \<Rightarrow> (1, BecomeLeader 1) \<in> history c \<and> role (nodes c 1) = Leader \<and>
         engine_current_term (nodes c 1) = 1"
    by code_simp
  then show ?thesis by (auto split: option.splits)
qed

theorem election_safety_witness:
  "\<exists>c. cluster_reachable {1, 2, 3} demo_init c \<and> (1, BecomeLeader 1) \<in> history c \<and>
     (\<forall>m. (m, BecomeLeader 1) \<in> history c \<longrightarrow> m = 1)"
proof -
  obtain c where c: "cluster_run {1, 2, 3} demo_init demo_election = Some c" "(1, BecomeLeader 1) \<in> history c"
    using demo_election_run by blast
  then have r: "cluster_reachable {1, 2, 3} demo_init c"
    by (blast intro: cluster_run_reachable cluster_reachable.start)
  have "m = 1" if "(m, BecomeLeader 1) \<in> history c" for m
    by (rule election_safety [OF demo_deployment r [unfolded demo_init_def] that c(2)])
  with c(2) r show ?thesis by blast
qed

text \<open>
  Two nodes that are in the role of leader at the same time, in the same term, are the same node.
\<close>

lemma single_leader_per_term:
  assumes "deployment V hos cfgs" and "cluster_reachable V (cluster_init hos nows cfgs) c"
    and "n \<in> V" "m \<in> V" and "role (nodes c n) = Leader" "role (nodes c m) = Leader"
    and "engine_current_term (nodes c n) = engine_current_term (nodes c m)"
  shows "n = m"
proof -
  have inv: "election_inv V c" using assms(1,2) by (rule election_inv_reachable)
  have "(x, BecomeLeader (engine_current_term (nodes c x))) \<in> history c"
    if "x \<in> V" "role (nodes c x) = Leader" for x
    using inv that unfolding election_inv_def elections_ok_def by blast
  from this [of n] this [of m] assms(3-7) show ?thesis
    by (intro elected_unique [OF inv]) auto
qed

lemma single_leader_per_term_witness:
  "\<exists>c. cluster_reachable {1, 2, 3} demo_init c \<and> role (nodes c 1) = Leader \<and>
     (\<forall>m \<in> {1, 2, 3}. role (nodes c m) = Leader \<and> engine_current_term (nodes c m) = 1 \<longrightarrow> m = 1)"
proof -
  obtain c where c: "cluster_run {1, 2, 3} demo_init demo_election = Some c"
      "role (nodes c 1) = Leader" "engine_current_term (nodes c 1) = 1"
    using demo_election_run by blast
  then have r: "cluster_reachable {1, 2, 3} demo_init c"
    by (blast intro: cluster_run_reachable cluster_reachable.start)
  have "m = 1" if "m \<in> {1, 2, 3}" "role (nodes c m) = Leader" "engine_current_term (nodes c m) = 1" for m
    using single_leader_per_term [OF demo_deployment r [unfolded demo_init_def] that(1) _ that(2) c(2)]
      that(3) c(3) by simp
  with c(2) r show ?thesis by blast
qed

subsection \<open>A cluster of one voter\<close>

lemma tick_not_leader:
  "role e \<noteq> Leader \<Longrightarrow> role (fst (tick e now)) \<noteq> Leader \<and> Send p m \<notin> set (out_actions (snd (tick e now)))"
  by (cases "role e") (auto simp: tick_def Let_def case_prod_unfold)

definition solo :: "NodeId \<Rightarrow> ('p, 'a) Cluster \<Rightarrow> bool" where
  "solo n c \<longleftrightarrow> role (nodes c n) \<noteq> Leader \<and> (\<forall>p m. (n, Send p m) \<notin> history c)"

lemma solo_apply:
  assumes "election_inv {n} c" "solo n c" "admissible c n i"
  shows "solo n (cluster_apply c n i)"
proof -
  have "set (engine_other_voters (nodes c n)) = {}"
    using assms(1) by (simp add: election_inv_def static_ok_def engine_other_voters_def)
  then have quiet: "\<not> in_flight c src n msg" for src msg
    using assms(1,2) unfolding election_inv_def requests_ok_def solo_def in_flight_def by fastforce
  show ?thesis
  proof (cases i)
    case (InTick now)
    then show ?thesis using assms(2) tick_not_leader [of "nodes c n"]
      by (simp add: solo_def cluster_apply_sel Let_def case_prod_unfold)
  next
    case (InRpc src msg now)
    with assms(3) quiet show ?thesis by simp
  qed (use assms(2) in \<open>auto simp: solo_def cluster_apply_sel handle_rpc_failure_def propose_def\<close>)
qed

text \<open>
  C32: A deployment with a single voter never gets a leader, and so never accepts a proposal: the engine
  counts votes only when a \<open>RequestVoteResp\<close> arrives, and nobody is there to send one, although its own
  vote already is a quorum.
\<close>

theorem single_voter_never_leads:
  assumes "deployment {n} hos cfgs" and "cluster_reachable {n} (cluster_init hos nows cfgs) c"
  shows "role (nodes c n) \<noteq> Leader \<and> snd (propose (nodes c n) data) = Inl NotLeader \<and>
    quorum (membership (nodes c n)) = 1"
proof -
  have "election_inv {n} c \<and> solo n c"
    using assms(2)
  proof (rule cluster_inv_reachable)
    show "election_inv {n} (cluster_init hos nows cfgs) \<and> solo n (cluster_init hos nows cfgs)"
      using election_inv_init [OF assms(1)] by (simp add: solo_def cluster_init_def engine_new_def)
  next
    fix c m i assume "election_inv {n} c \<and> solo n c" "m \<in> {n}" "admissible c m i"
    then show "election_inv {n} (cluster_apply c m i) \<and> solo n (cluster_apply c m i)"
      using election_inv_apply [of "{n}" c m i] solo_apply [of n c i] by blast
  qed
  moreover from this have "length (voters (membership (nodes c n))) = 1"
    using distinct_card [of "voters (membership (nodes c n))"]
    by (auto simp: election_inv_def static_ok_def)
  ultimately show ?thesis by (simp add: solo_def propose_def quorum_def)
qed

text \<open>One voter whose timer fires twice.\<close>

definition solo_init :: "(unit, unit) Cluster" where
  "solo_init = cluster_init (\<lambda>_. sorted_list_of_set) (\<lambda>_. 0) (\<lambda>n. demo_config n\<lparr>cfg_voters := [1]\<rparr>)"

theorem single_voter_never_leads_witness:
  "\<exists>c. cluster_run {1} solo_init [(1, InTick 20), (1, InTick 40)] = Some c \<and>
     role (nodes c 1) = Candidate \<and> snd (propose (nodes c 1) [7]) = Inl NotLeader"
proof -
  have d: "deployment {1} (\<lambda>_. sorted_list_of_set) (\<lambda>n. demo_config n\<lparr>cfg_voters := [1]\<rparr>)"
    by (auto simp: deployment_def demo_config_def hash_order_sorted)
  have "case cluster_run {1} solo_init [(1, InTick 20), (1, InTick 40)] of None \<Rightarrow> False
     | Some c \<Rightarrow> role (nodes c 1) = Candidate"
    by code_simp
  then obtain c where c: "cluster_run {1} solo_init [(1, InTick 20), (1, InTick 40)] = Some c"
      "role (nodes c 1) = Candidate"
    by (auto split: option.splits)
  have "cluster_reachable {1} (cluster_init (\<lambda>_. sorted_list_of_set) (\<lambda>_. 0) (\<lambda>n. demo_config n\<lparr>cfg_voters := [1]\<rparr>)) c"
    using cluster_run_reachable [OF cluster_reachable.start c(1)] by (simp add: solo_init_def)
  from single_voter_never_leads [OF d this] c show ?thesis by blast
qed

end
