(* ===== verification/EngineLog.thy ===== *)
theory EngineLog
  imports EngineVote
begin

text \<open>
  The follower's log and the commit index. \<open>merge_log\<close> is the abstract specification of what an
  accepted AppendEntries does to the log (keep the part that agrees, replace from the first
  conflict or missing entry on); the storage-level loop of the code refines it. \<open>advance_commit_and_apply\<close>
  is described by slices of the log. The theorems about the AppendEntries handler rest on both.
\<close>

subsection \<open>Specification: merging received entries into a log\<close>

text \<open>The number of received entries that agree in term with the stored ones, from the start.\<close>

fun match_len :: "LogEntry list \<Rightarrow> LogEntry list \<Rightarrow> nat" where
  "match_len (x # xs) (y # ys) = (if le_term x = le_term y then Suc (match_len xs ys) else 0)"
| "match_len xs ys = 0"

definition merge_log :: "LogEntry list \<Rightarrow> nat \<Rightarrow> LogEntry list \<Rightarrow> LogEntry list" where
  "merge_log log prev new =
     (let k = match_len (drop prev log) new in
      if k = length new then log else take (prev + k) log @ drop k new)"

lemma match_len_le: "match_len xs ys \<le> length xs" "match_len xs ys \<le> length ys"
  by (induction xs ys rule: match_len.induct) auto

lemma match_len_nth: "i < match_len xs ys \<Longrightarrow> le_term (xs ! i) = le_term (ys ! i)"
proof (induction xs ys arbitrary: i rule: match_len.induct)
  case (1 x xs y ys)
  then show ?case by (cases i) (auto split: if_splits)
qed auto

lemma match_len_stop:
  "match_len xs ys < length xs \<Longrightarrow> match_len xs ys < length ys \<Longrightarrow>
    le_term (xs ! match_len xs ys) \<noteq> le_term (ys ! match_len xs ys)"
  by (induction xs ys rule: match_len.induct) (auto split: if_splits)

lemma match_len_all:
  "(\<And>i. i < length ys \<Longrightarrow> i < length xs \<and> le_term (xs ! i) = le_term (ys ! i)) \<Longrightarrow> match_len xs ys = length ys"
proof (rule ccontr)
  assume h: "\<And>i. i < length ys \<Longrightarrow> i < length xs \<and> le_term (xs ! i) = le_term (ys ! i)"
    and "match_len xs ys \<noteq> length ys"
  then have "match_len xs ys < length ys" using match_len_le(2) [of xs ys] by linarith
  with h show False using match_len_stop [of xs ys] by blast
qed

text \<open>A received list that agrees up to the end of a longer stored one only appends.\<close>

lemma match_len_drop_bound: "prev \<le> length log \<Longrightarrow> prev + match_len (drop prev log) new \<le> length log"
  using match_len_le(1) [of "drop prev log" new] by simp

lemma length_merge_log:
  "prev \<le> length log \<Longrightarrow> prev + length new \<le> length (merge_log log prev new)"
  using match_len_drop_bound [of prev log new] match_len_le(2) [of "drop prev log" new]
    match_len_le(1) [of "drop prev log" new]
  by (auto simp: merge_log_def Let_def)

lemma merge_log_prefix:
  "prev \<le> length log \<Longrightarrow> take prev (merge_log log prev new) = take prev log"
  using match_len_drop_bound [of prev log new] by (simp add: merge_log_def Let_def min_def)

lemma merge_log_term:
  assumes "prev \<le> length log" "i < length new"
  shows "le_term (merge_log log prev new ! (prev + i)) = le_term (new ! i)"
proof -
  let ?k = "match_len (drop prev log) new"
  have k: "prev + ?k \<le> length log" by (rule match_len_drop_bound [OF assms(1)])
  have agree: "le_term (log ! (prev + i)) = le_term (new ! i)" if "i < ?k"
    using match_len_nth [OF that] that k by simp
  show ?thesis
  proof (cases "i < ?k")
    case True
    then show ?thesis using agree k by (auto simp: merge_log_def Let_def nth_append)
  next
    case False
    then have "?k \<noteq> length new" using assms(2) by linarith
    then show ?thesis using False k assms(2) by (simp add: merge_log_def Let_def nth_append)
  qed
qed

lemma numbered_merge_log:
  assumes "numbered 0 log" "prev \<le> length log" "numbered prev new"
  shows "numbered 0 (merge_log log prev new)"
  using assms match_len_drop_bound [of prev log new] match_len_le(2) [of "drop prev log" new]
  by (auto simp: merge_log_def Let_def numbered_take min_absorb2 numbered_drop)

lemma merge_log_Nil [simp]: "merge_log log prev [] = log"
  by (simp add: merge_log_def)

text \<open>Merging the same entries again changes nothing.\<close>

lemma merge_log_idem:
  assumes "prev \<le> length log"
  shows "merge_log (merge_log log prev new) prev new = merge_log log prev new"
proof -
  let ?m = "merge_log log prev new"
  have "match_len (drop prev ?m) new = length new"
  proof (rule match_len_all)
    fix i assume "i < length new"
    then show "i < length (drop prev ?m) \<and> le_term (drop prev ?m ! i) = le_term (new ! i)"
      using length_merge_log [OF assms, of new] merge_log_term [OF assms, of i new] by simp
  qed
  then show ?thesis by (simp add: merge_log_def [of ?m])
qed

text \<open>Without a conflict nothing stored is lost.\<close>

definition conflict_free :: "LogEntry list \<Rightarrow> nat \<Rightarrow> LogEntry list \<Rightarrow> nat \<Rightarrow> bool" where
  "conflict_free log prev new n \<longleftrightarrow>
     (\<forall>i < length new. prev + i < length log \<longrightarrow> prev + i < n \<longrightarrow>
        le_term (log ! (prev + i)) = le_term (new ! i))"

lemma merge_log_keeps:
  assumes "prev \<le> length log" "n \<le> length log" "conflict_free log prev new n"
  shows "take n (merge_log log prev new) = take n log"
proof -
  let ?k = "match_len (drop prev log) new"
  have k: "prev + ?k \<le> length log" by (rule match_len_drop_bound [OF assms(1)])
  have "n \<le> prev + ?k" if "?k \<noteq> length new"
  proof (rule ccontr)
    assume n: "\<not> n \<le> prev + ?k"
    have lt: "?k < length new" using that match_len_le(2) [of "drop prev log" new] by linarith
    from n assms(2) have "?k < length (drop prev log)" by simp
    then have "le_term (drop prev log ! ?k) \<noteq> le_term (new ! ?k)"
      using lt by (rule match_len_stop)
    moreover have "le_term (log ! (prev + ?k)) = le_term (new ! ?k)"
      using assms(3) lt n assms(2) by (simp add: conflict_free_def)
    ultimately show False using assms(1) by simp
  qed
  then show ?thesis using k by (auto simp: merge_log_def Let_def min_def)
qed

subsection \<open>The code's loop implements the specification\<close>

lemma unat_slot:
  "unat prev + 1 + i < 2 ^ 64 \<Longrightarrow> unat ((prev :: u64) + 1 + of_nat i) = unat prev + 1 + i"
proof -
  assume b: "unat prev + 1 + i < 2 ^ 64"
  then have "unat (prev + 1) = unat prev + 1" by (simp add: unat_Suc_u64_bound)
  moreover have "unat (of_nat i :: u64) = i" using b by (simp add: unat_of_nat_u64)
  ultimately show ?thesis using b by (simp add: unat_add_u64)
qed

lemma reconcile_spec:
  assumes "storage_wf s" "numbered (unat prev + i) es" "unat prev + i \<le> length (ms_entries s)"
  shows "reconcile s prev i es i =
    (let k = match_len (drop (unat prev + i) (ms_entries s)) es in
     (if k < length es \<and> unat prev + i + k < length (ms_entries s)
      then truncate_from s (prev + 1 + of_nat (i + k)) else s, i + k))"
  using assms(2,3)
proof (induction es arbitrary: i)
  case (Cons x xs)
  have b: "unat prev + 1 + i < 2 ^ 64"
    using numbered_length [OF Cons.prems(1)] by simp
  let ?idx = "prev + 1 + of_nat i :: u64"
  have idx: "unat ?idx = unat prev + 1 + i" by (rule unat_slot [OF b])
  then have "?idx \<noteq> 0" by (metis Suc_eq_plus1 add_Suc_right nat.simps(3) add.commute unat_0)
  then have entry: "entry s ?idx = (if unat prev + i < length (ms_entries s)
      then Some (ms_entries s ! (unat prev + i)) else None)"
    by (simp add: ms.entry_log [OF assms(1)] idx)
  show ?case
  proof (cases "unat prev + i < length (ms_entries s)")
    case True
    then have d: "drop (unat prev + i) (ms_entries s) =
        ms_entries s ! (unat prev + i) # drop (unat prev + (i + 1)) (ms_entries s)"
      by (simp add: Cons_nth_drop_Suc)
    show ?thesis
    proof (cases "le_term (ms_entries s ! (unat prev + i)) = le_term x")
      case eq: True
      have "reconcile s prev (i + 1) xs (i + 1) =
        (let k = match_len (drop (unat prev + (i + 1)) (ms_entries s)) xs in
         (if k < length xs \<and> unat prev + (i + 1) + k < length (ms_entries s)
          then truncate_from s (prev + 1 + of_nat (i + 1 + k)) else s, i + 1 + k))"
        using Cons.prems True by (intro Cons.IH) auto
      then show ?thesis using True eq entry by (simp add: d Let_def)
    next
      case False
      then show ?thesis using True entry by (simp add: d Let_def)
    qed
  next
    case False
    then show ?thesis using entry by (simp add: Let_def)
  qed
qed simp

lemma store_entries_spec:
  assumes "storage_wf s" "numbered (unat prev) es" "unat prev \<le> length (ms_entries s)"
  shows "ms_entries (store_entries s prev es) = merge_log (ms_entries s) (unat prev) es"
    and "storage_wf (store_entries s prev es)"
proof -
  let ?k = "match_len (drop (unat prev) (ms_entries s)) es"
  let ?s = "if ?k < length es \<and> unat prev + ?k < length (ms_entries s)
      then truncate_from s (prev + 1 + of_nat ?k) else s"
  have r: "reconcile s prev 0 es 0 = (?s, ?k)"
    using reconcile_spec [of s prev 0 es] assms by (simp add: Let_def)
  have kb: "unat prev + ?k \<le> length (ms_entries s)" by (rule match_len_drop_bound [OF assms(3)])
  have wf: "storage_wf ?s \<and> (?k < length es \<longrightarrow> ms_entries ?s = take (unat prev + ?k) (ms_entries s)) \<and>
      (\<not> ?k < length es \<longrightarrow> ?s = s)"
  proof (cases "?k < length es \<and> unat prev + ?k < length (ms_entries s)")
    case True
    let ?idx = "prev + 1 + of_nat ?k :: u64"
    have "unat prev + 1 + ?k < 2 ^ 64"
      using numbered_length [OF assms(2)] True by fastforce
    from unat_slot [OF this] have idx: "unat ?idx = unat prev + 1 + ?k" .
    then have "?idx \<noteq> 0" by (metis Suc_eq_plus1 add_Suc_right nat.simps(3) add.commute unat_0)
    with True idx show ?thesis
      using ms.truncate_log [OF assms(1), of ?idx] ms.truncate_invar [OF assms(1), of ?idx] by simp
  next
    case False
    then show ?thesis using assms(1) kb by auto
  qed
  show "ms_entries (store_entries s prev es) = merge_log (ms_entries s) (unat prev) es"
    and "storage_wf (store_entries s prev es)"
  proof -
    have num: "numbered (unat prev + ?k) (drop ?k es)"
      using assms(2) match_len_le(2) by (intro numbered_drop) auto
    have kle: "?k \<le> length es" by (rule match_len_le(2))
    have l: "unat prev + ?k \<le> length (ms_entries ?s)" if "?k < length es"
      using wf that kb by auto
    show "ms_entries (store_entries s prev es) = merge_log (ms_entries s) (unat prev) es"
    proof (cases "?k < length es")
      case True
      then have "ms_entries (fst (persist ?s None (drop ?k es))) =
          take (unat prev + ?k) (ms_entries ?s) @ drop ?k es"
        using wf l num by (intro ms.persist_log) auto
      with True wf show ?thesis by (simp add: store_entries_def r merge_log_def Let_def)
    next
      case False
      with kle wf show ?thesis by (auto simp: store_entries_def r merge_log_def Let_def)
    qed
    show "storage_wf (store_entries s prev es)"
    proof (cases "?k < length es")
      case True
      then have "storage_wf (fst (persist ?s None (drop ?k es)))"
        using wf l num by (intro ms.persist_invar [where n = "unat prev + ?k"]) auto
      with True show ?thesis by (simp add: store_entries_def r)
    next
      case False
      with wf show ?thesis by (simp add: store_entries_def r)
    qed
  qed
qed

subsection \<open>The prev-log check\<close>

lemma prev_log_ok_iff:
  "storage_wf s \<Longrightarrow> prev_log_ok s p pt \<longleftrightarrow>
    (if p = 0 then pt = 0
     else unat p \<le> length (ms_entries s) \<and> le_term (ms_entries s ! (unat p - 1)) = pt)"
  by (simp add: prev_log_ok_def ms.entry_log)

lemma prev_log_ok_length: "storage_wf s \<Longrightarrow> prev_log_ok s p pt \<Longrightarrow> unat p \<le> length (ms_entries s)"
  by (auto simp: prev_log_ok_iff split: if_splits)

subsection \<open>Commit and apply, by slices of the log\<close>

text \<open>The entries at the positions after \<open>a\<close>, up to and including \<open>b\<close>.\<close>

definition log_slice :: "LogEntry list \<Rightarrow> nat \<Rightarrow> nat \<Rightarrow> LogEntry list" where
  "log_slice log a b = drop a (take b log)"

lemma log_slice_empty [simp]: "b \<le> a \<Longrightarrow> log_slice log a b = []"
  by (simp add: log_slice_def)

lemma log_slice_max: "log_slice log a (max a b) = log_slice log a b"
  by (cases "b \<le> a") (simp_all add: log_slice_def max_def)

lemma length_log_slice [simp]: "length (log_slice log a b) = min b (length log) - a"
  by (simp add: log_slice_def min.commute)

lemma numbered_log_slice: "numbered 0 log \<Longrightarrow> a \<le> length log \<Longrightarrow> a \<le> b \<Longrightarrow> numbered a (log_slice log a b)"
  using numbered_drop [of 0 "take b log" a] by (simp add: log_slice_def numbered_take)

lemma concat_map_present:
  "concat (map (\<lambda>n. if n \<le> l then [g n] else []) [i ..< j]) = map g [i ..< min j (Suc l)]"
  by (induction j) (auto simp: min_def le_Suc_eq)

lemma applied_slice:
  assumes "storage_wf s" "a < b"
  shows "concat (map (\<lambda>i. case entry s i of Some x \<Rightarrow> [x] | None \<Rightarrow> []) (u64_range (a + 1) b)) =
    log_slice (ms_entries s) (unat a) (unat b)"
proof -
  let ?log = "ms_entries s"
  have a1: "unat (a + 1) = Suc (unat a)" using assms(2) by (rule unat_Suc_u64)
  have pt: "(case entry s (of_nat n) of Some x \<Rightarrow> [x] | None \<Rightarrow> []) =
      (if n \<le> length ?log then [?log ! (n - 1)] else [])"
    if "n \<in> set [Suc (unat a) ..< Suc (unat b)]" for n
  proof -
    from that have n: "1 \<le> n" "n \<le> unat b" by auto
    then have "n < 2 ^ 64" using unat_lt_u64 [of b] by linarith
    then have un: "unat (of_nat n :: u64) = n" by (rule unat_of_nat_u64)
    then have "(of_nat n :: u64) \<noteq> 0" using n(1) by (metis not_one_le_zero unat_0)
    then show ?thesis by (simp add: ms.entry_log [OF assms(1)] un)
  qed
  have "concat (map (\<lambda>i. case entry s i of Some x \<Rightarrow> [x] | None \<Rightarrow> []) (u64_range (a + 1) b)) =
      concat (map (\<lambda>n. if n \<le> length ?log then [?log ! (n - 1)] else []) [Suc (unat a) ..< Suc (unat b)])"
    unfolding u64_range_def a1 map_map using pt by (intro arg_cong [where f = concat] map_cong) auto
  also have "\<dots> = map (\<lambda>n. ?log ! (n - 1)) [Suc (unat a) ..< Suc (min (unat b) (length ?log))]"
    by (simp only: concat_map_present) (simp add: min_def)
  also have "\<dots> = map (\<lambda>n. ?log ! n) [unat a ..< min (unat b) (length ?log)]"
    by (simp only: map_Suc_upt [symmetric] map_map) (simp add: o_def)
  also have "\<dots> = log_slice ?log (unat a) (unat b)"
    by (cases "unat b \<le> length ?log") (simp_all add: log_slice_def min_def map_nth_upt_slice)
  finally show ?thesis .
qed

lemma advance_commit_spec:
  assumes "storage_wf (storage e)" "last_applied e = commit_index e"
  shows "commit_index (fst (advance_commit_and_apply e lc ln as)) = max (commit_index e) (min lc ln)"
    and "last_applied (fst (advance_commit_and_apply e lc ln as)) = max (commit_index e) (min lc ln)"
    and "snd (advance_commit_and_apply e lc ln as) =
      (let es = log_slice (ms_entries (storage e)) (unat (commit_index e)) (unat (min lc ln)) in
       if es = [] then as else as @ [Apply es])"
proof -
  have "commit_index (fst (advance_commit_and_apply e lc ln as)) = max (commit_index e) (min lc ln) \<and>
      last_applied (fst (advance_commit_and_apply e lc ln as)) = max (commit_index e) (min lc ln) \<and>
      snd (advance_commit_and_apply e lc ln as) =
      (let es = log_slice (ms_entries (storage e)) (unat (commit_index e)) (unat (min lc ln)) in
       if es = [] then as else as @ [Apply es])"
  proof (cases "commit_index e < min lc ln")
    case True
    then have m: "max (commit_index e) (min lc ln) = min lc ln"
      by (intro max_absorb2 less_imp_le)
    have "concat (map (\<lambda>i. case entry (storage e) i of Some x \<Rightarrow> [x] | None \<Rightarrow> [])
        (u64_range (commit_index e + 1) (min lc ln))) =
        log_slice (ms_entries (storage e)) (unat (commit_index e)) (unat (min lc ln))"
      using assms(1) True by (rule applied_slice)
    moreover have "\<not> min lc ln \<le> commit_index e" using True by (simp only: not_le)
    ultimately show ?thesis using True assms(2)
      by (simp add: advance_commit_and_apply_def Let_def m del: min_less_iff_conj min_le_iff_disj)
  next
    case False
    then have m: "max (commit_index e) (min lc ln) = commit_index e"
      by (intro max_absorb1) (simp only: not_less)
    have "unat (min lc ln) \<le> unat (commit_index e)" using False
      by (simp only: not_less word_le_nat_alt)
    then show ?thesis using False assms(2)
      by (simp add: advance_commit_and_apply_def Let_def m del: min_less_iff_conj)
  qed
  then show "commit_index (fst (advance_commit_and_apply e lc ln as)) = max (commit_index e) (min lc ln)"
    and "last_applied (fst (advance_commit_and_apply e lc ln as)) = max (commit_index e) (min lc ln)"
    and "snd (advance_commit_and_apply e lc ln as) =
      (let es = log_slice (ms_entries (storage e)) (unat (commit_index e)) (unat (min lc ln)) in
       if es = [] then as else as @ [Apply es])"
    by blast+
qed

subsection \<open>The AppendEntries handler, branch by branch\<close>

text \<open>A message of an older term: answered with the current term, no other effect.\<close>

lemma append_entries_stale:
  "t < engine_current_term e \<Longrightarrow>
    handle_append_entries e src t l p pt es lc now =
      (e, [Send src (AppendEntriesResp (engine_current_term e) False (fst (last_index_term (storage e))))])"
  by (simp add: handle_append_entries_def Let_def case_prod_unfold)

text \<open>
  The state after the term and role have been settled and the deadline reset, and the action that
  announces a step down.
\<close>

definition ae_follow :: "('p, 'a) RaftEngine \<Rightarrow> Term \<Rightarrow> NodeId \<Rightarrow> Instant \<Rightarrow> ('p, 'a) RaftEngine" where
  "ae_follow e t l now = reset_election_deadline
     (if engine_current_term e < t \<or> role e \<noteq> Follower then fst (become_follower e t (Some l) [])
      else e\<lparr>leader := Some l\<rparr>) now"

definition ae_notice :: "('p, 'a) RaftEngine \<Rightarrow> Term \<Rightarrow> NodeId \<Rightarrow> Action list" where
  "ae_notice e t l =
     (if engine_current_term e < t \<or> role e \<noteq> Follower then [BecomeFollower t (Some l)] else [])"

lemma ae_follow_simps [simp]:
  "role (ae_follow e t l now) = Follower"
  "leader (ae_follow e t l now) = Some l"
  "commit_index (ae_follow e t l now) = commit_index e"
  "last_applied (ae_follow e t l now) = last_applied e"
  "ms_entries (storage (ae_follow e t l now)) = ms_entries (storage e)"
  "storage_wf (storage (ae_follow e t l now)) = storage_wf (storage e)"
  "prev_log_ok (storage (ae_follow e t l now)) = prev_log_ok (storage e)"
  "last_index_term (storage (ae_follow e t l now)) = last_index_term (storage e)"
  "config (ae_follow e t l now) = config e"
  "election_deadline (ae_follow e t l now) =
     now + cfg_election_timeout (config e) + cfg_election_jitter (config e)"
  by (auto simp: ae_follow_def) (auto simp: reset_election_deadline_def)

lemma ae_follow_hard [simp]:
  "engine_current_term e \<le> t \<Longrightarrow> engine_hard (ae_follow e t l now) =
     (if engine_current_term e < t then \<lparr>current_term = t, voted_for = None\<rparr> else engine_hard e)"
  by (auto simp: ae_follow_def)

lemma ae_follow_term [simp]:
  "engine_current_term e \<le> t \<Longrightarrow> engine_current_term (ae_follow e t l now) = t"
  by (auto simp: ae_follow_hard engine_current_term_def)

lemma append_entries_current:
  assumes "engine_current_term e \<le> t"
  shows "handle_append_entries e src t l p pt es lc now =
    (let e1 = ae_follow e t l now; notice = ae_notice e t l in
     if \<not> prev_log_ok (storage e) p pt then
       (e1, notice @ [Send src (AppendEntriesResp t False (fst (last_index_term (storage e))))])
     else
       let e2 = e1\<lparr>storage := store_entries (storage e1) p es\<rparr>;
           last_new = p + of_nat (length es);
           (e3, actions) = advance_commit_and_apply e2 lc last_new notice
       in (e3, actions @ [Send src (AppendEntriesResp t True last_new)]))"
proof -
  have nlt: "\<not> t < engine_current_term e" using assms by simp
  have pre: "(if t > engine_current_term e then become_follower e t (Some l) []
               else if role e \<noteq> Follower then become_follower e t (Some l) []
               else (e\<lparr>leader := Some l\<rparr>, [])) =
    ((if engine_current_term e < t \<or> role e \<noteq> Follower then fst (become_follower e t (Some l) [])
      else e\<lparr>leader := Some l\<rparr>), ae_notice e t l)"
    by (auto simp: ae_notice_def prod_eq_iff)
  have trm: "engine_current_term (fst (advance_commit_and_apply
      (ae_follow e t l now\<lparr>storage := store_entries s p es\<rparr>) lc ln as)) = t"
    if "hard_state s = engine_hard (ae_follow e t l now)" for s ln as
    using that ae_follow_term [OF assms, of l now] by (simp add: engine_current_term_def)
  show ?thesis
    unfolding handle_append_entries_def Let_def pre
    using nlt trm [OF refl] ae_follow_term [OF assms, of l now]
    by (simp add: case_prod_unfold ae_follow_def [symmetric])
qed

text \<open>The accepting branch, as one fact about the state and the actions.\<close>

lemma append_entries_accept:
  fixes e :: "('p, 'a) RaftEngine" and lc :: Index and src :: NodeId and now :: Instant and l :: NodeId
  assumes "storage_wf (storage e)" "last_applied e = commit_index e" "engine_current_term e \<le> t"
    and "prev_log_ok (storage e) p pt" "numbered (unat p) es"
  defines "log' \<equiv> merge_log (ms_entries (storage e)) (unat p) es"
    and "commit' \<equiv> max (commit_index e) (min lc (p + of_nat (length es)))"
    and "r \<equiv> handle_append_entries e src t l p pt es lc now"
  shows "ms_entries (storage (fst r)) = log'" "storage_wf (storage (fst r))"
    "engine_hard (fst r) = (if engine_current_term e < t then \<lparr>current_term = t, voted_for = None\<rparr> else engine_hard e)"
    "role (fst r) = Follower" "leader (fst r) = Some l"
    "election_deadline (fst r) = now + cfg_election_timeout (config e) + cfg_election_jitter (config e)"
    "commit_index (fst r) = commit'" "last_applied (fst r) = commit'"
    "snd r = ae_notice e t l @
      (let new = log_slice log' (unat (commit_index e)) (unat commit') in if new = [] then [] else [Apply new]) @
      [Send src (AppendEntriesResp t True (p + of_nat (length es)))]"
proof -
  let ?last = "p + of_nat (length es) :: u64"
  let ?e2 = "(ae_follow e t l now)\<lparr>storage := store_entries (storage (ae_follow e t l now)) p es\<rparr>"
  have len: "unat p \<le> length (ms_entries (storage e))" by (rule prev_log_ok_length [OF assms(1,4)])
  have st: "ms_entries (storage ?e2) = log'" "storage_wf (storage ?e2)"
    using store_entries_spec [of "storage (ae_follow e t l now)" p es] assms(1,5) len
    by (simp_all add: log'_def)
  have r: "r = (let (e3, as) = advance_commit_and_apply ?e2 lc ?last (ae_notice e t l)
      in (e3, as @ [Send src (AppendEntriesResp t True ?last)]))"
    unfolding r_def append_entries_current [OF assms(3)] using assms(4) by (simp add: Let_def)
  have la: "last_applied ?e2 = commit_index ?e2" using assms(2) by simp
  note adv = advance_commit_spec [OF st(2) la, of lc ?last "ae_notice e t l"]
  have slice: "log_slice log' (unat (commit_index e)) (unat commit') =
      log_slice log' (unat (commit_index e)) (unat (min lc ?last))"
    by (simp only: commit'_def unat_max_u64 log_slice_max)
  show "commit_index (fst r) = commit'" "last_applied (fst r) = commit'"
    using adv(1,2) by (simp_all add: r case_prod_unfold Let_def commit'_def)
  show "snd r = ae_notice e t l @
      (let new = log_slice log' (unat (commit_index e)) (unat commit') in if new = [] then [] else [Apply new]) @
      [Send src (AppendEntriesResp t True ?last)]"
    using adv(3) st(1) by (simp add: r case_prod_unfold Let_def slice)
  show "ms_entries (storage (fst r)) = log'" "storage_wf (storage (fst r))"
    using st by (simp_all add: r case_prod_unfold Let_def)
  show "engine_hard (fst r) = (if engine_current_term e < t then \<lparr>current_term = t, voted_for = None\<rparr> else engine_hard e)"
    using assms(3) by (simp add: r case_prod_unfold Let_def)
  show "role (fst r) = Follower" "leader (fst r) = Some l"
    "election_deadline (fst r) = now + cfg_election_timeout (config e) + cfg_election_jitter (config e)"
    by (simp_all add: r case_prod_unfold Let_def)
qed

lemma append_entries_reject:
  assumes "engine_current_term e \<le> t" "\<not> prev_log_ok (storage e) p pt"
  shows "handle_append_entries e src t l p pt es lc now =
    (ae_follow e t l now,
     ae_notice e t l @ [Send src (AppendEntriesResp t False (fst (last_index_term (storage e))))])"
  unfolding append_entries_current [OF assms(1)] using assms(2) by (simp add: Let_def)

text \<open>After an accepted message the same previous entry still matches.\<close>

lemma prev_log_ok_merged:
  assumes "storage_wf s" "prev_log_ok s p pt" "storage_wf s'"
    and "ms_entries s' = merge_log (ms_entries s) (unat p) es"
  shows "prev_log_ok s' p pt"
proof -
  have len: "unat p \<le> length (ms_entries s)" by (rule prev_log_ok_length [OF assms(1,2)])
  then have "take (unat p) (ms_entries s') = take (unat p) (ms_entries s)" "unat p \<le> length (ms_entries s')"
    using merge_log_prefix [OF len, of es] length_merge_log [OF len, of es] by (simp_all add: assms(4))
  then have "ms_entries s' ! (unat p - 1) = ms_entries s ! (unat p - 1)" if "p \<noteq> 0"
    using unat_pos_u64 [OF that] nth_take [of "unat p - 1" "unat p"] by (metis diff_less zero_less_one)
  with assms(2) \<open>unat p \<le> length (ms_entries s')\<close> show ?thesis
    by (auto simp: prev_log_ok_iff [OF assms(1)] prev_log_ok_iff [OF assms(3)])
qed

text \<open>Where the received entries agree with the committed ones, the committed prefix is not touched.\<close>

lemma append_entries_keeps_committed:
  assumes "storage_wf (storage e)" "last_applied e = commit_index e" "engine_current_term e \<le> t"
    and "prev_log_ok (storage e) p pt" "numbered (unat p) es"
    and "unat (commit_index e) \<le> length (ms_entries (storage e))"
    and "conflict_free (ms_entries (storage e)) (unat p) es (unat (commit_index e))"
  shows "take (unat (commit_index e)) (ms_entries (storage (fst (handle_append_entries e src t l p pt es lc now)))) =
    take (unat (commit_index e)) (ms_entries (storage e))"
  unfolding append_entries_accept(1) [OF assms(1-5)]
  by (rule merge_log_keeps [OF prev_log_ok_length [OF assms(1,4)] assms(6,7)])

subsection \<open>Properties of the follower\<close>

text \<open>
  C12: The loop of the AppendEntries handler over \<open>MemoryStorage\<close> (compare entry by entry, truncate
  at the first conflict, persist the rest) implements the merge of the specification: the stored log
  becomes \<open>merge_log\<close> of the old log and the received entries, and it stays numbered \<open>1, 2, \<dots>\<close>. The
  received entries must be numbered from the slot after \<open>prev_log_index\<close>, as every leader sends them.
\<close>

theorem store_entries_refines_merge:
  assumes "storage_wf s" "numbered (unat prev) es" "unat prev \<le> length (ms_entries s)"
  shows "ms_entries (store_entries s prev es) = merge_log (ms_entries s) (unat prev) es \<and>
    storage_wf (store_entries s prev es) \<and> hard_state (store_entries s prev es) = hard_state s"
  using store_entries_spec [OF assms] by simp

definition demo_entry :: "Index \<Rightarrow> Term \<Rightarrow> LogEntry" where
  "demo_entry i t = \<lparr>le_index = i, le_term = t, entry_type = Command [1]\<rparr>"

definition demo_storage :: MemoryStorage where
  "demo_storage = \<lparr>ms_hard_state = \<lparr>current_term = 2, voted_for = None\<rparr>,
     ms_entries = [demo_entry 1 1, demo_entry 2 1, demo_entry 3 1], ms_snapshot = None\<rparr>"

lemma demo_storage_wf: "storage_wf demo_storage"
  by (simp add: storage_wf_def demo_storage_def demo_entry_def)

theorem store_entries_refines_merge_witness:
  "ms_entries (store_entries demo_storage 1 [demo_entry 2 1, demo_entry 3 2]) =
     merge_log (ms_entries demo_storage) 1 [demo_entry 2 1, demo_entry 3 2] \<and>
   merge_log (ms_entries demo_storage) 1 [demo_entry 2 1, demo_entry 3 2] =
     [demo_entry 1 1, demo_entry 2 1, demo_entry 3 2]"
proof -
  have "numbered (unat (1 :: u64)) [demo_entry 2 1, demo_entry 3 2]"
    by (simp add: demo_entry_def)
  moreover have "unat (1 :: u64) \<le> length (ms_entries demo_storage)"
    by (simp add: demo_storage_def)
  ultimately show ?thesis
    using store_entries_refines_merge [OF demo_storage_wf, of 1 "[demo_entry 2 1, demo_entry 3 2]"]
    by (simp add: demo_storage_def merge_log_def demo_entry_def)
qed

text \<open>What a log merged with a received batch satisfies, stated on the specification.\<close>

lemma merge_log_contains:
  assumes "prev \<le> length log" "i < length new"
  shows "prev + i < length (merge_log log prev new) \<and>
    le_term (merge_log log prev new ! (prev + i)) = le_term (new ! i)"
  using assms length_merge_log [of prev log new] merge_log_term [of prev log i new] by simp

text \<open>
  C20: Accepting an AppendEntries: from a current or newer term and with a matching previous entry, the
  follower's log becomes the merge of its log with the received entries, the term is adopted, the
  election deadline restarts, the commit index becomes the minimum of the leader's and the last new
  index unless it is already higher, exactly the newly committed entries are handed to the
  application, once and in order, and the answer is a success for \<open>prev_log_index + entries.len()\<close>.
\<close>

theorem follower_accepts:
  assumes "storage_wf (storage e)" "last_applied e = commit_index e" "engine_current_term e \<le> t"
    and "prev_log_ok (storage e) p pt" "numbered (unat p) es"
  shows "let (e', as) = handle_append_entries e src t l p pt es lc now;
      log' = merge_log (ms_entries (storage e)) (unat p) es;
      commit' = max (commit_index e) (min lc (p + of_nat (length es)));
      new = log_slice log' (unat (commit_index e)) (unat commit')
    in ms_entries (storage e') = log' \<and> storage_wf (storage e') \<and> engine_current_term e' = t \<and>
      role e' = Follower \<and> leader e' = Some l \<and>
      election_deadline e' = now + cfg_election_timeout (config e) + cfg_election_jitter (config e) \<and>
      commit_index e' = commit' \<and> last_applied e' = commit' \<and>
      as = (if engine_current_term e < t \<or> role e \<noteq> Follower then [BecomeFollower t (Some l)] else []) @
        (if new = [] then [] else [Apply new]) @
        [Send src (AppendEntriesResp t True (p + of_nat (length es)))]"
proof -
  note acc = append_entries_accept [OF assms, of src l lc now]
  have "engine_current_term (fst (handle_append_entries e src t l p pt es lc now)) = t"
    using acc(3) assms(3) by (simp add: engine_current_term_def)
  then show ?thesis using acc by (simp add: Let_def case_prod_unfold ae_notice_def)
qed

definition demo_follower :: "(unit, unit) RaftEngine" where
  "demo_follower = (engine_new sorted_list_of_set 0 (demo_config 2) demo_storage)
     \<lparr>commit_index := 1, last_applied := 1\<rparr>"

theorem follower_accepts_witness:
  "let (e', as) = handle_append_entries demo_follower 1 2 1 2 1 [demo_entry 3 2] 3 10
   in ms_entries (storage e') = [demo_entry 1 1, demo_entry 2 1, demo_entry 3 2] \<and>
     as = [Apply [demo_entry 2 1, demo_entry 3 2], Send 1 (AppendEntriesResp 2 True 3)]"
proof -
  have "storage_wf (storage demo_follower)" "last_applied demo_follower = commit_index demo_follower"
    by (simp_all add: demo_follower_def engine_new_def demo_storage_wf)
  moreover have "engine_current_term demo_follower \<le> 2" "prev_log_ok (storage demo_follower) 2 1"
    "numbered (unat (2 :: u64)) [demo_entry 3 2]"
    by code_simp+
  ultimately have "let (e', as) = handle_append_entries demo_follower 1 2 1 2 1 [demo_entry 3 2] 3 10;
      log' = merge_log (ms_entries (storage demo_follower)) (unat (2 :: u64)) [demo_entry 3 2];
      commit' = max (commit_index demo_follower) (min 3 (2 + of_nat (length [demo_entry 3 2])));
      new = log_slice log' (unat (commit_index demo_follower)) (unat commit')
    in ms_entries (storage e') = log' \<and>
      as = (if engine_current_term demo_follower < 2 \<or> role demo_follower \<noteq> Follower
          then [BecomeFollower 2 (Some 1)] else []) @
        (if new = [] then [] else [Apply new]) @
        [Send 1 (AppendEntriesResp 2 True (2 + of_nat (length [demo_entry 3 2])))]"
    using follower_accepts [of demo_follower 2 2 1 "[demo_entry 3 2]" 1 1 3 10]
    by (simp add: Let_def case_prod_unfold)
  moreover have "engine_current_term demo_follower = 2" "role demo_follower = Follower"
    "commit_index demo_follower = 1"
    "merge_log (ms_entries (storage demo_follower)) (unat (2 :: u64)) [demo_entry 3 2] =
       [demo_entry 1 1, demo_entry 2 1, demo_entry 3 2]"
    by code_simp+
  ultimately show ?thesis by (simp add: Let_def case_prod_unfold log_slice_def)
qed

text \<open>
  C21: Rejecting an AppendEntries. One of an older term changes nothing at all and is answered with the current
  term. One of the current or a newer term whose previous entry is missing or of another term writes nothing to
  the log and commits and applies nothing, but the sender is still recognised as the leader of its term: the
  term is adopted (forgetting the vote of an older one), the engine follows it and the election deadline restarts.
\<close>

theorem follower_rejects:
  assumes "t < engine_current_term e \<or> \<not> prev_log_ok (storage e) p pt"
  shows "let (e', as) = handle_append_entries e src t l p pt es lc now; k = fst (last_index_term (storage e))
    in if t < engine_current_term e then e' = e \<and> as = [Send src (AppendEntriesResp (engine_current_term e) False k)]
      else ms_entries (storage e') = ms_entries (storage e) \<and> commit_index e' = commit_index e \<and>
        last_applied e' = last_applied e \<and> engine_current_term e' = t \<and>
        voted_for (engine_hard e') = (if engine_current_term e < t then None else voted_for (engine_hard e)) \<and>
        role e' = Follower \<and> leader e' = Some l \<and>
        election_deadline e' = now + cfg_election_timeout (config e) + cfg_election_jitter (config e) \<and>
        as = (if engine_current_term e < t \<or> role e \<noteq> Follower then [BecomeFollower t (Some l)] else []) @
          [Send src (AppendEntriesResp t False k)]"
proof (cases "t < engine_current_term e")
  case True
  then show ?thesis by (simp add: append_entries_stale)
next
  case False
  with assms have "engine_current_term e \<le> t" "\<not> prev_log_ok (storage e) p pt" by auto
  from append_entries_reject [OF this] this(1) show ?thesis using False by (simp add: ae_notice_def)
qed

theorem follower_rejects_witness:
  "snd (handle_append_entries demo_follower 1 2 1 3 2 [demo_entry 4 2] 3 10) =
     [Send 1 (AppendEntriesResp 2 False 3)]"
proof -
  have "engine_current_term demo_follower \<le> 2" "\<not> prev_log_ok (storage demo_follower) 3 2"
    by code_simp+
  moreover have "engine_current_term demo_follower = 2" "role demo_follower = Follower"
    "fst (last_index_term (storage demo_follower)) = 3"
    by code_simp+
  ultimately show ?thesis
    using follower_rejects [of 2 demo_follower 3 2 1 1 "[demo_entry 4 2]" 3 10]
    by (simp add: case_prod_unfold Let_def)
qed

text \<open>
  Redelivery: handling an accepted AppendEntries a second time leaves the log, the commit index,
  the applied index, the hard state and the role as they are, hands nothing to the application again
  and answers with the same success.
\<close>

lemma redelivery_idempotent:
  assumes "storage_wf (storage e)" "last_applied e = commit_index e" "engine_current_term e \<le> t"
    and "prev_log_ok (storage e) p pt" "numbered (unat p) es"
  shows "let (e1, _) = handle_append_entries e src t l p pt es lc now;
      (e2, as) = handle_append_entries e1 src t l p pt es lc now'
    in ms_entries (storage e2) = ms_entries (storage e1) \<and> engine_hard e2 = engine_hard e1 \<and>
      commit_index e2 = commit_index e1 \<and> last_applied e2 = last_applied e1 \<and>
      role e2 = role e1 \<and> leader e2 = leader e1 \<and>
      as = [Send src (AppendEntriesResp t True (p + of_nat (length es)))]"
proof -
  let ?e1 = "fst (handle_append_entries e src t l p pt es lc now)"
  note a = append_entries_accept [OF assms, of src l lc now]
  have t1: "engine_current_term ?e1 = t" using a(3) assms(3) by (simp add: engine_current_term_def)
  have ok: "prev_log_ok (storage ?e1) p pt"
    using prev_log_ok_merged [OF assms(1,4) a(2,1)] .
  have la: "last_applied ?e1 = commit_index ?e1" using a(7,8) by simp
  have le: "engine_current_term ?e1 \<le> t" using t1 by simp
  note b = append_entries_accept [OF a(2) la le ok assms(5), of src l lc now']
  have m: "merge_log (ms_entries (storage ?e1)) (unat p) es = ms_entries (storage ?e1)"
    unfolding a(1) by (rule merge_log_idem [OF prev_log_ok_length [OF assms(1,4)]])
  have c: "max (commit_index ?e1) (min lc (p + of_nat (length es))) = commit_index ?e1"
    unfolding a(7) by (simp only: max.assoc max.idem)
  have n: "ae_notice ?e1 t l = []" using t1 a(4) by (simp add: ae_notice_def)
  have h: "engine_hard (fst (handle_append_entries ?e1 src t l p pt es lc now')) = engine_hard ?e1"
    using b(3) t1 by simp
  show ?thesis
    using b(1,2,4-9) a(4,5,7,8) la h unfolding m c n by (simp add: Let_def case_prod_unfold)
qed

lemma redelivery_idempotent_witness:
  "let e1 = fst (handle_append_entries demo_follower 1 2 1 2 1 [demo_entry 3 2] 3 10)
   in handle_append_entries e1 1 2 1 2 1 [demo_entry 3 2] 3 12 =
     (fst (handle_append_entries e1 1 2 1 2 1 [demo_entry 3 2] 3 12), [Send 1 (AppendEntriesResp 2 True 3)])"
proof -
  have "storage_wf (storage demo_follower)" "last_applied demo_follower = commit_index demo_follower"
    by (simp_all add: demo_follower_def engine_new_def demo_storage_wf)
  moreover have "engine_current_term demo_follower \<le> 2" "prev_log_ok (storage demo_follower) 2 1"
    "numbered (unat (2 :: u64)) [demo_entry 3 2]"
    by code_simp+
  ultimately show ?thesis
    using redelivery_idempotent [of demo_follower 2 2 1 "[demo_entry 3 2]" 1 1 3 10 12]
    by (simp add: Let_def case_prod_unfold prod_eq_iff)
qed

end
