(* ===== verification/EngineLeader.thy ===== *)
theory EngineLeader
  imports EngineLog
begin

text \<open>
  The leader: what it knows of its peers (\<open>next_index\<close>, \<open>match_index\<close>, \<open>last_ae\<close>, \<open>ae_inflight\<close>), the
  AppendEntries it sends, how answers move the indices, and when it commits. \<open>progress_ok\<close> is the
  invariant of the four maps; under it every operation of the leader has a closed description.
\<close>

subsection \<open>The invariant of the progress maps\<close>

definition progress_ok ::
  "NodeId set \<Rightarrow> nat \<Rightarrow> (NodeId \<rightharpoonup> Index) \<Rightarrow> (NodeId \<rightharpoonup> Index) \<Rightarrow> (NodeId \<rightharpoonup> Index \<times> nat) \<Rightarrow> NodeId set \<Rightarrow> bool" where
  "progress_ok P L nx mt la fl \<longleftrightarrow> dom nx = P \<and> dom mt = P \<and> dom la \<subseteq> P \<and> fl \<subseteq> dom la \<and>
     (\<forall>p n m. nx p = Some n \<longrightarrow> mt p = Some m \<longrightarrow> unat m < unat n \<and> unat n \<le> Suc L) \<and>
     (\<forall>p i k m. la p = Some (i, k) \<longrightarrow> mt p = Some m \<longrightarrow> unat m \<le> unat i + k \<and> unat i + k \<le> L)"

abbreviation engine_progress :: "('p, 'a) RaftEngine \<Rightarrow> bool" where
  "engine_progress e \<equiv> progress_ok (set (engine_other_voters e)) (length (ms_entries (storage e)))
     (next_index e) (match_index e) (last_ae e) (ae_inflight e)"

text \<open>The log leaves room for one more entry, so that index arithmetic does not wrap.\<close>

abbreviation log_fits :: "('p, 'a) RaftEngine \<Rightarrow> bool" where
  "log_fits e \<equiv> Suc (length (ms_entries (storage e))) < 2 ^ 64"

lemma progress_ok_init:
  "progress_ok P L (\<lambda>p. if p \<in> P then Some n else None) (\<lambda>p. if p \<in> P then Some 0 else None)
    Map.empty {} \<longleftrightarrow> P = {} \<or> 0 < unat n \<and> unat n \<le> Suc L"
  by (auto simp: progress_ok_def dom_def)

lemma progress_ok_mono: "progress_ok P L nx mt la fl \<Longrightarrow> L \<le> L' \<Longrightarrow> progress_ok P L' nx mt la fl"
  unfolding progress_ok_def by (meson le_trans Suc_le_mono)

lemma progress_ok_inflight: "progress_ok P L nx mt la fl \<Longrightarrow> progress_ok P L nx mt la (fl - {p})"
  unfolding progress_ok_def by blast

lemma progress_ok_next:
  "progress_ok P L nx mt la fl \<Longrightarrow> p \<in> P \<Longrightarrow>
    \<exists>n m. nx p = Some n \<and> mt p = Some m \<and> unat m < unat n \<and> unat n \<le> Suc L"
  unfolding progress_ok_def by blast

lemma progress_ok_last:
  "progress_ok P L nx mt la fl \<Longrightarrow> la p = Some (i, k) \<Longrightarrow>
    p \<in> P \<and> (\<exists>n m. nx p = Some n \<and> mt p = Some m \<and> unat m \<le> unat i + k \<and> unat i + k \<le> L)"
  unfolding progress_ok_def by blast

lemma progress_ok_sent:
  assumes "progress_ok P L nx mt la fl" "nx p = Some n" "unat i = unat n - 1" "k = L - unat i"
  shows "progress_ok P L nx mt (la(p \<mapsto> (i, k))) (insert p fl)"
proof -
  from assms(1,2) have p: "p \<in> P" unfolding progress_ok_def by blast
  with assms(1,2) obtain m where m: "mt p = Some m" "unat m < unat n" "unat n \<le> Suc L"
    using progress_ok_next by fastforce
  with assms(3,4) have "unat m \<le> unat i + k" "unat i + k \<le> L" by auto
  with assms(1) m(1) p show ?thesis unfolding progress_ok_def by auto
qed

lemma progress_ok_matched:
  assumes "progress_ok P L nx mt la fl" "la p = Some (i, k)" "unat j = unat i + k" "unat n = Suc (unat j)"
  shows "progress_ok P L (nx(p \<mapsto> n)) (mt(p \<mapsto> j)) la fl"
  using assms progress_ok_last [OF assms(1,2)] unfolding progress_ok_def by auto

lemma progress_ok_backed:
  assumes "progress_ok P L nx mt la fl" "p \<in> P" "mt p = Some m" "unat m < unat n" "unat n \<le> Suc L"
  shows "progress_ok P L (nx(p \<mapsto> n)) mt la fl"
  using assms unfolding progress_ok_def by auto

subsection \<open>The AppendEntries of a leader\<close>

lemma collect_entries_spec:
  assumes "storage_wf s" "Suc (length (ms_entries s)) < 2 ^ 64" "i \<noteq> 0" "unat i \<le> Suc (length (ms_entries s))"
  shows "collect_entries s i (fst (last_index_term s)) = Some (drop (unat i - 1) (ms_entries s))"
  using assms(3,4)
proof (induction "Suc (length (ms_entries s)) - unat i" arbitrary: i)
  case 0
  then have "unat (fst (last_index_term s)) < unat i" by (simp add: ms.last_index [OF assms(1)])
  then have "\<not> i \<le> fst (last_index_term s)" by (simp add: word_le_nat_alt)
  with 0 show ?case by (simp add: collect_entries.simps)
next
  case (Suc k)
  then have l: "unat i \<le> length (ms_entries s)" by linarith
  have pos: "0 < unat i" using Suc.prems(1) by (rule unat_pos_u64)
  have e: "entry s i = Some (ms_entries s ! (unat i - 1))"
    using l Suc.prems(1) by (simp add: ms.entry_log [OF assms(1)])
  have le: "i \<le> fst (last_index_term s)" using l by (simp add: word_le_nat_alt ms.last_index [OF assms(1)])
  have n: "unat (i + 1) = Suc (unat i)" using l assms(2) by (intro unat_Suc_u64_bound) linarith
  then have "i + 1 \<noteq> 0" by (metis nat.distinct(1) unat_0)
  then have "collect_entries s (i + 1) (fst (last_index_term s)) = Some (drop (unat i) (ms_entries s))"
    using Suc.hyps(1) [of "i + 1"] Suc.hyps(2) l by (simp add: n)
  moreover have "drop (unat i - 1) (ms_entries s) = ms_entries s ! (unat i - 1) # drop (unat i) (ms_entries s)"
    using l pos Cons_nth_drop_Suc [of "unat i - 1" "ms_entries s"] by simp
  ultimately show ?case using e le by (simp add: collect_entries.simps [of s i])
qed

text \<open>The term of the entry at \<open>i\<close> of a log, \<open>0\<close> before the first.\<close>

definition log_term :: "LogEntry list \<Rightarrow> nat \<Rightarrow> Term" where
  "log_term log i = (if i = 0 then 0 else le_term (log ! (i - 1)))"

definition ae_prev :: "('p, 'a) RaftEngine \<Rightarrow> NodeId \<Rightarrow> Index" where
  "ae_prev e p = sat_sub (the (next_index e p)) 1"

text \<open>The message a leader sends to \<open>p\<close>: everything from \<open>next_index\<close> to the end of the log.\<close>

definition ae_msg :: "('p, 'a) RaftEngine \<Rightarrow> NodeId \<Rightarrow> RaftMessage" where
  "ae_msg e p = AppendEntries (engine_current_term e) (cfg_node_id (config e)) (ae_prev e p)
     (log_term (ms_entries (storage e)) (unat (ae_prev e p)))
     (drop (unat (ae_prev e p)) (ms_entries (storage e))) (commit_index e)"

lemma build_append_entries_spec:
  assumes "storage_wf (storage e)" "log_fits e" "engine_progress e" "p \<in> set (engine_other_voters e)"
  shows "build_append_entries e p =
      Some (ae_msg e p, ae_prev e p, length (ms_entries (storage e)) - unat (ae_prev e p))"
    and "unat (ae_prev e p) = unat (the (next_index e p)) - 1"
    and "unat (ae_prev e p) \<le> length (ms_entries (storage e))"
proof -
  obtain n m where n: "next_index e p = Some n" "match_index e p = Some m" "unat m < unat n"
      "unat n \<le> Suc (length (ms_entries (storage e)))"
    using progress_ok_next [OF assms(3,4)] by blast
  then have nz: "n \<noteq> 0" by auto
  have prev: "unat (sat_sub n 1) = unat n - 1" by (simp add: unat_sat_sub)
  have z: "sat_sub n 1 = 0 \<longleftrightarrow> unat n = 1"
    using prev n(3) by (metis One_nat_def Suc_pred diff_is_0_eq' le_refl less_nat_zero_code neq0_conv unat_0 unat_eq_zero)
  have "(if sat_sub n 1 = 0 then Some 0 else map_option le_term (entry (storage e) (sat_sub n 1))) =
      Some (log_term (ms_entries (storage e)) (unat n - 1))"
    using n by (auto simp: z log_term_def ms.entry_log [OF assms(1)] prev)
  moreover have "collect_entries (storage e) n (fst (last_index_term (storage e))) =
      Some (drop (unat n - 1) (ms_entries (storage e)))"
    by (rule collect_entries_spec [OF assms(1,2) nz n(4)])
  ultimately show "build_append_entries e p =
      Some (ae_msg e p, ae_prev e p, length (ms_entries (storage e)) - unat (ae_prev e p))"
    by (simp add: build_append_entries_def n(1) Let_def case_prod_unfold ae_msg_def ae_prev_def prev)
  show "unat (ae_prev e p) = unat (the (next_index e p)) - 1"
    "unat (ae_prev e p) \<le> length (ms_entries (storage e))"
    using n(4) by (simp_all add: ae_prev_def n(1) prev)
qed

subsection \<open>Sending and replicating\<close>

text \<open>The engine after the message to \<open>p\<close> has been handed out.\<close>

definition mark_sent :: "('p, 'a) RaftEngine \<Rightarrow> NodeId \<Rightarrow> ('p, 'a) RaftEngine" where
  "mark_sent e p = e\<lparr>last_ae := (last_ae e)(p \<mapsto>
       (ae_prev e p, length (ms_entries (storage e)) - unat (ae_prev e p))),
     ae_inflight := insert p (ae_inflight e)\<rparr>"

lemma send_append_entries_to_spec:
  assumes "storage_wf (storage e)" "log_fits e" "engine_progress e" "p \<in> set (engine_other_voters e)"
  shows "send_append_entries_to e p =
    (if p \<in> ae_inflight e then (e, None) else (mark_sent e p, Some (Send p (ae_msg e p))))"
  using build_append_entries_spec(1) [OF assms] by (simp add: send_append_entries_to_def mark_sent_def)

lemma mark_sent_sel [simp]:
  "storage (mark_sent e p) = storage e" "engine_other_voters (mark_sent e p) = engine_other_voters e"
  "next_index (mark_sent e p) = next_index e" "match_index (mark_sent e p) = match_index e"
  "ae_inflight (mark_sent e p) = insert p (ae_inflight e)"
  "last_ae (mark_sent e p) = (last_ae e)(p \<mapsto>
     (ae_prev e p, length (ms_entries (storage e)) - unat (ae_prev e p)))"
  "ae_msg (mark_sent e p) = ae_msg e" "ae_prev (mark_sent e p) = ae_prev e"
  by (simp_all add: mark_sent_def engine_other_voters_def ae_msg_def ae_prev_def engine_current_term_def fun_eq_iff)

lemma progress_mark_sent:
  assumes "storage_wf (storage e)" "log_fits e" "engine_progress e" "p \<in> set (engine_other_voters e)"
  shows "engine_progress (mark_sent e p)"
proof -
  obtain n where n: "next_index e p = Some n" using progress_ok_next [OF assms(3,4)] by blast
  show ?thesis
    using progress_ok_sent [OF assms(3) n, of "ae_prev e p"] build_append_entries_spec(2) [OF assms]
    by (simp add: n)
qed

lemma other_voters_frame [simp]:
  "engine_other_voters (fst (send_append_entries_to e p)) = engine_other_voters e"
  "engine_other_voters (fst (replicate_to e ps)) = engine_other_voters e"
  "engine_other_voters (fst (replicate_actions e)) = engine_other_voters e"
  "engine_other_voters (fst (maybe_commit e as)) = engine_other_voters e"
  "engine_other_voters (fst (become_leader e t now as)) = engine_other_voters e"
  "engine_other_voters (fst (engine_apply e i)) = engine_other_voters e"
  by (simp_all add: engine_other_voters_def)

lemma progress_send:
  assumes "storage_wf (storage e)" "log_fits e" "engine_progress e" "p \<in> set (engine_other_voters e)"
  shows "engine_progress (fst (send_append_entries_to e p))"
  using assms(3) progress_mark_sent [OF assms] by (simp add: send_append_entries_to_spec [OF assms])

text \<open>
  A replication round sends to every peer that has no request in flight, in the order of the voters,
  and marks each of them.
\<close>

lemma replicate_to_spec:
  assumes "storage_wf (storage e)" "log_fits e" "engine_progress e" "set ps \<subseteq> set (engine_other_voters e)"
    and "distinct ps"
  shows "snd (replicate_to e ps) =
      map (\<lambda>p. Send p (ae_msg e p)) (filter (\<lambda>p. p \<notin> ae_inflight e) ps)"
    and "ae_inflight (fst (replicate_to e ps)) = ae_inflight e \<union> set ps"
    and "engine_progress (fst (replicate_to e ps))"
proof -
  have "snd (replicate_to e ps) = map (\<lambda>p. Send p (ae_msg e p)) (filter (\<lambda>p. p \<notin> ae_inflight e) ps) \<and>
      ae_inflight (fst (replicate_to e ps)) = ae_inflight e \<union> set ps \<and>
      engine_progress (fst (replicate_to e ps))"
    using assms
  proof (induction ps arbitrary: e)
    case (Cons q ps)
    have q: "q \<in> set (engine_other_voters e)" and sub: "set ps \<subseteq> set (engine_other_voters e)"
      and nin: "q \<notin> set ps" and d: "distinct ps"
      using Cons.prems(4,5) by auto
    note spec = send_append_entries_to_spec [OF Cons.prems(1-3) q]
    show ?case
    proof (cases "q \<in> ae_inflight e")
      case True
      with Cons.IH [OF Cons.prems(1-3) sub d] show ?thesis by (auto simp: spec Let_def case_prod_unfold)
    next
      case False
      have "snd (replicate_to (mark_sent e q) ps) =
            map (\<lambda>p. Send p (ae_msg e p)) (filter (\<lambda>p. p \<notin> insert q (ae_inflight e)) ps) \<and>
          ae_inflight (fst (replicate_to (mark_sent e q) ps)) = insert q (ae_inflight e) \<union> set ps \<and>
          engine_progress (fst (replicate_to (mark_sent e q) ps))"
        using Cons.IH [OF _ _ progress_mark_sent [OF Cons.prems(1-3) q] _ d] Cons.prems(1,2) sub
        unfolding mark_sent_sel by blast
      moreover have "filter (\<lambda>p. p \<notin> insert q (ae_inflight e)) ps = filter (\<lambda>p. p \<notin> ae_inflight e) ps"
        using nin by (intro filter_cong) auto
      ultimately show ?thesis using False by (auto simp: spec Let_def case_prod_unfold)
    qed
  qed simp
  then show "snd (replicate_to e ps) =
      map (\<lambda>p. Send p (ae_msg e p)) (filter (\<lambda>p. p \<notin> ae_inflight e) ps)"
    and "ae_inflight (fst (replicate_to e ps)) = ae_inflight e \<union> set ps"
    and "engine_progress (fst (replicate_to e ps))"
    by blast+
qed

lemma replicate_actions_spec:
  assumes "storage_wf (storage e)" "log_fits e" "engine_progress e" "membership_wf (membership e)"
  shows "snd (replicate_actions e) =
      map (\<lambda>p. Send p (ae_msg e p)) (filter (\<lambda>p. p \<notin> ae_inflight e) (engine_other_voters e))"
    and "ae_inflight (fst (replicate_actions e)) = ae_inflight e \<union> set (engine_other_voters e)"
    and "engine_progress (fst (replicate_actions e))"
proof -
  have "distinct (engine_other_voters e)"
    unfolding engine_other_voters_def by (rule distinct_other_voters [OF assms(4)])
  from replicate_to_spec [OF assms(1-3) subset_refl this] show "snd (replicate_actions e) =
      map (\<lambda>p. Send p (ae_msg e p)) (filter (\<lambda>p. p \<notin> ae_inflight e) (engine_other_voters e))"
    and "ae_inflight (fst (replicate_actions e)) = ae_inflight e \<union> set (engine_other_voters e)"
    and "engine_progress (fst (replicate_actions e))"
    by (simp_all add: replicate_actions_def)
qed

subsection \<open>Committing\<close>

text \<open>What the leader may commit: an entry of its own term that a quorum of voters holds.\<close>

definition commitable :: "('p, 'a) RaftEngine \<Rightarrow> Index \<Rightarrow> bool" where
  "commitable e n \<longleftrightarrow> (case entry (storage e) n of
     Some x \<Rightarrow> le_term x = engine_current_term e \<and> quorum (membership e) \<le> replica_count e n
   | None \<Rightarrow> False)"

lemma commit_scan_find:
  "commit_scan e (engine_current_term e) (quorum (membership e)) ns = List.find (commitable e) ns"
  by (induction ns) (auto simp: commitable_def split: option.splits)

lemma sorted_u64_range: "sorted_wrt (\<lambda>x y. y < x) (rev (u64_range lo hi))"
proof -
  have "sorted_wrt (<) (map unat (u64_range lo hi))" by (simp add: map_unat_u64_range del: upt_Suc)
  then show ?thesis by (simp add: sorted_wrt_map sorted_wrt_rev word_less_nat_alt)
qed

lemma find_descending:
  "sorted_wrt (\<lambda>x y. y < x) xs \<Longrightarrow> List.find P xs = Some (n :: 'a :: linorder) \<Longrightarrow>
    P n \<and> n \<in> set xs \<and> (\<forall>m \<in> set xs. n < m \<longrightarrow> \<not> P m)"
  by (induction xs) (auto split: if_splits)

definition commit_target :: "('p, 'a) RaftEngine \<Rightarrow> Index" where
  "commit_target e =
     (let S = {n. commit_index e < n \<and> commitable e n} in if S = {} then commit_index e else Max S)"

lemma commit_target_cases:
  obtains "commit_target e = commit_index e" "\<And>n. commit_index e < n \<Longrightarrow> \<not> commitable e n"
  | "commit_index e < commit_target e" "commitable e (commit_target e)"
    "\<And>n. commit_target e < n \<Longrightarrow> \<not> commitable e n"
proof (cases "{n. commit_index e < n \<and> commitable e n} = {}")
  case True
  then show ?thesis by (intro that(1)) (auto simp: commit_target_def)
next
  case False
  let ?S = "{n. commit_index e < n \<and> commitable e n}"
  have M: "commit_target e = Max ?S"
    unfolding commit_target_def Let_def using False by (rule if_not_P)
  have "Max ?S \<in> ?S" using False by (intro Max_in) auto
  moreover have "n \<le> Max ?S" if "n \<in> ?S" for n using that by (intro Max_ge) auto
  ultimately show ?thesis using that(2) unfolding M by (metis (mono_tags, lifting) mem_Collect_eq less_trans not_less)
qed

lemma commitable_present: "storage_wf (storage e) \<Longrightarrow> commitable e n \<Longrightarrow> unat n \<le> length (ms_entries (storage e))"
  by (auto simp: commitable_def ms.entry_log split: option.splits if_splits)

lemma commit_target_bounds:
  assumes "storage_wf (storage e)" "unat (commit_index e) \<le> length (ms_entries (storage e))"
  shows "commit_index e \<le> commit_target e" "unat (commit_target e) \<le> length (ms_entries (storage e))"
  using commit_target_cases [of e] assms commitable_present by (metis order_refl less_imp_le)+

lemma maybe_commit_scan:
  assumes "storage_wf (storage e)" "log_fits e" "unat (commit_index e) \<le> length (ms_entries (storage e))"
  shows "maybe_commit e as =
    (if commit_index e < commit_target e
     then advance_commit_and_apply e (commit_target e) (commit_target e) as else (e, as))"
proof -
  let ?last = "fst (last_index_term (storage e))"
  let ?ns = "rev (u64_range (commit_index e + 1) ?last)"
  have last: "unat ?last = length (ms_entries (storage e))" by (rule ms.last_index [OF assms(1)])
  have Suc: "unat (commit_index e + 1) = Suc (unat (commit_index e))"
    using assms(2,3) by (intro unat_Suc_u64_bound) linarith
  then have start: "sat_add (commit_index e) 1 = commit_index e + 1"
    by (simp add: sat_add_def word_less_nat_alt)
  have mem: "n \<in> set ?ns \<longleftrightarrow> commit_index e < n \<and> unat n \<le> length (ms_entries (storage e))" for n
    by (auto simp: word_le_nat_alt word_less_nat_alt Suc last)
  show ?thesis
  proof (cases rule: commit_target_cases [of e])
    case 1
    then have "List.find (commitable e) ?ns = None" using mem by (auto simp: find_None_iff)
    then show ?thesis
      using 1(1) by (simp add: maybe_commit_def Let_def case_prod_unfold start commit_scan_find)
  next
    case 2
    have "commit_target e \<in> set ?ns"
      using 2(1) commitable_present [OF assms(1) 2(2)] by (simp only: mem)
    then obtain n where n: "List.find (commitable e) ?ns = Some n"
      using 2(2) by (cases "List.find (commitable e) ?ns") (auto simp: find_None_iff)
    from find_descending [OF sorted_u64_range n] have "n = commit_target e"
      using 2 \<open>commit_target e \<in> set ?ns\<close> by (metis linorder_neqE)
    moreover have "\<not> ?last < commit_index e + 1"
      using \<open>commit_target e \<in> set ?ns\<close> by (auto simp: word_less_nat_alt word_le_nat_alt)
    ultimately show ?thesis
      using n 2(1) by (simp add: maybe_commit_def Let_def case_prod_unfold start commit_scan_find)
  qed
qed

lemma maybe_commit_spec:
  assumes "storage_wf (storage e)" "log_fits e" "unat (commit_index e) \<le> length (ms_entries (storage e))"
    and "last_applied e = commit_index e"
  shows "commit_index (fst (maybe_commit e as)) = commit_target e"
    and "last_applied (fst (maybe_commit e as)) = commit_target e"
    and "snd (maybe_commit e as) = (let new = log_slice (ms_entries (storage e)) (unat (commit_index e))
        (unat (commit_target e)) in if new = [] then as else as @ [Apply new])"
  using advance_commit_spec [OF assms(1,4), of "commit_target e" "commit_target e" as]
    commit_target_bounds(1) [OF assms(1,3)]
  by (auto simp: maybe_commit_scan [OF assms(1-3)] max_def assms(4))

end
