(* ===== verification/EngineInv.thy ===== *)
theory EngineInv
  imports EngineLeader
begin

text \<open>
  The invariant of the engine and what every call keeps: the log is numbered, the commit index is
  within the log and equal to the applied index, a leader knows itself as leader and its progress
  maps are consistent; and the entries handed to the application over time are the committed prefix of
  the log, each entry once and in order.
\<close>

subsection \<open>The invariant\<close>

definition engine_inv :: "('p, 'a) RaftEngine \<Rightarrow> bool" where
  "engine_inv e \<longleftrightarrow> storage_wf (storage e) \<and> log_fits e \<and> membership_wf (membership e) \<and>
     last_applied e = commit_index e \<and> unat (commit_index e) \<le> length (ms_entries (storage e)) \<and>
     (role e = Leader \<longrightarrow> leader e = Some (cfg_node_id (config e)) \<and> engine_progress e)"

text \<open>
  What the invariant asks of the inputs. A proposal needs room in the index range. The entries of an
  AppendEntries that passes the previous-entry check must be numbered from the slot after
  \<open>prev_log_index\<close> (every leader sends them so), fit the index range, and not contradict a committed
  entry; the last is what the \<open>debug_assert!(idx > self.commit_index)\<close> of the handler checks.
\<close>

text \<open>(\<open>fits_u64\<close> computes on \<open>int\<close> so that concrete runs evaluate.)\<close>

definition fits_u64 :: "nat \<Rightarrow> bool" where
  "fits_u64 n \<longleftrightarrow> int n < 2 ^ 64"

lemma fits_u64_iff [simp]: "fits_u64 n \<longleftrightarrow> n < 2 ^ 64"
  by (simp add: fits_u64_def)

fun input_ok :: "('p, 'a) RaftEngine \<Rightarrow> EngineInput \<Rightarrow> bool" where
  "input_ok e (InPropose data) =
     (role e = Leader \<longrightarrow> fits_u64 (Suc (Suc (length (ms_entries (storage e))))))"
| "input_ok e (InRpc src (AppendEntries t l p pt es lc) now) =
     (engine_current_term e \<le> t \<and> prev_log_ok (storage e) p pt \<longrightarrow>
        numbered (unat p) es \<and> fits_u64 (Suc (unat p + length es)) \<and>
        conflict_free (ms_entries (storage e)) (unat p) es (unat (commit_index e)))"
| "input_ok e _ = True"

fun inputs_ok :: "('p, 'a) RaftEngine \<Rightarrow> EngineInput list \<Rightarrow> bool" where
  "inputs_ok e [] = True"
| "inputs_ok e (i # is) = (input_ok e i \<and> inputs_ok (fst (engine_apply e i)) is)"

text \<open>The entries a list of actions hands to the application.\<close>

definition applied :: "Action list \<Rightarrow> LogEntry list" where
  "applied as = concat (map (\<lambda>a. case a of Apply es \<Rightarrow> es | _ \<Rightarrow> []) as)"

lemma applied_simps [simp]:
  "applied [] = []" "applied (as @ bs) = applied as @ applied bs"
  "applied (Send p m # as) = applied as" "applied (Broadcast m # as) = applied as"
  "applied (Apply es # as) = es @ applied as" "applied (BecomeLeader t # as) = applied as"
  "applied (BecomeFollower t l # as) = applied as" "applied (BecomeCandidate t # as) = applied as"
  by (simp_all add: applied_def)

lemma applied_no_apply: "(\<And>a. a \<in> set as \<Longrightarrow> is_append_entries a) \<Longrightarrow> applied as = []"
  by (fastforce simp: applied_def is_append_entries_def split: Action.splits)

lemma applied_if [simp]: "applied (if es = [] then as else as @ [Apply es]) = applied as @ es"
  by simp

lemma applied_push_opt: "(\<And>a. oa = Some a \<Longrightarrow> is_append_entries a) \<Longrightarrow> applied (push_opt as oa) = applied as"
  by (cases oa) (auto simp: push_opt_def applied_def is_append_entries_def split: Action.splits)

subsection \<open>One step\<close>

definition step_ok :: "('p, 'a) RaftEngine \<Rightarrow> ('p, 'a) RaftEngine \<Rightarrow> Action list \<Rightarrow> bool" where
  "step_ok e e' as \<longleftrightarrow> engine_inv e' \<and> commit_index e \<le> commit_index e' \<and>
     take (unat (commit_index e')) (ms_entries (storage e')) =
       take (unat (commit_index e)) (ms_entries (storage e)) @ applied as"

lemma step_ok_frame:
  "engine_inv e' \<Longrightarrow> commit_index e' = commit_index e \<Longrightarrow> ms_entries (storage e') = ms_entries (storage e) \<Longrightarrow>
    applied as = [] \<Longrightarrow> step_ok e e' as"
  by (simp add: step_ok_def)

lemma take_slice: "a \<le> b \<Longrightarrow> take b log = take a log @ log_slice log a b"
  by (metis append_take_drop_id log_slice_def min.absorb1 take_take)

lemma engine_inv_simps:
  assumes "engine_inv e"
  shows "storage_wf (storage e)" "log_fits e" "membership_wf (membership e)"
    "last_applied e = commit_index e" "unat (commit_index e) \<le> length (ms_entries (storage e))"
    "role e = Leader \<Longrightarrow> engine_progress e" "role e = Leader \<Longrightarrow> leader e = Some (cfg_node_id (config e))"
  using assms by (auto simp: engine_inv_def)

text \<open>A step to a state that is not leader and keeps the log and the indices.\<close>

lemma step_ok_follower:
  assumes "engine_inv e" "role e' \<noteq> Leader" "ms_entries (storage e') = ms_entries (storage e)"
    "commit_index e' = commit_index e" "last_applied e' = last_applied e" "membership e' = membership e"
    "applied as = []"
  shows "step_ok e e' as"
  using assms by (simp add: step_ok_def engine_inv_def storage_wf_def)

text \<open>A step of a leader that keeps its log and commit index: only the progress maps need rechecking.\<close>

lemma step_ok_leader:
  assumes "engine_inv e" "role e' = Leader" "storage e' = storage e" "leader e' = Some (cfg_node_id (config e'))"
    "commit_index e' = commit_index e" "last_applied e' = last_applied e" "membership e' = membership e"
    "engine_progress e'" "applied as = []"
  shows "step_ok e e' as"
  using assms by (simp add: step_ok_def engine_inv_def)

lemma start_election_step: "engine_inv e \<Longrightarrow> step_ok e (fst (start_election e now)) (snd (start_election e now))"
  by (rule step_ok_follower)
    (simp_all add: start_election_def Let_def case_prod_unfold)

lemma tick_step:
  assumes "engine_inv e"
  shows "step_ok e (fst (tick e now)) (out_actions (snd (tick e now)))"
proof -
  have same: "step_ok e e []" using assms by (simp add: step_ok_frame)
  have rep: "step_ok e (fst (replicate_actions e)\<lparr>heartbeat_deadline := d\<rparr>) (snd (replicate_actions e))"
    if "role e = Leader" for d
    using that engine_inv_simps [OF assms] replicate_actions_spec(3) [of e]
    by (intro step_ok_leader [OF assms])
      (auto simp: engine_other_voters_def intro: applied_no_apply replicate_actions_kind)
  show ?thesis
    using same rep start_election_step [OF assms, of now]
    by (cases "role e") (simp_all add: tick_def Let_def case_prod_unfold)
qed

lemma become_follower_step: "engine_inv e \<Longrightarrow> step_ok e (fst (become_follower e t l [])) [BecomeFollower t l]"
  by (rule step_ok_follower) simp_all

lemma request_vote_step:
  assumes "engine_inv e"
  shows "step_ok e (fst (handle_request_vote e s t c li lt now)) (snd (handle_request_vote e s t c li lt now))"
proof (cases "grants_vote e t c li lt \<or> engine_current_term e < t")
  case True
  with assms show ?thesis
    by (intro step_ok_follower [OF assms]) (simp_all add: handle_request_vote_spec)
next
  case False
  then have "fst (handle_request_vote e s t c li lt now) = e"
    by (auto simp: handle_request_vote_def Let_def grants_vote_def log_is_up_to_date_iff engine_current_term_def)
  with assms False show ?thesis by (simp add: step_ok_frame handle_request_vote_spec)
qed

lemma become_leader_inv:
  assumes "engine_inv e"
  shows "engine_inv (fst (become_leader e t now []))"
proof -
  let ?l = "fst (last_index_term (storage e))"
  have l: "unat ?l = length (ms_entries (storage e))" by (rule ms.last_index [OF engine_inv_simps(1) [OF assms]])
  have nx: "next_index (fst (become_leader e t now [])) =
      (\<lambda>p. if p \<in> set (engine_other_voters e) then Some (?l + 1) else None)"
    by (rule ext) simp
  have mt: "match_index (fst (become_leader e t now [])) =
      (\<lambda>p. if p \<in> set (engine_other_voters e) then Some 0 else None)"
    by (rule ext) simp
  from l have "unat (?l + 1) = Suc (length (ms_entries (storage e)))"
    using engine_inv_simps(2) [OF assms] by (simp add: unat_Suc_u64_bound)
  then have "engine_progress (fst (become_leader e t now []))"
    using progress_ok_init [of "set (engine_other_voters e)" "length (ms_entries (storage e))" "?l + 1"]
    unfolding become_leader_frame other_voters_frame
    by (simp add: nx mt)
  then show ?thesis using assms by (simp add: engine_inv_def)
qed

lemma request_vote_resp_step:
  assumes "engine_inv e"
  shows "step_ok e (fst (handle_request_vote_resp e s t g now)) (snd (handle_request_vote_resp e s t g now))"
proof -
  have vote: "engine_inv (e\<lparr>votes := insert s (votes e)\<rparr>)"
    using assms by (simp add: engine_inv_def engine_other_voters_def)
  then have lead: "engine_inv (fst (become_leader (e\<lparr>votes := insert s (votes e)\<rparr>) t now []))"
    by (rule become_leader_inv)
  show ?thesis
    using assms vote lead become_follower_step [OF assms, of t None]
    by (auto simp: handle_request_vote_resp_def Let_def intro!: step_ok_frame)
qed

lemma merge_log_fits:
  "prev \<le> length log \<Longrightarrow> length (merge_log log prev new) \<le> max (length log) (prev + length new)"
  using match_len_drop_bound [of prev log new] match_len_le(2) [of "drop prev log" new]
  by (auto simp: merge_log_def Let_def)

lemma append_entries_step:
  assumes "engine_inv e" "input_ok e (InRpc s (AppendEntries t l p pt es lc) now)"
  shows "step_ok e (fst (handle_append_entries e s t l p pt es lc now))
    (snd (handle_append_entries e s t l p pt es lc now))"
proof -
  note inv = engine_inv_simps [OF assms(1)]
  consider (stale) "t < engine_current_term e"
    | (reject) "engine_current_term e \<le> t" "\<not> prev_log_ok (storage e) p pt"
    | (accept) "engine_current_term e \<le> t" "prev_log_ok (storage e) p pt"
    by fastforce
  then show ?thesis
  proof cases
    case stale
    then show ?thesis using assms(1) by (simp add: append_entries_stale step_ok_frame)
  next
    case reject
    then show ?thesis
      by (intro step_ok_follower [OF assms(1)])
        (simp_all add: append_entries_reject ae_notice_def, simp add: ae_follow_def)
  next
    case accept
    with assms(2) have num: "numbered (unat p) es" and fit: "Suc (unat p + length es) < 2 ^ 64"
      and cf: "conflict_free (ms_entries (storage e)) (unat p) es (unat (commit_index e))"
      by auto
    let ?r = "handle_append_entries e s t l p pt es lc now"
    let ?log = "merge_log (ms_entries (storage e)) (unat p) es"
    let ?last = "p + of_nat (length es) :: u64"
    let ?commit = "max (commit_index e) (min lc ?last)"
    note acc = append_entries_accept [OF inv(1,4) accept num, of s l lc now]
    have pl: "unat p \<le> length (ms_entries (storage e))" by (rule prev_log_ok_length [OF inv(1) accept(2)])
    have keep: "take (unat (commit_index e)) ?log = take (unat (commit_index e)) (ms_entries (storage e))"
      by (rule merge_log_keeps [OF pl inv(5) cf])
    then have cl: "unat (commit_index e) \<le> length ?log"
      using inv(5) by (metis length_take min.absorb2 min.cobounded1)
    have "unat (of_nat (length es) :: u64) = length es" using fit by (intro unat_of_nat_u64) linarith
    then have "unat ?last = unat p + length es" using fit by (subst unat_add_u64) simp_all
    then have "unat (min lc ?last) \<le> length ?log"
      using length_merge_log [OF pl, of es] by (simp add: unat_min_u64)
    with cl have "unat ?commit \<le> length ?log" by (simp add: unat_max_u64)
    moreover have "Suc (length ?log) < 2 ^ 64"
      using merge_log_fits [OF pl, of es] fit inv(2) by (auto simp: max_def split: if_splits)
    moreover have "membership (fst ?r) = membership e" by simp
    ultimately have "engine_inv (fst ?r)"
      using acc(1,2,4,7,8) inv(3) by (simp add: engine_inv_def)
    moreover have "applied (snd ?r) = log_slice ?log (unat (commit_index e)) (unat ?commit)"
      unfolding acc(9) by (simp add: ae_notice_def Let_def)
    moreover have "take (unat ?commit) ?log =
        take (unat (commit_index e)) ?log @ log_slice ?log (unat (commit_index e)) (unat ?commit)"
      by (rule take_slice) (simp add: unat_max_u64)
    ultimately show ?thesis
      unfolding step_ok_def acc(1,7) keep by (simp only: max.cobounded1 simp_thms)
  qed
qed

text \<open>The success branch of a leader: the indices of the peer, the commit, the next message.\<close>

definition peer_matched :: "('p, 'a) RaftEngine \<Rightarrow> NodeId \<Rightarrow> Index \<Rightarrow> ('p, 'a) RaftEngine" where
  "peer_matched e p j = e\<lparr>ae_inflight := ae_inflight e - {p}, match_index := (match_index e)(p \<mapsto> j),
     next_index := (next_index e)(p \<mapsto> j + 1)\<rparr>"

definition peer_backed :: "('p, 'a) RaftEngine \<Rightarrow> NodeId \<Rightarrow> Index \<Rightarrow> ('p, 'a) RaftEngine" where
  "peer_backed e p n = e\<lparr>ae_inflight := ae_inflight e - {p}, next_index := (next_index e)(p \<mapsto> n)\<rparr>"

lemma peer_matched_sel [simp]:
  "storage (peer_matched e p j) = storage e" "membership (peer_matched e p j) = membership e"
  "config (peer_matched e p j) = config e" "role (peer_matched e p j) = role e"
  "leader (peer_matched e p j) = leader e" "commit_index (peer_matched e p j) = commit_index e"
  "last_applied (peer_matched e p j) = last_applied e" "last_ae (peer_matched e p j) = last_ae e"
  "ae_inflight (peer_matched e p j) = ae_inflight e - {p}"
  "match_index (peer_matched e p j) = (match_index e)(p \<mapsto> j)"
  "next_index (peer_matched e p j) = (next_index e)(p \<mapsto> j + 1)"
  "engine_other_voters (peer_matched e p j) = engine_other_voters e"
  by (simp_all add: peer_matched_def engine_other_voters_def)

lemma peer_backed_sel [simp]:
  "storage (peer_backed e p n) = storage e" "membership (peer_backed e p n) = membership e"
  "config (peer_backed e p n) = config e" "role (peer_backed e p n) = role e"
  "leader (peer_backed e p n) = leader e" "commit_index (peer_backed e p n) = commit_index e"
  "last_applied (peer_backed e p n) = last_applied e" "last_ae (peer_backed e p n) = last_ae e"
  "ae_inflight (peer_backed e p n) = ae_inflight e - {p}" "match_index (peer_backed e p n) = match_index e"
  "next_index (peer_backed e p n) = (next_index e)(p \<mapsto> n)"
  "engine_other_voters (peer_backed e p n) = engine_other_voters e"
  by (simp_all add: peer_backed_def engine_other_voters_def)

lemma resp_success:
  assumes "engine_inv e" "role e = Leader" "last_ae e p = Some (i, k)"
  defines "j \<equiv> i + of_nat k"
  shows "unat j = unat i + k" "unat j \<le> length (ms_entries (storage e))"
    "engine_progress (peer_matched e p j)"
    "handle_append_entries_resp e p (engine_current_term e) True m now =
      (let (e3, as) = maybe_commit (peer_matched e p j) [] in
       if unat j < length (ms_entries (storage e)) then
         (let (e4, oa) = send_append_entries_to e3 p in (e4, push_opt as oa))
       else (e3, as))"
proof -
  note inv = engine_inv_simps [OF assms(1)]
  have P: "engine_progress e" by (rule inv(6) [OF assms(2)])
  from progress_ok_last [OF P assms(3)] obtain n c where
    nm: "p \<in> set (engine_other_voters e)" "match_index e p = Some c" "unat c \<le> unat i + k"
      "unat i + k \<le> length (ms_entries (storage e))"
    by blast
  have "unat (of_nat k :: u64) = k" using nm(4) inv(2) by (intro unat_of_nat_u64) linarith
  then show j: "unat j = unat i + k" using nm(4) inv(2) unfolding j_def by (subst unat_add_u64) simp_all
  show jl: "unat j \<le> length (ms_entries (storage e))" using nm(4) by (simp add: j)
  have s: "unat (j + 1) = Suc (unat j)" using jl inv(2) by (intro unat_Suc_u64_bound) linarith
  show "engine_progress (peer_matched e p j)"
    using progress_ok_inflight [OF progress_ok_matched [OF P assms(3) j s]] by simp
  have mx: "max c j = j" using nm(3) by (intro max_absorb2) (simp add: word_le_nat_alt j)
  have cmp: "j + 1 \<le> fst (last_index_term (storage e)) \<longleftrightarrow> unat j < length (ms_entries (storage e))"
    by (simp add: word_le_nat_alt s ms.last_index [OF inv(1)] Suc_le_eq)
  show "handle_append_entries_resp e p (engine_current_term e) True m now =
      (let (e3, as) = maybe_commit (peer_matched e p j) [] in
       if unat j < length (ms_entries (storage e)) then
         (let (e4, oa) = send_append_entries_to e3 p in (e4, push_opt as oa))
       else (e3, as))"
    using assms(2) nm(2) mx cmp
    by (simp add: handle_append_entries_resp_def assms(3) Let_def case_prod_unfold j_def [symmetric]
        peer_matched_def)
qed

lemma resp_failure:
  assumes "engine_inv e" "role e = Leader" "last_ae e p = Some (i, k)"
    "next_index e p = Some n" "match_index e p = Some c"
  defines "n' \<equiv> max (max (sat_sub n 1) (c + 1)) 1"
  shows "unat n' = max (unat n - 1) (Suc (unat c))"
    "engine_progress (peer_backed e p n')"
    "handle_append_entries_resp e p (engine_current_term e) False m now =
      (if n \<noteq> i + 1 then (e\<lparr>ae_inflight := ae_inflight e - {p}\<rparr>, [])
       else (mark_sent (peer_backed e p n') p, [Send p (ae_msg (peer_backed e p n') p)]))"
proof -
  note inv = engine_inv_simps [OF assms(1)]
  have P: "engine_progress e" by (rule inv(6) [OF assms(2)])
  have p: "p \<in> set (engine_other_voters e)" using progress_ok_last [OF P assms(3)] by blast
  from progress_ok_next [OF P p] assms(4,5) have
    b: "unat c < unat n" "unat n \<le> Suc (length (ms_entries (storage e)))"
    by auto
  then have c1: "unat (c + 1) = Suc (unat c)" by (intro unat_Suc_u64 [of c n]) (simp add: word_less_nat_alt)
  show n': "unat n' = max (unat n - 1) (Suc (unat c))"
    unfolding n'_def unat_max_u64 unat_sat_sub c1 by simp
  show pb: "engine_progress (peer_backed e p n')"
    using progress_ok_inflight [OF progress_ok_backed [OF P p assms(5), of n']] b n' by simp
  have send: "send_append_entries_to (peer_backed e p n') p =
      (mark_sent (peer_backed e p n') p, Some (Send p (ae_msg (peer_backed e p n') p)))"
    using send_append_entries_to_spec [OF _ _ pb] inv(1,2) p by simp
  have unfolded: "handle_append_entries_resp e p (engine_current_term e) False m now =
      (if n \<noteq> i + 1 then (e\<lparr>ae_inflight := ae_inflight e - {p}\<rparr>, [])
       else (let (e3, oa) = send_append_entries_to (peer_backed e p n') p in (e3, push_opt [] oa)))"
    using assms(2)
    by (simp add: handle_append_entries_resp_def assms(3-5) Let_def case_prod_unfold peer_backed_def n'_def)
  show "handle_append_entries_resp e p (engine_current_term e) False m now =
      (if n \<noteq> i + 1 then (e\<lparr>ae_inflight := ae_inflight e - {p}\<rparr>, [])
       else (mark_sent (peer_backed e p n') p, [Send p (ae_msg (peer_backed e p n') p)]))"
    unfolding unfolded send by (simp add: push_opt_def)
qed

lemma step_ok_trans: "step_ok e e1 as \<Longrightarrow> step_ok e1 e2 bs \<Longrightarrow> step_ok e e2 (as @ bs)"
  by (auto simp: step_ok_def)

lemma push_opt_append: "push_opt as oa = as @ push_opt [] oa"
  by (simp add: push_opt_def split: option.split)

lemma send_step:
  assumes "engine_inv e" "role e = Leader" "p \<in> set (engine_other_voters e)"
  shows "step_ok e (fst (send_append_entries_to e p)) (push_opt [] (snd (send_append_entries_to e p)))"
  using engine_inv_simps(7) [OF assms(1,2)] assms(2)
    progress_send [OF engine_inv_simps(1,2) [OF assms(1)] engine_inv_simps(6) [OF assms(1,2)] assms(3)]
  by (intro step_ok_leader [OF assms(1)]) (simp_all add: applied_push_opt send_append_entries_to_kind)

lemma maybe_commit_step:
  assumes "engine_inv e" "role e = Leader"
  shows "step_ok e (fst (maybe_commit e [])) (snd (maybe_commit e []))"
proof -
  note inv = engine_inv_simps [OF assms(1)]
  note spec = maybe_commit_spec [OF inv(1,2,5,4), of "[]"]
  have b: "commit_index e \<le> commit_target e" "unat (commit_target e) \<le> length (ms_entries (storage e))"
    by (rule commit_target_bounds [OF inv(1,5)])+
  have "take (unat (commit_target e)) (ms_entries (storage e)) =
      take (unat (commit_index e)) (ms_entries (storage e)) @ applied (snd (maybe_commit e []))"
    using take_slice [of "unat (commit_index e)" "unat (commit_target e)" "ms_entries (storage e)"] b(1)
    by (simp add: spec(3) Let_def word_le_nat_alt)
  moreover have "engine_inv (fst (maybe_commit e []))"
    using assms b(2) by (simp add: engine_inv_def spec(1,2))
  ultimately show ?thesis using b(1) by (simp add: step_ok_def spec(1))
qed

lemma append_entries_resp_step:
  assumes "engine_inv e"
  shows "step_ok e (fst (handle_append_entries_resp e s t ok m now))
    (snd (handle_append_entries_resp e s t ok m now))"
proof -
  note inv = engine_inv_simps [OF assms]
  have same: "step_ok e e []" using assms by (simp add: step_ok_frame)
  consider (new) "engine_current_term e < t"
    | (drop) "t < engine_current_term e \<or> t = engine_current_term e \<and> (role e \<noteq> Leader \<or> last_ae e s = None)"
    | (active) i k where "t = engine_current_term e" "role e = Leader" "last_ae e s = Some (i, k)"
    by (cases "last_ae e s") fastforce+
  then show ?thesis
  proof cases
    case new
    then show ?thesis using become_follower_step [OF assms, of t None]
      by (simp add: handle_append_entries_resp_def Let_def)
  next
    case drop
    then show ?thesis using same by (auto simp: handle_append_entries_resp_def Let_def)
  next
    case active
    have P: "engine_progress e" by (rule inv(6) [OF active(2)])
    from progress_ok_last [OF P active(3)] obtain n c where
      nm: "s \<in> set (engine_other_voters e)" "next_index e s = Some n" "match_index e s = Some c"
      by blast
    show ?thesis
    proof (cases ok)
      case True
      let ?e2 = "peer_matched e s (i + of_nat k)"
      note r = resp_success [OF assms active(2,3)]
      have e2: "step_ok e ?e2 []"
        using active(2) r(3) inv(7) by (intro step_ok_leader [OF assms]) simp_all
      then have i2: "engine_inv ?e2" by (simp add: step_ok_def)
      have e3: "step_ok e (fst (maybe_commit ?e2 [])) (snd (maybe_commit ?e2 []))"
        using step_ok_trans [OF e2 maybe_commit_step [OF i2]] active(2) by simp
      then have i3: "engine_inv (fst (maybe_commit ?e2 []))" by (simp add: step_ok_def)
      have s3: "s \<in> set (engine_other_voters (fst (maybe_commit ?e2 [])))" using nm(1) by simp
      note e4 = step_ok_trans [OF e3 send_step [OF i3 _ s3]]
      show ?thesis
        using e3 e4 active(2) True unfolding active(1)
        by (auto simp: r(4) Let_def case_prod_unfold push_opt_append [of "snd (maybe_commit ?e2 [])"])
    next
      case False
      let ?n = "max (max (sat_sub n 1) (c + 1)) 1"
      note r = resp_failure [OF assms active(2,3) nm(2,3)]
      have "step_ok e (mark_sent (peer_backed e s ?n) s) [Send s (ae_msg (peer_backed e s ?n) s)]"
        using active(2) inv nm(1) progress_mark_sent [OF _ _ r(2), of s]
        by (intro step_ok_leader [OF assms]) (simp_all, simp_all add: mark_sent_def)
      moreover have "step_ok e (e\<lparr>ae_inflight := ae_inflight e - {s}\<rparr>) []"
        using active(2) inv(7) progress_ok_inflight [OF P, of s]
        by (intro step_ok_leader [OF assms]) (simp_all add: engine_other_voters_def)
      ultimately show ?thesis using False unfolding active(1) by (cases "n = i + 1") (simp_all add: r(3))
    qed
  qed
qed

subsection \<open>Proposals\<close>

text \<open>The engine of a leader with the new entry at the end of its log.\<close>

definition proposed :: "('p, 'a) RaftEngine \<Rightarrow> u8 list \<Rightarrow> LogEntry" where
  "proposed e data = \<lparr>le_index = fst (last_index_term (storage e)) + 1, le_term = engine_current_term e,
     entry_type = Command data\<rparr>"

definition with_entry :: "('p, 'a) RaftEngine \<Rightarrow> LogEntry \<Rightarrow> ('p, 'a) RaftEngine" where
  "with_entry e x = e\<lparr>storage := fst (persist (storage e) None [x])\<rparr>"

lemma with_entry_sel [simp]:
  "membership (with_entry e x) = membership e" "config (with_entry e x) = config e"
  "role (with_entry e x) = role e" "leader (with_entry e x) = leader e"
  "commit_index (with_entry e x) = commit_index e" "last_applied (with_entry e x) = last_applied e"
  "last_ae (with_entry e x) = last_ae e" "ae_inflight (with_entry e x) = ae_inflight e"
  "match_index (with_entry e x) = match_index e" "next_index (with_entry e x) = next_index e"
  "engine_other_voters (with_entry e x) = engine_other_voters e"
  "engine_hard (with_entry e x) = engine_hard e" "engine_current_term (with_entry e x) = engine_current_term e"
  by (simp_all add: with_entry_def engine_other_voters_def engine_current_term_def)

lemma with_entry_spec:
  assumes "engine_inv e" "Suc (Suc (length (ms_entries (storage e)))) < 2 ^ 64"
  shows "ms_entries (storage (with_entry e (proposed e data))) = ms_entries (storage e) @ [proposed e data]"
    "unat (le_index (proposed e data)) = Suc (length (ms_entries (storage e)))"
    "step_ok e (with_entry e (proposed e data)) []"
proof -
  note inv = engine_inv_simps [OF assms(1)]
  let ?x = "proposed e data" and ?e = "with_entry e (proposed e data)"
  show idx: "unat (le_index ?x) = Suc (length (ms_entries (storage e)))"
    using assms(2) ms.last_index [OF inv(1)] by (simp add: proposed_def unat_Suc_u64_bound)
  note app = ms.append_one [OF inv(1) idx, of None]
  show ent: "ms_entries (storage ?e) = ms_entries (storage e) @ [?x]"
    using app(1) by (simp add: with_entry_def)
  have "engine_progress ?e" if "role e = Leader"
    using progress_ok_mono [OF inv(6) [OF that]] by (simp add: ent)
  then have "engine_inv ?e"
    using inv(3-5,7) app(2) ent assms(2) by (simp add: engine_inv_def) (simp add: with_entry_def)
  then show "step_ok e ?e []" using inv(5) by (simp add: step_ok_def ent)
qed

lemma propose_unfold:
  "propose e data = (if role e \<noteq> Leader then (e, Inl NotLeader)
     else (fst (replicate_actions (with_entry e (proposed e data))),
       Inr (le_index (proposed e data), snd (replicate_actions (with_entry e (proposed e data))))))"
  by (simp add: propose_def Let_def case_prod_unfold with_entry_def proposed_def)

lemma replicate_step:
  assumes "engine_inv e" "role e = Leader"
  shows "step_ok e (fst (replicate_actions e)) (snd (replicate_actions e))"
  using engine_inv_simps(7) [OF assms] assms(2)
    replicate_actions_spec(3) [OF engine_inv_simps(1,2) [OF assms(1)] engine_inv_simps(6) [OF assms]
      engine_inv_simps(3) [OF assms(1)]]
  by (intro step_ok_leader [OF assms(1)]) (auto intro: applied_no_apply replicate_actions_kind)

lemma propose_step:
  assumes "engine_inv e" "input_ok e (InPropose data)"
  shows "step_ok e (fst (engine_apply e (InPropose data))) (snd (engine_apply e (InPropose data)))"
proof (cases "role e = Leader")
  case True
  with assms(2) have fit: "Suc (Suc (length (ms_entries (storage e)))) < 2 ^ 64" by simp
  note w = with_entry_spec(3) [OF assms(1) fit, of data]
  then have i: "engine_inv (with_entry e (proposed e data))" by (simp add: step_ok_def)
  have "role (with_entry e (proposed e data)) = Leader" using True by simp
  from step_ok_trans [OF w replicate_step [OF i this]] show ?thesis
    using True by (simp add: propose_unfold)
next
  case False
  then show ?thesis using assms(1) by (simp add: propose_unfold step_ok_frame)
qed

subsection \<open>Every call\<close>

lemma engine_apply_step:
  assumes "engine_inv e" "input_ok e i"
  shows "step_ok e (fst (engine_apply e i)) (snd (engine_apply e i))"
proof (cases i)
  case (InTick now)
  then show ?thesis using tick_step [OF assms(1), of now] by (simp add: Let_def case_prod_unfold)
next
  case (InRpc s m now)
  then show ?thesis
    using assms request_vote_step [OF assms(1)] request_vote_resp_step [OF assms(1)]
      append_entries_step [OF assms(1)] append_entries_resp_step [OF assms(1)]
    by (cases m) (simp_all add: step_ok_frame)
next
  case (InRpcFailure p k)
  have "step_ok e (e\<lparr>ae_inflight := ae_inflight e - {p}\<rparr>) []"
  proof (cases "role e = Leader")
    case True
    then show ?thesis
      using engine_inv_simps(6,7) [OF assms(1)] progress_ok_inflight [of _ _ _ _ _ _ p]
      by (intro step_ok_leader [OF assms(1)]) (simp_all add: engine_other_voters_def)
  qed (intro step_ok_follower [OF assms(1)], simp_all)
  then show ?thesis using assms(1) InRpcFailure by (simp add: handle_rpc_failure_def step_ok_frame)
next
  case (InPropose d)
  then show ?thesis using propose_step assms by blast
qed

lemma engine_run_step:
  assumes "engine_inv e" "inputs_ok e is"
  shows "step_ok e (fst (engine_run e is)) (snd (engine_run e is))"
  using assms
proof (induction "is" arbitrary: e)
  case (Cons i "is")
  then have s: "step_ok e (fst (engine_apply e i)) (snd (engine_apply e i))"
    by (intro engine_apply_step) auto
  then have "engine_inv (fst (engine_apply e i))" by (simp add: step_ok_def)
  with Cons have "step_ok (fst (engine_apply e i)) (fst (engine_run (fst (engine_apply e i)) is))
      (snd (engine_run (fst (engine_apply e i)) is))"
    by auto
  from step_ok_trans [OF s this] show ?case by (simp add: Let_def case_prod_unfold)
qed (simp add: step_ok_frame)

lemma engine_inv_new:
  assumes "hash_order ho" "storage_wf st" "Suc (length (ms_entries st)) < 2 ^ 64"
  shows "engine_inv (engine_new ho now cfg st)"
  using assms(2,3) membership_new(1) [OF assms(1)] by (simp add: engine_inv_def engine_new_def)

end
