(* ===== verification/ClusterLog.thy ===== *)
theory ClusterLog
  imports Cluster EngineInv "HOL-Library.Sublist"
begin

text \<open>
  The logs of a cluster: log matching. Every entry of every log, and every AppendEntries ever sent, can be
  traced to the log its leader had; this needs election safety, and the consistency check of the
  followers, but nothing about commitment.
\<close>

subsection \<open>What one call does to the log\<close>

abbreviation engine_log :: "('p, 'a) RaftEngine \<Rightarrow> LogEntry list" where
  "engine_log e \<equiv> ms_entries (storage e)"

lemma handle_append_entries_log:
  assumes "storage_wf (storage e)"
    and "engine_current_term e \<le> t \<Longrightarrow> prev_log_ok (storage e) p pt \<Longrightarrow> numbered (unat p) es"
  shows "engine_log (fst (handle_append_entries e s t l p pt es lc now)) =
    (if engine_current_term e \<le> t \<and> prev_log_ok (storage e) p pt
     then merge_log (engine_log e) (unat p) es else engine_log e)"
proof (cases "engine_current_term e \<le> t")
  case True
  show ?thesis
  proof (cases "prev_log_ok (storage e) p pt")
    case ok: True
    then show ?thesis
      using True store_entries_spec(1) [where s = "storage (ae_follow e t l now)" and es = es and prev = p] assms(1) assms(2) [OF True ok]
        prev_log_ok_length [OF assms(1) ok]
      by (simp add: append_entries_current Let_def case_prod_unfold)
  qed (simp add: append_entries_reject True)
next
  case False
  then have "t < engine_current_term e" by simp
  with False show ?thesis by (simp add: append_entries_stale)
qed

lemma propose_log:
  assumes "storage_wf (storage e)" "role e = Leader \<Longrightarrow> Suc (length (engine_log e)) < 2 ^ 64"
  shows "engine_log (fst (propose e data)) =
      (if role e = Leader then engine_log e @ [proposed e data] else engine_log e)"
    and "role e = Leader \<Longrightarrow> unat (le_index (proposed e data)) = Suc (length (engine_log e))"
proof -
  show idx: "unat (le_index (proposed e data)) = Suc (length (engine_log e))" if "role e = Leader"
    using assms(2) [OF that] ms.last_index [OF assms(1)]
    by (simp add: proposed_def unat_Suc_u64_bound)
  then show "engine_log (fst (propose e data)) =
      (if role e = Leader then engine_log e @ [proposed e data] else engine_log e)"
    using ms.persist_log [OF assms(1) order_refl, of "[proposed e data]" None]
    by (simp add: propose_unfold with_entry_def)
qed

text \<open>The log after a call: unchanged, appended to by a leader, or merged with what a leader sent.\<close>

lemma engine_apply_log:
  assumes "storage_wf (storage e)"
    and "\<And>data. i = InPropose data \<Longrightarrow> role e = Leader \<Longrightarrow> Suc (length (engine_log e)) < 2 ^ 64"
    and "\<And>s t l p pt es lc now. i = InRpc s (AppendEntries t l p pt es lc) now \<Longrightarrow>
      engine_current_term e \<le> t \<Longrightarrow> prev_log_ok (storage e) p pt \<Longrightarrow> numbered (unat p) es"
  obtains (same) "engine_log (fst (engine_apply e i)) = engine_log e"
  | (append) data where "i = InPropose data" "role e = Leader" "role (fst (engine_apply e i)) = Leader"
      "engine_log (fst (engine_apply e i)) = engine_log e @ [proposed e data]"
      "unat (le_index (proposed e data)) = Suc (length (engine_log e))"
  | (merge) s t l p pt es lc now where "i = InRpc s (AppendEntries t l p pt es lc) now"
      "engine_current_term e \<le> t" "prev_log_ok (storage e) p pt" "role (fst (engine_apply e i)) = Follower"
      "engine_log (fst (engine_apply e i)) = merge_log (engine_log e) (unat p) es"
proof (cases i)
  case (InTick now)
  then have "fst (engine_apply e i) = fst (tick e now)" by (simp only: engine_apply_fst)
  then have "engine_log (fst (engine_apply e i)) = engine_log e"
    using tick_core [of e now] by (auto simp: start_election_def Let_def case_prod_unfold)
  then show ?thesis by (rule same)
next
  case (InRpc s m now)
  show ?thesis
  proof (cases m)
    case (RequestVote t c li lt)
    then show ?thesis using InRpc same by (simp add: handle_request_vote_spec)
  next
    case (RequestVoteResp t g)
    then show ?thesis using InRpc same by (simp add: handle_request_vote_resp_def Let_def)
  next
    case (AppendEntries t l p pt es lc)
    have log: "engine_log (fst (handle_append_entries e s t l p pt es lc now)) =
        (if engine_current_term e \<le> t \<and> prev_log_ok (storage e) p pt
         then merge_log (engine_log e) (unat p) es else engine_log e)"
      using assms(3) InRpc AppendEntries by (intro handle_append_entries_log [OF assms(1)]) auto
    show ?thesis
    proof (cases "engine_current_term e \<le> t \<and> prev_log_ok (storage e) p pt")
      case True
      moreover from this have "\<not> t < engine_current_term e" by (simp add: not_less)
      ultimately show ?thesis using InRpc AppendEntries log merge
        by (auto simp: append_entries_role)
    next
      case False
      then show ?thesis using InRpc AppendEntries log [unfolded if_not_P [OF False]] same by simp
    qed
  next
    case (AppendEntriesResp t ok m')
    have "engine_log (fst (handle_append_entries_resp e s t ok m' now)) = engine_log e"
      by (auto simp: handle_append_entries_resp_def Let_def case_prod_unfold split: option.split)
    then show ?thesis using InRpc AppendEntriesResp same by simp
  qed (use InRpc same in simp_all)
next
  case (InRpcFailure p k)
  then show ?thesis using same by (simp add: handle_rpc_failure_def)
next
  case (InPropose data)
  then have f: "fst (engine_apply e i) = fst (propose e data)" by (simp only: engine_apply_fst)
  show ?thesis
  proof (cases "role e = Leader")
    case True
    note log = propose_log [OF assms(1) assms(2) [OF InPropose], of data]
    from True log have "role (fst (propose e data)) = Leader"
        "engine_log (fst (propose e data)) = engine_log e @ [proposed e data]"
      by (simp_all add: propose_core)
    then show ?thesis using log(2) [OF True True] by (intro append [OF InPropose True]) (simp_all only: f)
  next
    case False
    then show ?thesis using same by (simp add: f propose_unfold)
  qed
qed

subsection \<open>What an AppendEntries says about the log of its sender\<close>

definition ae_content :: "MemoryStorage \<Rightarrow> Index \<Rightarrow> Action \<Rightarrow> bool" where
  "ae_content st lc a \<longleftrightarrow> (\<exists>q l p pt es nxt. p = sat_sub nxt 1 \<and>
     a = Send q (AppendEntries (current_term (hard_state st)) l p pt es lc) \<and>
     collect_entries st nxt (fst (last_index_term st)) = Some es \<and>
     (if p = 0 then pt = 0 else map_option le_term (entry st p) = Some pt))"

lemma built_content: "build_append_entries e p = Some (msg, prev, n) \<Longrightarrow> ae_content (storage e) (commit_index e) (Send q msg)"
  by (drule build_append_entries_Some) (unfold ae_content_def engine_current_term_def, blast)

lemma sent_content: "snd (send_append_entries_to e p) = Some a \<Longrightarrow> ae_content (storage e) (commit_index e) a"
  by (auto dest!: send_append_entries_to_Some intro: built_content)

lemma replicate_content: "a \<in> set (snd (replicate_actions e)) \<Longrightarrow> ae_content (storage e) (commit_index e) a"
  unfolding replicate_actions_def by (auto dest!: replicate_to_member intro: built_content)

lemma resp_content:
  assumes "a \<in> set (snd (handle_append_entries_resp e s t ok m now))" "is_append_entries a"
  shows "role (fst (handle_append_entries_resp e s t ok m now)) = Leader \<and>
    ae_content (storage (fst (handle_append_entries_resp e s t ok m now)))
      (commit_index (fst (handle_append_entries_resp e s t ok m now))) a"
  using assms
  by (auto simp: handle_append_entries_resp_def Let_def case_prod_unfold dest!: sent_content maybe_commit_action
      split: option.splits if_splits)

lemma append_entries_sent:
  assumes "a \<in> set (snd (engine_apply e i))" "is_append_entries a"
  shows "role (fst (engine_apply e i)) = Leader \<and> ae_content (storage (fst (engine_apply e i))) (commit_index (fst (engine_apply e i))) a"
proof (cases i)
  case (InTick now)
  then have acts: "a \<in> set (out_actions (snd (tick e now)))" and f: "fst (engine_apply e i) = fst (tick e now)"
    using assms(1) by (simp_all add: Let_def case_prod_unfold)
  show ?thesis
  proof (cases "role e = Leader \<and> next_deadline e \<le> now \<and> heartbeat_deadline e \<le> now")
    case True
    then have t: "out_actions (snd (tick e now)) = snd (replicate_actions e)"
        "role (fst (tick e now)) = Leader" "storage (fst (tick e now)) = storage e"
        "commit_index (fst (tick e now)) = commit_index e"
      by (simp_all add: tick_def Let_def case_prod_unfold)
    with acts show ?thesis unfolding f by (simp add: replicate_content)
  next
    case False
    then have "\<not> is_append_entries a" using acts
      by (auto simp: tick_def Let_def case_prod_unfold split: if_splits)
    with assms(2) show ?thesis by simp
  qed
next
  case (InRpc s m now)
  show ?thesis
  proof (cases m)
    case (AppendEntriesResp t ok m')
    then show ?thesis using resp_content [of a e s t ok m' now] assms InRpc by simp
  qed (use assms InRpc in \<open>auto dest!: request_vote_kind request_vote_resp_kind append_entries_kind\<close>)
next
  case (InPropose d)
  have f: "fst (engine_apply e i) = fst (propose e d)" unfolding InPropose by (rule engine_apply_fst)
  from assms(1) InPropose have r: "role e = Leader"
    and a: "a \<in> set (snd (replicate_actions (with_entry e (proposed e d))))"
    by (auto simp: propose_unfold split: if_splits)
  from replicate_content [OF a] r show ?thesis unfolding f by (simp add: propose_unfold)
next
  case (InRpcFailure p k)
  with assms(1) show ?thesis by (simp add: handle_rpc_failure_def)
qed

text \<open>The request carries the whole log behind \<open>prev_log_index\<close>, and the term of the entry there.\<close>

lemma ae_content_log:
  assumes "ae_content st ci (Send q (AppendEntries t l p pt es lc))" "storage_wf st" "Suc (length (ms_entries st)) < 2 ^ 64"
  shows "t = current_term (hard_state st) \<and> lc = ci \<and> unat p \<le> length (ms_entries st) \<and>
    es = drop (unat p) (ms_entries st) \<and> pt = log_term (ms_entries st) (unat p)"
proof -
  let ?log = "ms_entries st"
  from assms(1) obtain nxt where n: "p = sat_sub nxt 1" "t = current_term (hard_state st)" "lc = ci"
      "collect_entries st nxt (fst (last_index_term st)) = Some es"
      "if p = 0 then pt = 0 else map_option le_term (entry st p) = Some pt"
    by (auto simp: ae_content_def)
  have "nxt \<noteq> 0"
  proof
    assume "nxt = 0"
    with n(4) show False by (simp add: collect_entries.simps [of st 0] entry_def)
  qed
  then have nxt: "unat nxt = Suc (unat p)" using n(1) unat_pos_u64 [of nxt] by (simp add: unat_sat_sub)
  have pos: "p = 0 \<or> unat p \<le> length ?log \<and> pt = le_term (?log ! (unat p - 1))"
    using n(5) by (auto simp: ms.entry_log [OF assms(2)] split: if_splits)
  then have le: "unat p \<le> length ?log" by auto
  have "es = drop (unat p) ?log"
    using n(4) collect_entries_spec [OF assms(2,3) \<open>nxt \<noteq> 0\<close>] nxt le by simp
  moreover have "pt = log_term ?log (unat p)"
  proof (cases "p = 0")
    case False
    with pos unat_pos_u64 [OF this] show ?thesis by (simp add: log_term_def)
  qed (use n(5) in \<open>simp add: log_term_def\<close>)
  ultimately show ?thesis using n(2,3) le by simp
qed

subsection \<open>The log of each term\<close>

text \<open>
  \<open>tlog t\<close> is the log of the leader of term \<open>t\<close>, as far as it has got. A log is anchored in them if each of its
  entries sits where the leader of its term has it, with the same entries before it.
\<close>

definition anchored :: "(Term \<Rightarrow> LogEntry list) \<Rightarrow> LogEntry list \<Rightarrow> bool" where
  "anchored tlog log \<longleftrightarrow> (\<forall>k < length log. k < length (tlog (le_term (log ! k))) \<and>
     take (Suc k) log = take (Suc k) (tlog (le_term (log ! k))))"

lemma anchored_Nil [simp]: "anchored tlog []"
  by (simp add: anchored_def)

lemma anchoredD:
  assumes "anchored tlog log" "k < length log"
  shows "k < length (tlog (le_term (log ! k)))" "take (Suc k) log = take (Suc k) (tlog (le_term (log ! k)))"
  using assms unfolding anchored_def by blast+

lemma prefix_take: "prefix xs ys \<Longrightarrow> n \<le> length xs \<Longrightarrow> take n ys = take n xs"
  by (auto simp: prefix_def)

lemma anchored_mono:
  assumes "anchored tlog log" "\<And>t. prefix (tlog t) (tlog' t)"
  shows "anchored tlog' log"
  unfolding anchored_def
proof (intro allI impI conjI)
  fix k assume k: "k < length log"
  let ?t = "le_term (log ! k)"
  note a = anchoredD [OF assms(1) k]
  show "k < length (tlog' ?t)" using a(1) prefix_length_le [OF assms(2)] by (rule order.strict_trans2)
  show "take (Suc k) log = take (Suc k) (tlog' ?t)"
    unfolding a(2) using a(1) by (simp add: prefix_take [OF assms(2)])
qed

lemma anchored_take: "anchored tlog log \<Longrightarrow> anchored tlog (take n log)"
  unfolding anchored_def by (auto simp: min_def)

lemma anchored_snoc:
  "anchored tlog log \<Longrightarrow> tlog (le_term x) = log @ [x] \<Longrightarrow> anchored tlog (log @ [x])"
  unfolding anchored_def by (auto simp: less_Suc_eq nth_append)

text \<open>Two anchored logs that have entries of the same term at the same place agree up to there.\<close>

lemma anchored_agree:
  assumes "anchored tlog a" "anchored tlog b" "k < length a" "k < length b" "le_term (a ! k) = le_term (b ! k)"
  shows "take (Suc k) a = take (Suc k) b"
  using anchoredD(2) [OF assms(1,3)] anchoredD(2) [OF assms(2,4)] assms(5) by simp

lemma anchored_agree_upto:
  assumes "anchored tlog a" "anchored tlog b" "n \<le> length a" "n \<le> length b" "log_term a n = log_term b n"
  shows "take n a = take n b"
proof (cases n)
  case (Suc k)
  then show ?thesis using anchored_agree [OF assms(1,2), of k] assms(3-5) by (simp add: log_term_def)
qed simp

definition ae_ok :: "(Term \<Rightarrow> LogEntry list) \<Rightarrow> Term \<Rightarrow> Index \<Rightarrow> Term \<Rightarrow> LogEntry list \<Rightarrow> bool" where
  "ae_ok tlog t p pt es \<longleftrightarrow> unat p + length es \<le> length (tlog t) \<and>
     es = drop (unat p) (take (unat p + length es) (tlog t)) \<and> pt = log_term (tlog t) (unat p)"

lemma log_term_prefix: "prefix xs ys \<Longrightarrow> n \<le> length xs \<Longrightarrow> log_term ys n = log_term xs n"
  by (auto simp: prefix_def log_term_def nth_append)

lemma ae_ok_mono:
  assumes "ae_ok tlog t p pt es" "\<And>t. prefix (tlog t) (tlog' t)"
  shows "ae_ok tlog' t p pt es"
proof -
  have le: "unat p + length es \<le> length (tlog t)" using assms(1) by (simp add: ae_ok_def)
  then have "unat p + length es \<le> length (tlog' t)" using prefix_length_le [OF assms(2)] by (rule order_trans)
  then show ?thesis using assms(1) le
    by (simp add: ae_ok_def prefix_take [OF assms(2)] log_term_prefix [OF assms(2)])
qed

text \<open>
  The follower's merge: with a matching previous entry the result is the prefix of the sender's log up to the
  end of the request, or the old log where that has this prefix already.
\<close>

lemma merge_anchored:
  assumes "anchored tlog log" "anchored tlog (tlog t)" "ae_ok tlog t p pt es"
    and "unat p \<le> length log" "log_term log (unat p) = pt"
  defines "sent \<equiv> take (unat p + length es) (tlog t)"
  shows "merge_log log (unat p) es = (if prefix sent log then log else sent)"
proof -
  let ?n = "unat p" and ?L = "tlog t"
  let ?k = "match_len (drop ?n log) es"
  from assms(3) have es: "es = drop ?n sent" and len: "?n + length es \<le> length ?L"
    and pt: "pt = log_term ?L ?n" by (simp_all add: ae_ok_def sent_def)
  have nth: "es ! j = ?L ! (?n + j)" if "j < length es" for j
    using that len by (subst es) (simp add: sent_def)
  have k: "?n + ?k \<le> length log" "?k \<le> length es"
    using match_len_drop_bound [OF assms(4)] match_len_le(2) by auto
  have "log_term log (?n + ?k) = log_term ?L (?n + ?k)"
  proof (cases ?k)
    case 0
    then show ?thesis using assms(5) pt by simp
  next
    case (Suc j)
    then have "le_term (drop ?n log ! j) = le_term (es ! j)" by (intro match_len_nth) simp
    then show ?thesis using Suc k nth [of j] by (simp add: log_term_def)
  qed
  then have t: "take (?n + ?k) log = take (?n + ?k) ?L"
    using assms(1,2) k len by (intro anchored_agree_upto) auto
  show ?thesis
  proof (cases "?k = length es")
    case True
    then have "sent = take (?n + length es) log" using t by (simp add: sent_def)
    then have "prefix sent log" by (simp add: take_is_prefix)
    then show ?thesis using True by (simp add: merge_log_def)
  next
    case False
    have "drop ?k es = drop (?n + ?k) sent" by (subst es) (simp add: add.commute)
    then have "take (?n + ?k) ?L @ drop ?k es = sent"
      using k(2) append_take_drop_id [of "?n + ?k" sent] by (simp add: sent_def min_def)
    moreover have "\<not> prefix sent log"
    proof
      assume "prefix sent log"
      then have "es = drop ?n (take (length sent) log)" by (metis append_eq_conv_conj es prefixE)
      moreover have "length sent = ?n + length es" using len by (simp add: sent_def)
      ultimately have "es = take (length es) (drop ?n log)" by (simp add: drop_take)
      then have "match_len (drop ?n log) es = length es"
        by (intro match_len_all) (metis length_take min_less_iff_conj nth_take)
      with False show False by simp
    qed
    ultimately show ?thesis using t False by (simp add: merge_log_def Let_def)
  qed
qed

subsection \<open>The invariant of a cluster\<close>

abbreviation node_log :: "('p, 'a) Cluster \<Rightarrow> NodeId \<Rightarrow> LogEntry list" where
  "node_log c n \<equiv> engine_log (nodes c n)"

abbreviation node_term :: "('p, 'a) Cluster \<Rightarrow> NodeId \<Rightarrow> Term" where
  "node_term c n \<equiv> engine_current_term (nodes c n)"

definition tlogs_ok :: "(Term \<Rightarrow> LogEntry list) \<Rightarrow> bool" where
  "tlogs_ok tlog \<longleftrightarrow> (\<forall>t. anchored tlog (tlog t) \<and> numbered 0 (tlog t) \<and> Suc (length (tlog t)) < 2 ^ 64)"

definition log_inv :: "NodeId set \<Rightarrow> (Term \<Rightarrow> LogEntry list) \<Rightarrow> ('p, 'a) Cluster \<Rightarrow> bool" where
  "log_inv V tlog c \<longleftrightarrow> tlogs_ok tlog \<and>
     (\<forall>n \<in> V. anchored tlog (node_log c n) \<and> numbered 0 (node_log c n)) \<and>
     (\<forall>m q t l p pt es lc. (m, Send q (AppendEntries t l p pt es lc)) \<in> history c \<longrightarrow> ae_ok tlog t p pt es) \<and>
     (\<forall>n \<in> V. role (nodes c n) = Leader \<longrightarrow> node_log c n = tlog (node_term c n)) \<and>
     (\<forall>t. tlog t \<noteq> [] \<longrightarrow> (\<exists>n. (n, BecomeLeader t) \<in> history c)) \<and>
     (\<forall>n t. (n, BecomeLeader t) \<in> history c \<longrightarrow> t \<le> node_term c n \<and>
        (role (nodes c n) = Candidate \<longrightarrow> t < node_term c n))"

lemma log_invD:
  assumes "log_inv V tlog c"
  shows "tlogs_ok tlog" "n \<in> V \<Longrightarrow> anchored tlog (node_log c n)" "n \<in> V \<Longrightarrow> numbered 0 (node_log c n)"
    "(m, Send q (AppendEntries t l p pt es lc)) \<in> history c \<Longrightarrow> ae_ok tlog t p pt es"
    "n \<in> V \<Longrightarrow> role (nodes c n) = Leader \<Longrightarrow> node_log c n = tlog (node_term c n)"
    "tlog t \<noteq> [] \<Longrightarrow> \<exists>n. (n, BecomeLeader t) \<in> history c"
    "(m, BecomeLeader t) \<in> history c \<Longrightarrow> t \<le> node_term c m"
    "(m, BecomeLeader t) \<in> history c \<Longrightarrow> role (nodes c m) = Candidate \<Longrightarrow> t < node_term c m"
  using assms unfolding log_inv_def by blast+

lemma tlogs_okD:
  assumes "tlogs_ok tlog"
  shows "anchored tlog (tlog t)" "numbered 0 (tlog t)" "Suc (length (tlog t)) < 2 ^ 64"
  using assms unfolding tlogs_ok_def by blast+

lemma log_inv_init: "log_inv V (\<lambda>t. []) (cluster_init hos nows cfgs)"
  by (simp add: log_inv_def tlogs_ok_def cluster_init_def engine_new_def MemoryStorage_new_def)

lemma anchored_length: "tlogs_ok tlog \<Longrightarrow> anchored tlog log \<Longrightarrow> Suc (length log) < 2 ^ 64"
proof (cases "length log")
  case (Suc k)
  assume t: "tlogs_ok tlog" and a: "anchored tlog log"
  from anchoredD(1) [OF a, of k] Suc have "Suc (length log) \<le> Suc (length (tlog (le_term (log ! k))))" by simp
  then show ?thesis using tlogs_okD(3) [OF t] by (rule order.strict_trans1)
qed simp

text \<open>A proposal needs room in the index range.\<close>

fun has_room :: "('p, 'a) RaftEngine \<Rightarrow> EngineInput \<Rightarrow> bool" where
  "has_room e (InPropose data) = (role e = Leader \<longrightarrow> fits_u64 (Suc (Suc (length (engine_log e)))))"
| "has_room e _ = True"

text \<open>The request a node handles, and its log afterwards.\<close>

lemma in_flight_append:
  "requests_ok V c \<Longrightarrow> in_flight c s n (AppendEntries t l p pt es lc) \<Longrightarrow>
    (s, Send n (AppendEntries t l p pt es lc)) \<in> history c"
  unfolding requests_ok_def in_flight_def by blast

lemma ae_ok_numbered: "tlogs_ok tlog \<Longrightarrow> ae_ok tlog t p pt es \<Longrightarrow> numbered (unat p) es"
proof -
  assume t: "tlogs_ok tlog" and a: "ae_ok tlog t p pt es"
  let ?L = "take (unat p + length es) (tlog t)"
  have "numbered (0 + unat p) (drop (unat p) ?L)"
    using a tlogs_okD(2) [OF t] by (intro numbered_drop numbered_take) (auto simp: ae_ok_def)
  then show ?thesis using a by (simp add: ae_ok_def)
qed

lemma prev_log_ok_term:
  "storage_wf s \<Longrightarrow> prev_log_ok s p pt \<Longrightarrow> unat p \<le> length (ms_entries s) \<and> log_term (ms_entries s) (unat p) = pt"
  using unat_pos_u64 [of p] by (auto simp: prev_log_ok_iff log_term_def split: if_splits)

lemma node_step_log:
  assumes "log_inv V tlog c" "requests_ok V c" "n \<in> V" "admissible c n i" "has_room (nodes c n) i"
  defines "e \<equiv> nodes c n" and "e' \<equiv> fst (engine_apply (nodes c n) i)"
  shows "engine_log e' = engine_log e \<or>
    role e = Leader \<and> role e' = Leader \<and> (\<exists>x. engine_log e' = engine_log e @ [x] \<and> le_term x = engine_current_term e \<and>
      unat (le_index x) = Suc (length (engine_log e))) \<and> Suc (Suc (length (engine_log e))) < 2 ^ 64 \<or>
    role e' = Follower \<and> (\<exists>k t. engine_log e' = take k (tlog t))"
proof -
  have wf: "storage_wf (storage e)" using log_invD(3) [OF assms(1,3)] by (simp add: storage_wf_def e_def)
  have fits: "Suc (length (engine_log e)) < 2 ^ 64"
    unfolding e_def by (rule anchored_length [OF log_invD(1,2) [OF assms(1)]]) (rule assms(3))
  have msg: "ae_ok tlog t p pt es" if "i = InRpc s (AppendEntries t l p pt es lc) now" for s t l p pt es lc now
    using that assms(4) by (auto dest: in_flight_append [OF assms(2)] log_invD(4) [OF assms(1)])
  note num = ae_ok_numbered [OF log_invD(1) [OF assms(1)] msg]
  show ?thesis
  proof (rule engine_apply_log [of e i])
    assume "engine_log (fst (engine_apply e i)) = engine_log e"
    then show ?thesis by (simp add: e_def e'_def)
  next
    fix data assume a: "i = InPropose data" "role e = Leader" "role (fst (engine_apply e i)) = Leader"
      "engine_log (fst (engine_apply e i)) = engine_log e @ [proposed e data]"
      "unat (le_index (proposed e data)) = Suc (length (engine_log e))"
    then have "Suc (Suc (length (engine_log e))) < 2 ^ 64" using assms(5) by (simp add: e_def)
    moreover have "le_term (proposed e data) = engine_current_term e" by (simp add: proposed_def)
    ultimately show ?thesis using a(2-5) by (auto simp: e_def e'_def)
  next
    fix s t l p pt es lc now
    assume a: "i = InRpc s (AppendEntries t l p pt es lc) now" "engine_current_term e \<le> t"
      "prev_log_ok (storage e) p pt" "role (fst (engine_apply e i)) = Follower"
      "engine_log (fst (engine_apply e i)) = merge_log (engine_log e) (unat p) es"
    have "anchored tlog (engine_log e)" unfolding e_def by (rule log_invD(2) [OF assms(1,3)])
    then have "merge_log (engine_log e) (unat p) es = (if prefix (take (unat p + length es) (tlog t)) (engine_log e)
        then engine_log e else take (unat p + length es) (tlog t))"
      using prev_log_ok_term [OF wf a(3)] tlogs_okD(1) [OF log_invD(1) [OF assms(1)]] msg [OF a(1)]
      by (intro merge_anchored) auto
    with a(4,5) show ?thesis by (auto simp: e_def e'_def)
  qed (use wf fits num in auto)
qed

text \<open>The logs of the terms after a call of node \<open>n\<close>: if it leads, its log is that of its term.\<close>

definition tlog_step :: "(Term \<Rightarrow> LogEntry list) \<Rightarrow> ('p, 'a) RaftEngine \<Rightarrow> Term \<Rightarrow> LogEntry list" where
  "tlog_step tlog e' = (if role e' = Leader then tlog(engine_current_term e' := engine_log e') else tlog)"

lemma tlog_step_prefix:
  assumes "log_inv V tlog c" "election_inv V c" "n \<in> V" "admissible c n i" "has_room (nodes c n) i"
  shows "prefix (tlog t) (tlog_step tlog (fst (engine_apply (nodes c n) i)) t)"
proof -
  let ?e = "nodes c n" and ?e' = "fst (engine_apply (nodes c n) i)"
  note req = assms(2) [unfolded election_inv_def, THEN conjunct2, THEN conjunct1]
  have "prefix (tlog (engine_current_term ?e')) (engine_log ?e')" if lead: "role ?e' = Leader"
  proof (cases "role ?e = Leader")
    case True
    then have "engine_log ?e = tlog (engine_current_term ?e)" by (rule log_invD(5) [OF assms(1,3)])
    moreover have "engine_current_term ?e' = engine_current_term ?e"
      using leading_step [OF lead] by (simp add: engine_current_term_def)
    ultimately show ?thesis using node_step_log [OF assms(1) req assms(3-5)] lead by auto
  next
    case False
    then have win: "BecomeLeader (engine_current_term ?e) \<in> set (snd (engine_apply ?e i))"
      and same: "engine_current_term ?e' = engine_current_term ?e"
      using leading_step [OF lead] by (simp_all add: engine_current_term_def)
    have "tlog (engine_current_term ?e) = []"
    proof (rule ccontr)
      assume "tlog (engine_current_term ?e) \<noteq> []"
      then obtain m where m: "(m, BecomeLeader (engine_current_term ?e)) \<in> history c"
        using log_invD(6) [OF assms(1)] by blast
      have "m = n"
        using win m by (intro elected_unique [OF election_inv_apply [OF assms(2-4)]]) (auto simp: cluster_apply_sel(2))
      moreover have "role ?e = Candidate" using leader_step [OF win] by blast
      ultimately show False using log_invD(8) [OF assms(1) m] by simp
    qed
    then show ?thesis by (simp add: same)
  qed
  then show ?thesis by (simp add: tlog_step_def)
qed

lemma tlog_step_log:
  assumes "log_inv V tlog c" "election_inv V c" "n \<in> V" "admissible c n i" "has_room (nodes c n) i"
  defines "e' \<equiv> fst (engine_apply (nodes c n) i)"
  shows "anchored (tlog_step tlog e') (engine_log e') \<and> numbered 0 (engine_log e') \<and> Suc (length (engine_log e')) < 2 ^ 64"
proof -
  let ?e = "nodes c n" and ?tl = "tlog_step tlog e'"
  note req = assms(2) [unfolded election_inv_def, THEN conjunct2, THEN conjunct1]
  note ext = tlog_step_prefix [OF assms(1-5), folded e'_def]
  have old: "anchored ?tl (engine_log ?e)" "numbered 0 (engine_log ?e)" "Suc (length (engine_log ?e)) < 2 ^ 64"
    using anchored_mono [OF log_invD(2) [OF assms(1,3)] ext] log_invD(3) [OF assms(1,3)]
      anchored_length [OF log_invD(1,2) [OF assms(1)]] assms(3) by blast+
  have cut: "anchored ?tl (take k (tlog t)) \<and> numbered 0 (take k (tlog t)) \<and> Suc (length (take k (tlog t))) < 2 ^ 64" for k t
  proof -
    note t = tlogs_okD [OF log_invD(1) [OF assms(1)], of t]
    have "Suc (length (take k (tlog t))) \<le> Suc (length (tlog t))" by simp
    then show ?thesis using anchored_mono [OF t(1) ext] numbered_take [OF t(2)] t(3)
      by (blast intro: anchored_take order.strict_trans1)
  qed
  from node_step_log [OF assms(1) req assms(3-5), folded e'_def] show ?thesis
  proof (elim disjE conjE exE)
    assume "engine_log e' = engine_log ?e"
    with old show ?thesis by simp
  next
    fix x assume x: "role ?e = Leader" "role e' = Leader" "engine_log e' = engine_log ?e @ [x]"
      "le_term x = engine_current_term ?e" "unat (le_index x) = Suc (length (engine_log ?e))"
      "Suc (Suc (length (engine_log ?e))) < 2 ^ 64"
    have "engine_current_term e' = engine_current_term ?e"
      using leading_step [OF x(2) [unfolded e'_def]] by (simp add: e'_def engine_current_term_def)
    then have "?tl (le_term x) = engine_log ?e @ [x]" using x(2-4) by (simp add: tlog_step_def)
    then show ?thesis using x old by (simp add: anchored_snoc)
  next
    fix k t assume "engine_log e' = take k (tlog t)"
    with cut show ?thesis by simp
  qed
qed

lemma elected_bound:
  assumes "log_inv V tlog c" "election_inv V c" "n \<in> V" "admissible c n i"
    and "(m, BecomeLeader t) \<in> history (cluster_apply c n i)"
  shows "t \<le> node_term (cluster_apply c n i) m \<and>
    (role (nodes (cluster_apply c n i) m) = Candidate \<longrightarrow> t < node_term (cluster_apply c n i) m)"
proof -
  let ?e = "nodes c n" and ?e' = "fst (engine_apply (nodes c n) i)"
  have mono: "engine_current_term ?e \<le> engine_current_term ?e'"
    using admissible_hard [OF assms(4)] by (auto simp: hs_le_def engine_current_term_def)
  have candidate: "t < engine_current_term ?e'" if "(n, BecomeLeader t) \<in> history c" "role ?e' = Candidate"
  proof -
    from candidate_step [OF that(2)] consider
        "BecomeCandidate (engine_current_term ?e') \<in> set (snd (engine_apply ?e i))"
      | "role ?e = Candidate" "engine_hard ?e' = engine_hard ?e" by blast
    then show ?thesis
    proof cases
      case 1
      from candidacy_step [OF this] obtain now where c: "engine_current_term ?e' = engine_current_term ?e + 1"
        "i = InTick now" "role ?e \<noteq> Leader" "election_deadline ?e \<le> now" by blast
      then have "engine_current_term ?e \<noteq> - 1" using assms(4) by auto
      then have "engine_current_term ?e < engine_current_term ?e'" using c(1) term_not_max by metis
      then show ?thesis using log_invD(7) [OF assms(1) that(1)] by (rule order.strict_trans1 [rotated])
    next
      case 2
      then show ?thesis using log_invD(8) [OF assms(1) that(1)] by (simp add: engine_current_term_def)
    qed
  qed
  have new: "t = engine_current_term ?e' \<and> role ?e' \<noteq> Candidate" if "BecomeLeader t \<in> set (snd (engine_apply ?e i))"
    using leader_step [OF that] by (auto simp: engine_current_term_def)
  show ?thesis
  proof (cases "m = n")
    case True
    then have "(n, BecomeLeader t) \<in> history c \<or> BecomeLeader t \<in> set (snd (engine_apply ?e i))"
      using assms(5) by (auto simp: cluster_apply_sel(2))
    then show ?thesis
    proof
      assume h: "(n, BecomeLeader t) \<in> history c"
      then have "t \<le> engine_current_term ?e'" using log_invD(7) [OF assms(1)] mono by (blast intro: order_trans)
      with candidate [OF h] True show ?thesis by (simp add: cluster_apply_sel(1))
    next
      assume "BecomeLeader t \<in> set (snd (engine_apply ?e i))"
      from new [OF this] True show ?thesis by (simp add: cluster_apply_sel(1))
    qed
  next
    case False
    then have "(m, BecomeLeader t) \<in> history c" using assms(5) by (simp add: cluster_apply_sel(2))
    with False show ?thesis using log_invD(7,8) [OF assms(1)] by (simp add: cluster_apply_sel(1))
  qed
qed

lemma log_inv_apply:
  assumes "log_inv V tlog c" "election_inv V c" "n \<in> V" "admissible c n i" "has_room (nodes c n) i"
  shows "log_inv V (tlog_step tlog (fst (engine_apply (nodes c n) i))) (cluster_apply c n i)"
proof -
  let ?e = "nodes c n" and ?e' = "fst (engine_apply (nodes c n) i)" and ?c = "cluster_apply c n i"
  let ?tl = "tlog_step tlog ?e'"
  note ext = tlog_step_prefix [OF assms] and log = tlog_step_log [OF assms]
  have el: "election_inv V ?c" by (rule election_inv_apply [OF assms(2-4)])
  have elected: "(m, BecomeLeader (node_term ?c m)) \<in> history ?c" if "m \<in> V" "role (nodes ?c m) = Leader" for m
    using el that by (auto simp: election_inv_def elections_ok_def)
  have node: "nodes ?c m = (if m = n then ?e' else nodes c m)" for m by (simp add: cluster_apply_sel)
  have lead: "node_log ?c m = ?tl (node_term ?c m)" if m: "m \<in> V" "role (nodes ?c m) = Leader" for m
  proof (cases "m = n")
    case True
    then show ?thesis using m by (simp add: node tlog_step_def)
  next
    case False
    have "role ?e' = Leader \<Longrightarrow> node_term c m \<noteq> engine_current_term ?e'"
      using elected_unique [OF el, of m "node_term ?c m" n] elected [OF m] elected [OF assms(3)] False
      by (auto simp: node)
    then show ?thesis using False m log_invD(5) [OF assms(1)] by (auto simp: node tlog_step_def)
  qed
  have sent: "ae_ok ?tl t p pt es" if h: "(m, Send q (AppendEntries t l p pt es lc)) \<in> history ?c" for m q t l p pt es lc
  proof (cases "(m, Send q (AppendEntries t l p pt es lc)) \<in> history c")
    case True
    then show ?thesis by (rule ae_ok_mono [OF log_invD(4) [OF assms(1)] ext])
  next
    case False
    with h have "Send q (AppendEntries t l p pt es lc) \<in> set (snd (engine_apply ?e i))" by (simp add: cluster_apply_sel)
    from append_entries_sent [OF this] have r: "role ?e' = Leader"
      and c: "ae_content (storage ?e') (commit_index ?e') (Send q (AppendEntries t l p pt es lc))" by (simp_all add: is_append_entries_def)
    from log have "storage_wf (storage ?e')" "Suc (length (engine_log ?e')) < 2 ^ 64" by (simp_all add: storage_wf_def)
    from ae_content_log [OF c this] r show ?thesis
      by (simp add: ae_ok_def tlog_step_def engine_current_term_def)
  qed
  have "anchored ?tl (?tl t) \<and> numbered 0 (?tl t) \<and> Suc (length (?tl t)) < 2 ^ 64" for t
  proof (cases "role ?e' = Leader \<and> t = engine_current_term ?e'")
    case True
    then have "?tl t = engine_log ?e'" by (simp add: tlog_step_def)
    with log show ?thesis by simp
  next
    case False
    then have "?tl t = tlog t" by (auto simp: tlog_step_def)
    then show ?thesis using anchored_mono [OF _ ext] tlogs_okD [OF log_invD(1) [OF assms(1)], of t] by simp
  qed
  then have ok: "tlogs_ok ?tl" by (simp add: tlogs_ok_def)
  have logs: "anchored ?tl (node_log ?c m) \<and> numbered 0 (node_log ?c m)" if "m \<in> V" for m
    using log anchored_mono [OF log_invD(2) [OF assms(1) that] ext] log_invD(3) [OF assms(1) that] by (simp add: node)
  have started: "\<exists>m. (m, BecomeLeader t) \<in> history ?c" if "?tl t \<noteq> []" for t
  proof (cases "role ?e' = Leader \<and> t = engine_current_term ?e'")
    case True
    then show ?thesis using elected [OF assms(3)] by (auto simp: node)
  next
    case False
    then have "tlog t \<noteq> []" using that by (auto simp: tlog_step_def split: if_splits)
    then show ?thesis using log_invD(6) [OF assms(1)] by (auto simp: cluster_apply_sel(2))
  qed
  show ?thesis
    unfolding log_inv_def using ok logs sent lead started elected_bound [OF assms(1-4)] by blast
qed

subsection \<open>Log matching\<close>

inductive roomy_reachable :: "NodeId set \<Rightarrow> ('p, 'a) Cluster \<Rightarrow> ('p, 'a) Cluster \<Rightarrow> bool" for V c0 where
  start: "roomy_reachable V c0 c0"
| step: "roomy_reachable V c0 c \<Longrightarrow> n \<in> V \<Longrightarrow> admissible c n i \<Longrightarrow> has_room (nodes c n) i \<Longrightarrow>
    roomy_reachable V c0 (cluster_apply c n i)"

lemma roomy_inv:
  assumes "deployment V hos cfgs" "roomy_reachable V (cluster_init hos nows cfgs) c"
  shows "election_inv V c \<and> (\<exists>tlog. log_inv V tlog c)"
  using assms(2)
proof induction
  case start
  then show ?case using election_inv_init [OF assms(1)] log_inv_init by blast
next
  case (step c n i)
  then show ?case using election_inv_apply log_inv_apply by blast
qed

lemma log_inv_matching:
  assumes "log_inv V tlog c" "n \<in> V" "m \<in> V"
    and "entry (storage (nodes c n)) i = Some x" "entry (storage (nodes c m)) i = Some y"
    and "le_term x = le_term y" "j \<le> i"
  shows "entry (storage (nodes c n)) j = entry (storage (nodes c m)) j"
proof -
  note inv = assms(1)
  have wf: "storage_wf (storage (nodes c k))" if "k \<in> V" for k
    using log_invD(3) [OF inv that] by (simp add: storage_wf_def)
  note e = ms.entry_log [OF wf [OF assms(2)]] ms.entry_log [OF wf [OF assms(3)]]
  from assms(4,5) have i: "i \<noteq> 0" "unat i \<le> length (node_log c n)" "unat i \<le> length (node_log c m)"
      "x = node_log c n ! (unat i - 1)" "y = node_log c m ! (unat i - 1)"
    by (auto simp: e split: if_splits)
  then have "log_term (node_log c n) (unat i) = log_term (node_log c m) (unat i)"
    using assms(6) by (simp add: log_term_def)
  then have t: "take (unat i) (node_log c n) = take (unat i) (node_log c m)"
    using i by (intro anchored_agree_upto [OF log_invD(2) [OF inv assms(2)] log_invD(2) [OF inv assms(3)]])
  have le: "unat j \<le> unat i" using assms(7) by (simp add: word_le_nat_alt)
  have "node_log c n ! (unat j - 1) = node_log c m ! (unat j - 1)" if "j \<noteq> 0"
  proof -
    have "unat j - 1 < unat i" using le unat_pos_u64 [OF that] by linarith
    then show ?thesis using t by (metis nth_take)
  qed
  then show ?thesis using i le by (simp add: e)
qed

text \<open>
  C2: Log matching: in every cluster reachable over an asynchronous network, two nodes that have an entry of the
  same term at the same index have the same entries up to that index. (Proposals stop when the
  index range of \<open>u64\<close> is used up.)
\<close>

theorem log_matching:
  assumes "deployment V hos cfgs" and "roomy_reachable V (cluster_init hos nows cfgs) c"
    and "n \<in> V" "m \<in> V" "entry (storage (nodes c n)) i = Some x" "entry (storage (nodes c m)) i = Some y"
    and "le_term x = le_term y" "j \<le> i"
  shows "entry (storage (nodes c n)) j = entry (storage (nodes c m)) j"
  using roomy_inv [OF assms(1,2)] log_inv_matching [OF _ assms(3-8)] by blast

text \<open>Node 1 is elected, takes a proposal and replicates it to node 2.\<close>

fun rooms :: "('p, 'a) Cluster \<Rightarrow> (NodeId \<times> EngineInput) list \<Rightarrow> bool" where
  "rooms c [] = True"
| "rooms c ((n, i) # sched) = (has_room (nodes c n) i \<and> rooms (cluster_apply c n i) sched)"

lemma roomy_run:
  "roomy_reachable V c0 c \<Longrightarrow> cluster_run V c sched = Some c' \<Longrightarrow> rooms c sched \<Longrightarrow> roomy_reachable V c0 c'"
proof (induction sched arbitrary: c)
  case (Cons a sched)
  then show ?case by (cases a) (auto intro: roomy_reachable.step split: if_splits)
qed simp

definition demo_replication :: "(NodeId \<times> EngineInput) list" where
  "demo_replication = demo_election @
     [(1, InPropose [5]), (2, InRpc 1 (AppendEntries 1 1 0 0 [\<lparr>le_index = 1, le_term = 1, entry_type = Command [5]\<rparr>] 0) 23)]"

lemma demo_replication_run:
  "rooms demo_init demo_replication \<and> (case cluster_run {1, 2, 3} demo_init demo_replication of None \<Rightarrow> False
     | Some c \<Rightarrow> entry (storage (nodes c 1)) 1 = Some \<lparr>le_index = 1, le_term = 1, entry_type = Command [5]\<rparr> \<and>
         entry (storage (nodes c 2)) 1 = Some \<lparr>le_index = 1, le_term = 1, entry_type = Command [5]\<rparr>)"
  by (simp add: demo_replication_def demo_election_def demo_init_def cluster_init_def demo_config_def in_flight_def
      cluster_apply_def engine_eval fits_u64_def cong: let_weak_cong)

theorem log_matching_witness:
  "\<exists>c. roomy_reachable {1, 2, 3} demo_init c \<and> entry (storage (nodes c 1)) 1 = entry (storage (nodes c 2)) 1 \<and>
     entry (storage (nodes c 1)) 1 \<noteq> None"
proof -
  obtain c where c: "cluster_run {1, 2, 3} demo_init demo_replication = Some c"
      "entry (storage (nodes c 1)) 1 = Some \<lparr>le_index = 1, le_term = 1, entry_type = Command [5]\<rparr>"
      "entry (storage (nodes c 2)) 1 = Some \<lparr>le_index = 1, le_term = 1, entry_type = Command [5]\<rparr>"
    using demo_replication_run by (auto split: option.splits)
  have r: "roomy_reachable {1, 2, 3} demo_init c"
    using demo_replication_run by (blast intro: roomy_run [OF roomy_reachable.start c(1)])
  have "entry (storage (nodes c 1)) 1 = entry (storage (nodes c 2)) 1"
    by (rule log_matching [OF demo_deployment r [unfolded demo_init_def] _ _ c(2,3)]) simp_all
  with c r show ?thesis by auto
qed

end
