(* ===== verification/ClusterVotes.thy ===== *)
theory ClusterVotes
  imports ClusterLog
begin

text \<open>
  Leader completeness: what a majority has acknowledged in a term is in the log of every leader of a later
  term. This needs the voting rule, the append-only logs of leaders and the followers' merge, but not yet
  the way a leader counts acknowledgements.
\<close>

subsection \<open>The answers and requests of one call\<close>

text \<open>A successful answer is the answer to an AppendEntries that passed all checks.\<close>

lemma append_entries_answer:
  assumes "Send x (AppendEntriesResp t' True m) \<in> set (snd (handle_append_entries e s t l p pt es lc now))"
  shows "x = s \<and> t' = t \<and> m = p + of_nat (length es) \<and> engine_current_term e \<le> t \<and> prev_log_ok (storage e) p pt \<and>
    engine_current_term (fst (handle_append_entries e s t l p pt es lc now)) = t"
proof (cases "engine_current_term e \<le> t")
  case True
  show ?thesis
  proof (cases "prev_log_ok (storage e) p pt")
    case ok: True
    have "engine_current_term (fst (handle_append_entries e s t l p pt es lc now)) = t"
      using True ok by (simp add: append_entries_current Let_def case_prod_unfold engine_current_term_def)
    moreover have "x = s \<and> t' = t \<and> m = p + of_nat (length es)"
      using assms True ok
      by (auto simp: append_entries_current Let_def case_prod_unfold ae_notice_def dest!: advance_commit_action)
    ultimately show ?thesis using True ok by simp
  qed (use assms True in \<open>auto simp: append_entries_reject ae_notice_def\<close>)
next
  case False
  then show ?thesis using assms by (simp add: append_entries_stale)
qed

lemma answer_step:
  assumes "Send x (AppendEntriesResp t True m) \<in> set (snd (engine_apply e i))"
  obtains l p pt es lc now where "i = InRpc x (AppendEntries t l p pt es lc) now"
    "m = p + of_nat (length es)" "engine_current_term e \<le> t" "prev_log_ok (storage e) p pt"
    "engine_current_term (fst (engine_apply e i)) = t"
  using assms
proof (rule engine_apply_action_cases)
  fix s t' l p pt es lc now t'' ok m'
  assume i: "i = InRpc s (AppendEntries t' l p pt es lc) now"
  with assms have "Send x (AppendEntriesResp t True m) \<in> set (snd (handle_append_entries e s t' l p pt es lc now))"
    by simp
  from append_entries_answer [OF this] i show thesis by (intro that) auto
qed auto

text \<open>A vote is granted on a log that is at most as long as the candidate's.\<close>

lemma grant_log:
  assumes "Send x (RequestVoteResp t True) \<in> set (snd (engine_apply e i))"
  obtains cand li lt now where "i = InRpc x (RequestVote t cand li lt) now" "last_pos (storage e) \<le> LogPos lt li"
    "engine_log (fst (engine_apply e i)) = engine_log e" "engine_current_term (fst (engine_apply e i)) = t"
proof -
  from grant_step [OF assms] obtain cand li lt now where i: "i = InRpc x (RequestVote t cand li lt) now"
    and h: "engine_hard (fst (engine_apply e i)) = \<lparr>current_term = t, voted_for = Some cand\<rparr>" by blast
  from assms i have "grants_vote e t cand li lt" by (auto simp: handle_request_vote_spec split: if_splits)
  then show thesis using i h by (intro that [OF i]) (simp_all add: grants_vote_def handle_request_vote_spec engine_current_term_def)
qed

lemma broadcast_log:
  assumes "Broadcast (RequestVote t x li lt) \<in> set (snd (engine_apply e i))"
  shows "LogPos lt li = last_pos (storage (fst (engine_apply e i))) \<and>
    engine_current_term (fst (engine_apply e i)) = t \<and> t = engine_current_term e + 1 \<and>
    BecomeCandidate t \<in> set (snd (engine_apply e i))"
  using assms
proof (rule engine_apply_action_cases)
  fix now assume a: "i = InTick now" "fst (engine_apply e i) = fst (start_election e now)"
    "Broadcast (RequestVote t x li lt) \<in> set (snd (start_election e now))" "role e \<noteq> Leader"
  have "last_index_term (storage (fst (start_election e now))) = last_index_term (storage e)"
    by (rule last_index_term_entries) (simp add: start_election_def Let_def case_prod_unfold)
  moreover have "snd (engine_apply e i) = snd (start_election e now)"
  proof -
    have f: "fst (tick e now) = fst (start_election e now)" using a(2) unfolding a(1) engine_apply_fst .
    have "engine_current_term (fst (start_election e now)) \<noteq> engine_current_term e" by simp
    then have "storage (fst (tick e now)) \<noteq> storage e" unfolding f engine_current_term_def by metis
    then show ?thesis using tick_core [of e now] by (simp add: a(1) Let_def case_prod_unfold)
  qed
  ultimately show ?thesis using a by (simp add: last_pos_def case_prod_unfold Let_def)
qed auto


subsection \<open>Positions of logs\<close>

text \<open>The position the voting rule compares, as a function of the list.\<close>

definition log_pos :: "LogEntry list \<Rightarrow> LogPos" where
  "log_pos log = LogPos (log_term log (length log)) (of_nat (length log))"

lemma last_pos_log:
  assumes "storage_wf s"
  shows "last_pos s = log_pos (ms_entries s)"
proof (cases "ms_entries s" rule: rev_cases)
  case (snoc ys y)
  then have "unat (le_index y) = Suc (length ys)"
    using numbered_last [of "ms_entries s"] assms by (simp add: storage_wf_def)
  then have "le_index y = of_nat (Suc (length ys))" by (metis of_nat_unat_u64)
  moreover have "last_index_term s = (le_index y, le_term y)"
    using snoc by (cases ys) (simp_all add: last_index_term_def)
  ultimately show ?thesis using snoc by (simp add: last_pos_def log_pos_def log_term_def nth_append)
qed (simp add: last_pos_def last_index_term_def log_pos_def log_term_def)

lemma log_pos_le:
  assumes "length a < 2 ^ 64" "length b < 2 ^ 64"
  shows "log_pos a \<le> log_pos b \<longleftrightarrow> log_term a (length a) < log_term b (length b) \<or>
    log_term a (length a) = log_term b (length b) \<and> length a \<le> length b"
  using assms by (simp add: log_pos_def less_eq_LogPos_def word_le_nat_alt unat_of_nat_u64)

text \<open>
  The terms in a log do not decrease, and do not exceed the term of the leader that wrote it.
\<close>

definition terms_upto :: "Term \<Rightarrow> LogEntry list \<Rightarrow> bool" where
  "terms_upto t log \<longleftrightarrow> (\<forall>x \<in> set log. le_term x \<le> t)"

lemma terms_upto_simps [simp]:
  "terms_upto t []" "terms_upto t (log @ [x]) \<longleftrightarrow> terms_upto t log \<and> le_term x \<le> t"
  by (auto simp: terms_upto_def)

lemma terms_upto_mono: "terms_upto t log \<Longrightarrow> t \<le> u \<Longrightarrow> terms_upto u log"
  by (auto simp: terms_upto_def intro: order_trans)

lemma terms_upto_take: "terms_upto t log \<Longrightarrow> terms_upto t (take k log)"
  by (auto simp: terms_upto_def dest: in_set_takeD)

lemma terms_uptoD: "terms_upto t log \<Longrightarrow> k < length log \<Longrightarrow> le_term (log ! k) \<le> t"
  by (simp add: terms_upto_def)

lemma anchored_sorted:
  assumes "anchored tlog log" "\<And>t. terms_upto t (tlog t)" "j \<le> k" "k < length log"
  shows "le_term (log ! j) \<le> le_term (log ! k)"
proof -
  let ?t = "le_term (log ! k)"
  note a = anchoredD [OF assms(1,4)]
  have "log ! j = take (Suc k) log ! j" using assms(3) by simp
  also have "\<dots> = tlog ?t ! j" unfolding a(2) using assms(3) by simp
  finally show ?thesis using terms_uptoD [OF assms(2), of j ?t] a(1) assms(3) by simp
qed


lemma take_prefix_mono: "k \<le> m \<Longrightarrow> prefix (take k xs) (take m xs)"
  using take_is_prefix [of k "take m xs"] by (simp add: min_absorb1)

subsection \<open>What a node has acknowledged\<close>

definition elected :: "('p, 'a) Cluster \<Rightarrow> Term \<Rightarrow> bool" where
  "elected c t \<longleftrightarrow> (\<exists>n. (n, BecomeLeader t) \<in> history c)"

text \<open>
  \<open>own tlog t k\<close>: the \<open>k\<close>-th entry of the log of term \<open>t\<close> is of term \<open>t\<close>; only such entries are committed by
  counting. \<open>stored c v t k\<close>: \<open>v\<close> has acknowledged the first \<open>k\<close> entries of that log, or was the leader.
\<close>

definition own :: "(Term \<Rightarrow> LogEntry list) \<Rightarrow> Term \<Rightarrow> nat \<Rightarrow> bool" where
  "own tlog t k \<longleftrightarrow> 0 < k \<and> k \<le> length (tlog t) \<and> le_term (tlog t ! (k - 1)) = t"

definition stored :: "('p, 'a) Cluster \<Rightarrow> NodeId \<Rightarrow> Term \<Rightarrow> nat \<Rightarrow> bool" where
  "stored c v t k \<longleftrightarrow> (\<exists>x m. (v, Send x (AppendEntriesResp t True m)) \<in> history c \<and> k \<le> unat m) \<or>
     (v, BecomeLeader t) \<in> history c"

text \<open>A later leader in \<open>B\<close> does not have these entries (shown impossible for committed ones).\<close>

definition superseded :: "(Term \<Rightarrow> LogEntry list) \<Rightarrow> ('p, 'a) Cluster \<Rightarrow> Term \<Rightarrow> nat \<Rightarrow> Term set \<Rightarrow> bool" where
  "superseded tlog c t k B \<longleftrightarrow> (\<exists>u \<in> B. t < u \<and> elected c u \<and> \<not> prefix (take k (tlog t)) (tlog u))"

text \<open>Everything that \<open>v\<close> acknowledged in terms before \<open>b\<close> is in \<open>log\<close>, unless superseded.\<close>

definition kept :: "(Term \<Rightarrow> LogEntry list) \<Rightarrow> ('p, 'a) Cluster \<Rightarrow> NodeId \<Rightarrow> Term \<Rightarrow> Term set \<Rightarrow> LogEntry list \<Rightarrow> bool" where
  "kept tlog c v b B log \<longleftrightarrow> (\<forall>t k. t < b \<longrightarrow> stored c v t k \<longrightarrow> own tlog t k \<longrightarrow>
     prefix (take k (tlog t)) log \<or> superseded tlog c t k B)"

text \<open>A log that \<open>v\<close> could have had when it voted in term \<open>b\<close> for a candidate whose log ends at \<open>pos\<close>.\<close>

definition ballot :: "(Term \<Rightarrow> LogEntry list) \<Rightarrow> ('p, 'a) Cluster \<Rightarrow> NodeId \<Rightarrow> Term \<Rightarrow> Term set \<Rightarrow> LogPos \<Rightarrow> bool" where
  "ballot tlog c v b B pos \<longleftrightarrow> (\<exists>log. anchored tlog log \<and> length log < 2 ^ 64 \<and> log_pos log \<le> pos \<and> kept tlog c v b B log)"

subsection \<open>Steps\<close>

text \<open>How the logs of the terms move in one step.\<close>

definition tlog_ext :: "('p, 'a) Cluster \<Rightarrow> (Term \<Rightarrow> LogEntry list) \<Rightarrow> (Term \<Rightarrow> LogEntry list) \<Rightarrow> bool" where
  "tlog_ext c tlog tlog' \<longleftrightarrow> (\<forall>t. tlog' t = tlog t \<or> (\<exists>x. tlog' t = tlog t @ [x] \<and> le_term x = t) \<or> tlog t = [] \<and> \<not> elected c t)"

lemma tlog_ext_prefix: "tlog_ext c tlog tlog' \<Longrightarrow> prefix (tlog t) (tlog' t)"
  unfolding tlog_ext_def by (metis Nil_prefix prefixI prefix_order.refl)

lemma tlog_ext_own: "tlog_ext c tlog tlog' \<Longrightarrow> own tlog t k \<Longrightarrow> own tlog' t k \<and> take k (tlog' t) = take k (tlog t)"
  using tlog_ext_prefix [of c tlog tlog' t] by (auto simp: own_def prefix_def nth_append)

lemma superseded_step:
  assumes "superseded tlog c t k B" "own tlog t k" "tlog_ext c tlog tlog'" "history c \<subseteq> history c'" "B \<subseteq> B'"
  shows "superseded tlog' c' t k B'"
proof -
  let ?p = "take k (tlog t)"
  from assms(1) obtain u where u: "u \<in> B" "t < u" "elected c u" "\<not> prefix ?p (tlog u)"
    by (auto simp: superseded_def)
  have "\<not> prefix ?p (tlog' u)"
  proof
    assume p: "prefix ?p (tlog' u)"
    with u(3,4) obtain x where x: "tlog' u = tlog u @ [x]" "le_term x = u"
      using assms(3) unfolding tlog_ext_def by (metis (no_types))
    with p u(4) have "?p = tlog u @ [x]" by (auto simp: prefix_def append_eq_append_conv2 Cons_eq_append_conv append_eq_Cons_conv)
    then have "last ?p = x" by simp
    moreover have "last ?p = tlog t ! (k - 1)"
      using assms(2) by (cases k) (auto simp: own_def take_Suc_conv_app_nth)
    ultimately show False using x u(2) assms(2) by (auto simp: own_def)
  qed
  moreover have "elected c' u" using u(3) assms(4) by (auto simp: elected_def)
  moreover have "take k (tlog' t) = ?p" using tlog_ext_own [OF assms(3,2)] by simp
  ultimately show ?thesis using u(1,2) assms(5) unfolding superseded_def by auto
qed


text \<open>A step of the cluster in a state that satisfies the invariants so far.\<close>

definition good_step :: "NodeId set \<Rightarrow> (Term \<Rightarrow> LogEntry list) \<Rightarrow> ('p, 'a) Cluster \<Rightarrow> NodeId \<Rightarrow> EngineInput \<Rightarrow> bool" where
  "good_step V tlog c n i \<longleftrightarrow>
     log_inv V tlog c \<and> election_inv V c \<and> n \<in> V \<and> admissible c n i \<and> has_room (nodes c n) i"

lemma good_stepD:
  assumes "good_step V tlog c n i"
  shows "log_inv V tlog c" "election_inv V c" "n \<in> V" "admissible c n i" "has_room (nodes c n) i"
    "requests_ok V c" "static_ok V c" "votes_ok c" "elections_ok V c"
    "storage_wf (storage (nodes c n))" "Suc (length (node_log c n)) < 2 ^ 64"
proof -
  show "log_inv V tlog c" "election_inv V c" "n \<in> V" "admissible c n i" "has_room (nodes c n) i"
    using assms by (simp_all add: good_step_def)
  then show "requests_ok V c" "static_ok V c" "votes_ok c" "elections_ok V c" "storage_wf (storage (nodes c n))"
    using log_invD(3) by (auto simp: election_inv_def storage_wf_def)
  show "Suc (length (node_log c n)) < 2 ^ 64"
    using \<open>log_inv V tlog c\<close> \<open>n \<in> V\<close> by (blast intro: anchored_length log_invD)
qed

abbreviation stepped :: "('p, 'a) Cluster \<Rightarrow> NodeId \<Rightarrow> EngineInput \<Rightarrow> ('p, 'a) RaftEngine" where
  "stepped c n i \<equiv> fst (engine_apply (nodes c n) i)"

lemma history_step: "history c \<subseteq> history (cluster_apply c n i)"
  by (auto simp: cluster_apply_sel(2))

lemma term_step: "admissible c n i \<Longrightarrow> node_term c n \<le> engine_current_term (stepped c n i)"
  using admissible_hard [of c n i] by (auto simp: hs_le_def engine_current_term_def)

lemma node_term_step: "admissible c n i \<Longrightarrow> node_term c v \<le> node_term (cluster_apply c n i) v"
  using term_step [of c n i] by (simp add: cluster_apply_sel(1))

text \<open>What becomes of the log when an AppendEntries is accepted.\<close>

lemma accepted_log:
  assumes "good_step V tlog c n i" "i = InRpc s (AppendEntries t l p pt es lc) now"
    and "node_term c n \<le> t" "prev_log_ok (storage (nodes c n)) p pt"
  defines "sent \<equiv> take (unat p + length es) (tlog t)"
  shows "engine_log (stepped c n i) = (if prefix sent (node_log c n) then node_log c n else sent)"
    and "(s, Send n (AppendEntries t l p pt es lc)) \<in> history c"
    and "length sent = unat p + length es" "unat (p + of_nat (length es)) = unat p + length es"
    and "engine_current_term (stepped c n i) = t" "role (stepped c n i) = Follower"
proof -
  note g = good_stepD [OF assms(1)]
  show h: "(s, Send n (AppendEntries t l p pt es lc)) \<in> history c"
    using g(4) assms(2) by (auto intro: in_flight_append [OF g(6)])
  then have ok: "ae_ok tlog t p pt es" by (rule log_invD(4) [OF g(1)])
  note num = ae_ok_numbered [OF log_invD(1) [OF g(1)] ok]
  have "engine_log (stepped c n i) = merge_log (node_log c n) (unat p) es"
    using handle_append_entries_log [where e = "nodes c n" and t = t and p = p and pt = pt and es = es and s = s
      and l = l and lc = lc and now = now, OF g(10) num] assms(2-4) by simp
  moreover have "merge_log (node_log c n) (unat p) es =
      (if prefix sent (node_log c n) then node_log c n else sent)"
    unfolding sent_def
    using prev_log_ok_term [OF g(10) assms(4)] log_invD(2) [OF g(1,3)] tlogs_okD(1) [OF log_invD(1) [OF g(1)]] ok
    by (intro merge_anchored) auto
  ultimately show "engine_log (stepped c n i) = (if prefix sent (node_log c n) then node_log c n else sent)" by simp
  show len: "length sent = unat p + length es" using ok by (simp add: ae_ok_def sent_def)
  have "unat p + length es < 2 ^ 64"
    using ok tlogs_okD(3) [OF log_invD(1) [OF g(1)], of t] by (simp add: ae_ok_def)
  then show "unat (p + of_nat (length es)) = unat p + length es"
    by (subst unat_add_u64) (simp_all add: unat_of_nat_u64)
  show "engine_current_term (stepped c n i) = t" "role (stepped c n i) = Follower"
    using assms(2-4) by (simp_all add: append_entries_current Let_def case_prod_unfold engine_current_term_def)
qed

lemma step_log_cases:
  assumes "good_step V tlog c n i"
  obtains (same) "engine_log (stepped c n i) = node_log c n"
  | (append) x where "role (nodes c n) = Leader" "role (stepped c n i) = Leader"
      "engine_log (stepped c n i) = node_log c n @ [x]" "le_term x = node_term c n"
      "engine_current_term (stepped c n i) = node_term c n"
  | (merge) s t l p pt es lc now where "i = InRpc s (AppendEntries t l p pt es lc) now"
      "node_term c n \<le> t" "prev_log_ok (storage (nodes c n)) p pt"
proof -
  note g = good_stepD [OF assms]
  show thesis
  proof (rule engine_apply_log [of "nodes c n" i])
    fix data assume a: "i = InPropose data" "role (nodes c n) = Leader" "role (stepped c n i) = Leader"
      "engine_log (stepped c n i) = node_log c n @ [proposed (nodes c n) data]"
    moreover from a(3) have "engine_current_term (stepped c n i) = node_term c n"
      using leading_step [OF a(3)] by (simp add: engine_current_term_def)
    moreover have "le_term (proposed (nodes c n) data) = node_term c n" by (simp add: proposed_def)
    ultimately show thesis by (intro append)
  next
    fix s t l p pt es lc now assume i: "i = InRpc s (AppendEntries t l p pt es lc) now"
    then have "(s, Send n (AppendEntries t l p pt es lc)) \<in> history c"
      using g(4) by (auto intro: in_flight_append [OF g(6)])
    then show "numbered (unat p) es"
      by (rule ae_ok_numbered [OF log_invD(1) [OF g(1)] log_invD(4) [OF g(1)]])
  qed (use g same merge in auto)
qed

lemma tlog_step_ext:
  assumes "good_step V tlog c n i"
  shows "tlog_ext c tlog (tlog_step tlog (stepped c n i))"
proof -
  note g = good_stepD [OF assms]
  let ?e = "nodes c n" and ?e' = "stepped c n i"
  have "tlog t = [] \<and> \<not> elected c t \<or> engine_log ?e' = tlog t \<or> (\<exists>x. engine_log ?e' = tlog t @ [x] \<and> le_term x = t)"
    if r: "role ?e' = Leader" and t: "t = engine_current_term ?e'" for t
  proof (cases "role ?e = Leader")
    case True
    then have "node_log c n = tlog t"
      using log_invD(5) [OF g(1,3)] leading_step [OF r] t by (simp add: engine_current_term_def)
    then show ?thesis
      using assms by (rule_tac step_log_cases [OF assms]) (use t accepted_log(6) [OF assms] r in auto)
  next
    case False
    then have win: "BecomeLeader t \<in> set (snd (engine_apply ?e i))"
      using leading_step [OF r] t by (auto simp: engine_current_term_def)
    have "\<not> elected c t"
    proof
      assume "elected c t"
      then obtain m where m: "(m, BecomeLeader t) \<in> history c" by (auto simp: elected_def)
      have "m = n"
        using win m by (intro elected_unique [OF election_inv_apply [OF g(2-4)]]) (auto simp: cluster_apply_sel(2))
      moreover have "role ?e = Candidate" "t = node_term c n" using leader_step [OF win] by blast+
      ultimately show False using log_invD(8) [OF g(1) m] by simp
    qed
    moreover from this have "tlog t = []" using log_invD(6) [OF g(1)] by (auto simp: elected_def)
    ultimately show ?thesis by simp
  qed
  then show ?thesis by (auto simp: tlog_ext_def tlog_step_def)
qed


subsection \<open>The invariant of acknowledgements\<close>

definition ack_inv :: "NodeId set \<Rightarrow> (Term \<Rightarrow> LogEntry list) \<Rightarrow> ('p, 'a) Cluster \<Rightarrow> bool" where
  "ack_inv V tlog c \<longleftrightarrow> (\<forall>t. terms_upto t (tlog t)) \<and> (\<forall>v \<in> V. terms_upto (node_term c v) (node_log c v)) \<and>
     (\<forall>m q t l p pt es lc. (m, Send q (AppendEntries t l p pt es lc)) \<in> history c \<longrightarrow> (m, BecomeLeader t) \<in> history c) \<and>
     (\<forall>v x t m. (v, Send x (AppendEntriesResp t True m)) \<in> history c \<longrightarrow>
        unat m \<le> length (tlog t) \<and> t \<le> node_term c v) \<and>
     (\<forall>v \<in> V. \<forall>t k. stored c v t k \<longrightarrow> own tlog t k \<longrightarrow>
        prefix (take k (tlog t)) (node_log c v) \<or> superseded tlog c t k {..node_term c v})"

lemma ack_invD:
  assumes "ack_inv V tlog c"
  shows "terms_upto t (tlog t)" "v \<in> V \<Longrightarrow> terms_upto (node_term c v) (node_log c v)"
    "(m, Send q (AppendEntries t l p pt es lc)) \<in> history c \<Longrightarrow> (m, BecomeLeader t) \<in> history c"
    "(v, Send x (AppendEntriesResp t True i)) \<in> history c \<Longrightarrow> unat i \<le> length (tlog t)"
    "(v, Send x (AppendEntriesResp t True i)) \<in> history c \<Longrightarrow> t \<le> node_term c v"
    "v \<in> V \<Longrightarrow> stored c v t k \<Longrightarrow> own tlog t k \<Longrightarrow>
      prefix (take k (tlog t)) (node_log c v) \<or> superseded tlog c t k {..node_term c v}"
  using assms unfolding ack_inv_def by blast+

lemma ack_inv_init: "ack_inv V (\<lambda>t. []) (cluster_init hos nows cfgs)"
  by (simp add: ack_inv_def cluster_init_def engine_new_def MemoryStorage_new_def stored_def)

lemma elected_leader:
  assumes "election_inv V c" "m \<in> V" "role (nodes c m) = Leader"
  shows "(m, BecomeLeader (node_term c m)) \<in> history c"
  using assms by (auto simp: election_inv_def elections_ok_def)

lemma step_elected_leader:
  assumes "good_step V tlog c n i" "role (stepped c n i) = Leader"
  shows "(n, BecomeLeader (engine_current_term (stepped c n i))) \<in> history (cluster_apply c n i)"
  using elected_leader [of V "cluster_apply c n i" n] election_inv_apply [of V c n i] good_stepD [OF assms(1)] assms(2)
  by (simp add: cluster_apply_sel(1))

lemma step_terms:
  assumes "good_step V tlog c n i" "ack_inv V tlog c"
  shows "terms_upto (engine_current_term (stepped c n i)) (engine_log (stepped c n i))"
proof -
  note g = good_stepD [OF assms(1)] and old = ack_invD [OF assms(2)]
  have e: "terms_upto (engine_current_term (stepped c n i)) (node_log c n)"
    using old(2) [OF g(3)] term_step [OF g(4)] by (rule terms_upto_mono)
  show ?thesis
  proof (rule step_log_cases [OF assms(1)])
    fix s t l p pt es lc now
    assume a: "i = InRpc s (AppendEntries t l p pt es lc) now" "node_term c n \<le> t" "prev_log_ok (storage (nodes c n)) p pt"
    from accepted_log(1,5) [OF assms(1) this] show ?thesis using e old(1) by (auto intro: terms_upto_take)
  qed (use e term_step [OF g(4)] in auto)
qed

lemma step_tlog_terms:
  assumes "good_step V tlog c n i" "ack_inv V tlog c"
  shows "terms_upto t (tlog_step tlog (stepped c n i) t)"
  using step_terms [OF assms] ack_invD(1) [OF assms(2)] by (simp add: tlog_step_def)

text \<open>A message or an election that is new in a step comes from the node that moved.\<close>

lemma new_action: "(m, a) \<in> history (cluster_apply c n i) \<Longrightarrow> (m, a) \<in> history c \<or>
    m = n \<and> a \<in> set (snd (engine_apply (nodes c n) i))"
  by (auto simp: cluster_apply_sel(2))

lemma step_answers:
  assumes "good_step V tlog c n i" "Send x (AppendEntriesResp t True m) \<in> set (snd (engine_apply (nodes c n) i))"
  shows "unat m \<le> length (tlog t)" "engine_current_term (stepped c n i) = t"
    "prefix (take (unat m) (tlog t)) (engine_log (stepped c n i))"
proof -
  from answer_step [OF assms(2)] obtain l p pt es lc now where
    a: "i = InRpc x (AppendEntries t l p pt es lc) now" "node_term c n \<le> t" "prev_log_ok (storage (nodes c n)) p pt"
    and m: "m = p + of_nat (length es)" by metis
  note acc = accepted_log [OF assms(1) a]
  show "engine_current_term (stepped c n i) = t" by (rule acc(5))
  show "unat m \<le> length (tlog t)" using acc(3,4) by (simp add: m)
  show "prefix (take (unat m) (tlog t)) (engine_log (stepped c n i))" using acc(1,4) by (simp add: m)
qed

lemma stored_new:
  assumes "good_step V tlog c n i" "ack_inv V tlog c"
  defines "c' \<equiv> cluster_apply c n i" and "tlog' \<equiv> tlog_step tlog (stepped c n i)"
  assumes "stored c' v t k" "own tlog' t k"
  shows "stored c v t k \<and> own tlog t k \<or>
    v = n \<and> t = node_term c' n \<and> prefix (take k (tlog' t)) (node_log c' n)"
proof -
  note g = good_stepD [OF assms(1)]
  have ext: "tlog_ext c tlog tlog'" unfolding tlog'_def by (rule tlog_step_ext [OF assms(1)])
  have node: "nodes c' n = stepped c n i" by (simp add: c'_def cluster_apply_sel)
  have old_own: "own tlog t k" if "k \<le> length (tlog t)"
    using assms(6) that tlog_ext_prefix [OF ext, of t] by (cases k) (auto simp: own_def prefix_def nth_append)
  have lead: "k \<le> length (tlog t) \<or> t = node_term c' n \<and> role (nodes c' n) = Leader"
    using assms(6) by (auto simp: tlog'_def tlog_step_def own_def node split: if_splits)
  from assms(5) [unfolded stored_def] show ?thesis
  proof (elim disjE exE conjE)
    fix x m assume h: "(v, Send x (AppendEntriesResp t True m)) \<in> history c'" and km: "k \<le> unat m"
    from new_action [OF h [unfolded c'_def]] show ?thesis
    proof (elim disjE conjE)
      assume h: "(v, Send x (AppendEntriesResp t True m)) \<in> history c"
      with km have "k \<le> length (tlog t)" using ack_invD(4) [OF assms(2) h] by simp
      then show ?thesis using h km old_own by (auto simp: stored_def)
    next
      assume v: "v = n" and a: "Send x (AppendEntriesResp t True m) \<in> set (snd (engine_apply (nodes c n) i))"
      note s = step_answers [OF assms(1) a]
      have "own tlog t k" using km s(1) by (intro old_own) simp
      then have "take k (tlog' t) = take k (tlog t)" using tlog_ext_own [OF ext] by blast
      moreover have "prefix (take k (tlog t)) (take (unat m) (tlog t))"
        using km by (rule take_prefix_mono)
      ultimately show ?thesis using s(2,3) v by (auto simp: node)
    qed
  next
    assume h: "(v, BecomeLeader t) \<in> history c'"
    show ?thesis
    proof (cases "t = node_term c' n \<and> role (nodes c' n) = Leader")
      case True
      then have "(n, BecomeLeader t) \<in> history c'" using step_elected_leader [OF assms(1)] by (simp add: node) (simp add: c'_def)
      with h have "v = n" using elected_unique [OF election_inv_apply [OF g(2-4)]] by (simp add: c'_def)
      moreover have "tlog' t = node_log c' n" using True by (simp add: tlog'_def tlog_step_def node)
      ultimately show ?thesis using True by (simp add: take_is_prefix)
    next
      case False
      then have own: "own tlog t k" using lead old_own by blast
      from False have "BecomeLeader t \<notin> set (snd (engine_apply (nodes c n) i))"
        using leader_step [of t "nodes c n" i] by (auto simp: node engine_current_term_def)
      with h have "(v, BecomeLeader t) \<in> history c" by (auto simp: c'_def cluster_apply_sel(2))
      then show ?thesis using own by (auto simp: stored_def)
    qed
  qed
qed


lemma stored_term: "log_inv V tlog c \<Longrightarrow> ack_inv V tlog c \<Longrightarrow> stored c v t k \<Longrightarrow> t \<le> node_term c v"
  by (auto simp: stored_def dest: log_invD(7) ack_invD(5))

lemma step_kept:
  assumes "good_step V tlog c n i" "ack_inv V tlog c" "stored c n t k" "own tlog t k"
  defines "e' \<equiv> stepped c n i"
  shows "prefix (take k (tlog t)) (engine_log e') \<or> superseded tlog c t k {..engine_current_term e'}"
proof -
  note g = good_stepD [OF assms(1)]
  have mono: "node_term c n \<le> engine_current_term e'" unfolding e'_def by (rule term_step [OF g(4)])
  from ack_invD(6) [OF assms(2) g(3) assms(3,4)] show ?thesis
  proof
    assume "superseded tlog c t k {..node_term c n}"
    then show ?thesis using mono by (auto simp: superseded_def)
  next
    assume pre: "prefix (take k (tlog t)) (node_log c n)"
    show ?thesis unfolding e'_def
    proof (rule step_log_cases [OF assms(1)])
      fix s u l p pt es lc now
      assume a: "i = InRpc s (AppendEntries u l p pt es lc) now" "node_term c n \<le> u" "prev_log_ok (storage (nodes c n)) p pt"
      note acc = accepted_log [OF assms(1) a]
      let ?sent = "take (unat p + length es) (tlog u)"
      have leader: "elected c u" using ack_invD(3) [OF assms(2) acc(2)] by (auto simp: elected_def)
      have tu: "t \<le> u" using stored_term [OF g(1) assms(2,3)] a(2) by (rule order_trans)
      show "prefix (take k (tlog t)) (engine_log (stepped c n i)) \<or>
          superseded tlog c t k {..engine_current_term (stepped c n i)}"
      proof (cases "prefix (take k (tlog t)) (tlog u)")
        case True
        have "prefix (take k (tlog t)) ?sent" if "\<not> prefix ?sent (node_log c n)"
        proof -
          have "prefix (take k (tlog t)) ?sent \<or> prefix ?sent (take k (tlog t))"
            using True take_is_prefix by (rule prefix_same_cases)
          then show ?thesis using that pre prefix_order.trans by blast
        qed
        then show ?thesis using pre by (simp add: acc(1))
      next
        case False
        then have "t \<noteq> u" by (auto simp: take_is_prefix)
        with tu False leader show ?thesis by (auto simp: superseded_def acc(5))
      qed
    qed (use pre in auto)
  qed
qed

lemma ack_inv_apply:
  assumes "good_step V tlog c n i" "ack_inv V tlog c"
  shows "ack_inv V (tlog_step tlog (stepped c n i)) (cluster_apply c n i)"
proof -
  note g = good_stepD [OF assms(1)]
  let ?c = "cluster_apply c n i" and ?e = "stepped c n i"
  let ?tl = "tlog_step tlog ?e"
  have ext: "tlog_ext c tlog ?tl" by (rule tlog_step_ext [OF assms(1)])
  have node: "nodes ?c m = (if m = n then ?e else nodes c m)" for m by (simp add: cluster_apply_sel)
  have terms: "terms_upto (node_term ?c v) (node_log ?c v)" if "v \<in> V" for v
    using step_terms [OF assms] ack_invD(2) [OF assms(2) that] by (simp add: node)
  have sent: "(m, BecomeLeader t) \<in> history ?c" if "(m, Send q (AppendEntries t l p pt es lc)) \<in> history ?c"
    for m q t l p pt es lc
    using new_action [OF that]
  proof
    assume "(m, Send q (AppendEntries t l p pt es lc)) \<in> history c"
    then show ?thesis using ack_invD(3) [OF assms(2)] history_step by blast
  next
    assume "m = n \<and> Send q (AppendEntries t l p pt es lc) \<in> set (snd (engine_apply (nodes c n) i))"
    moreover from this have "role ?e = Leader" "t = engine_current_term ?e"
      using append_entries_sent [of "Send q (AppendEntries t l p pt es lc)" "nodes c n" i]
      by (auto simp: is_append_entries_def ae_content_def engine_current_term_def)
    ultimately show ?thesis using step_elected_leader [OF assms(1)] by simp
  qed
  have answers: "unat j \<le> length (?tl t) \<and> t \<le> node_term ?c v"
    if "(v, Send x (AppendEntriesResp t True j)) \<in> history ?c" for v x t j
    using new_action [OF that]
  proof
    assume h: "(v, Send x (AppendEntriesResp t True j)) \<in> history c"
    show ?thesis
      using ack_invD(4,5) [OF assms(2) h] prefix_length_le [OF tlog_ext_prefix [OF ext, of t]]
        node_term_step [OF g(4), of v] by (meson order_trans)
  next
    assume h: "v = n \<and> Send x (AppendEntriesResp t True j) \<in> set (snd (engine_apply (nodes c n) i))"
    then show ?thesis
      using step_answers(1,2) [OF assms(1)] prefix_length_le [OF tlog_ext_prefix [OF ext, of t]] 
      by (auto simp: node intro: order_trans)
  qed
  have keeps: "prefix (take k (?tl t)) (node_log ?c v) \<or> superseded ?tl ?c t k {..node_term ?c v}"
    if v: "v \<in> V" "stored ?c v t k" "own ?tl t k" for v t k
    using stored_new [OF assms v(2,3)]
  proof
    assume s: "stored c v t k \<and> own tlog t k"
    then have "prefix (take k (tlog t)) (node_log ?c v) \<or> superseded tlog c t k {..node_term ?c v}"
      using step_kept [OF assms] ack_invD(6) [OF assms(2) v(1)] by (auto simp: node)
    then show ?thesis
      using s tlog_ext_own [OF ext] superseded_step [OF _ _ ext history_step order_refl] by metis
  qed blast
  show ?thesis
    unfolding ack_inv_def using step_tlog_terms [OF assms] terms sent answers keeps by blast
qed


subsection \<open>The invariant of ballots\<close>

definition ballot_inv :: "NodeId set \<Rightarrow> (Term \<Rightarrow> LogEntry list) \<Rightarrow> ('p, 'a) Cluster \<Rightarrow> bool" where
  "ballot_inv V tlog c \<longleftrightarrow>
     (\<forall>n \<in> V. role (nodes c n) = Candidate \<longrightarrow>
        (\<forall>v \<in> votes (nodes c n). ballot tlog c v (node_term c n) {..node_term c n} (log_pos (node_log c n)))) \<and>
     (\<forall>n t li lt. (n, Broadcast (RequestVote t n li lt)) \<in> history c \<longrightarrow> t \<le> node_term c n \<and>
        (t = node_term c n \<longrightarrow> role (nodes c n) = Candidate \<longrightarrow> LogPos lt li = log_pos (node_log c n))) \<and>
     (\<forall>v n t. (v, Send n (RequestVoteResp t True)) \<in> history c \<longrightarrow>
        (\<exists>li lt. (n, Broadcast (RequestVote t n li lt)) \<in> history c \<and> ballot tlog c v t {..t} (LogPos lt li))) \<and>
     (\<forall>n t. (n, BecomeLeader t) \<in> history c \<longrightarrow>
        (\<exists>Q log. majority_of (voter_membership V) Q \<and> prefix log (tlog t) \<and> (\<forall>x \<in> set log. le_term x < t) \<and>
          (\<forall>v \<in> Q. voted c v n t \<and> ballot tlog c v t {..<t} (log_pos log))))"

lemma ballot_invD:
  assumes "ballot_inv V tlog c"
  shows "n \<in> V \<Longrightarrow> role (nodes c n) = Candidate \<Longrightarrow> v \<in> votes (nodes c n) \<Longrightarrow>
      ballot tlog c v (node_term c n) {..node_term c n} (log_pos (node_log c n))"
    "(n, Broadcast (RequestVote t n li lt)) \<in> history c \<Longrightarrow> t \<le> node_term c n"
    "(n, Broadcast (RequestVote t n li lt)) \<in> history c \<Longrightarrow> t = node_term c n \<Longrightarrow> role (nodes c n) = Candidate \<Longrightarrow>
      LogPos lt li = log_pos (node_log c n)"
    "(v, Send n (RequestVoteResp t True)) \<in> history c \<Longrightarrow>
      \<exists>li lt. (n, Broadcast (RequestVote t n li lt)) \<in> history c \<and> ballot tlog c v t {..t} (LogPos lt li)"
    "(n, BecomeLeader t) \<in> history c \<Longrightarrow>
      \<exists>Q log. majority_of (voter_membership V) Q \<and> prefix log (tlog t) \<and> (\<forall>x \<in> set log. le_term x < t) \<and>
        (\<forall>v \<in> Q. voted c v n t \<and> ballot tlog c v t {..<t} (log_pos log))"
  using assms unfolding ballot_inv_def by blast+

lemma ballot_inv_init: "ballot_inv V (\<lambda>t. []) (cluster_init hos nows cfgs)"
  by (simp add: ballot_inv_def cluster_init_def engine_new_def)

lemma voted_term: "votes_ok c \<Longrightarrow> voted c v x t \<Longrightarrow> t \<le> node_term c v"
  unfolding votes_ok_def hs_le_def engine_current_term_def by fastforce

lemma ballot_step:
  assumes "good_step V tlog c n i" "ack_inv V tlog c" "ballot tlog c v b B pos" "b \<le> node_term c v"
  shows "ballot (tlog_step tlog (stepped c n i)) (cluster_apply c n i) v b B pos"
proof -
  let ?tl = "tlog_step tlog (stepped c n i)" and ?c = "cluster_apply c n i"
  have ext: "tlog_ext c tlog ?tl" by (rule tlog_step_ext [OF assms(1)])
  have b: "b \<le> node_term ?c v" using assms(4) node_term_step [OF good_stepD(4) [OF assms(1)]] by (rule order_trans)
  from assms(3) obtain log where log: "anchored tlog log" "length log < 2 ^ 64" "log_pos log \<le> pos" "kept tlog c v b B log"
    by (auto simp: ballot_def)
  have "prefix (take k (?tl t)) log \<or> superseded ?tl ?c t k B"
    if a: "t < b" "stored ?c v t k" "own ?tl t k" for t k
    using stored_new [OF assms(1,2) a(2,3)]
  proof (elim disjE conjE)
    assume s: "stored c v t k" "own tlog t k"
    then have "prefix (take k (tlog t)) log \<or> superseded tlog c t k B" using log(4) a(1) by (simp add: kept_def)
    then show ?thesis
      using s tlog_ext_own [OF ext] superseded_step [OF _ _ ext history_step order_refl] by metis
  next
    assume "v = n" "t = node_term ?c n"
    with a(1) b show ?thesis by simp
  qed
  then have "kept ?tl ?c v b B log" by (simp add: kept_def)
  moreover have "anchored ?tl log" by (rule anchored_mono [OF log(1) tlog_ext_prefix [OF ext]])
  ultimately show ?thesis using log(2,3) by (auto simp: ballot_def)
qed

text \<open>The node that moves could vote on its log.\<close>

lemma ballot_now:
  assumes "good_step V tlog c n i" "ack_inv V tlog c" "log_pos (engine_log (stepped c n i)) \<le> pos"
  defines "c' \<equiv> cluster_apply c n i"
  shows "ballot (tlog_step tlog (stepped c n i)) c' n (node_term c' n) {..node_term c' n} pos"
proof -
  note log = tlog_step_log [OF good_stepD(1-5) [OF assms(1)]]
  have "kept (tlog_step tlog (stepped c n i)) c' n (node_term c' n) {..node_term c' n} (node_log c' n)"
    using ack_invD(6) [OF ack_inv_apply [OF assms(1,2)] good_stepD(3) [OF assms(1)]]
    by (simp add: kept_def c'_def)
  moreover have "node_log c' n = engine_log (stepped c n i)" by (simp add: c'_def cluster_apply_sel)
  ultimately show ?thesis using log assms(3) unfolding ballot_def by (intro exI [of _ "engine_log (stepped c n i)"]) simp
qed

lemma step_wf:
  assumes "good_step V tlog c n i"
  shows "storage_wf (storage (stepped c n i))"
  using tlog_step_log [OF good_stepD(1-5) [OF assms]] by (simp add: storage_wf_def)

lemma candidate_log:
  assumes "good_step V tlog c n i" "role (stepped c n i) = Candidate"
  shows "engine_log (stepped c n i) = node_log c n"
  by (rule step_log_cases [OF assms(1)]) (use assms accepted_log(6) [OF assms(1)] in auto)

lemma step_candidates:
  assumes "good_step V tlog c n i" "ack_inv V tlog c" "ballot_inv V tlog c" "role (stepped c n i) = Candidate"
    and "v \<in> votes (stepped c n i)"
  defines "c' \<equiv> cluster_apply c n i"
  shows "ballot (tlog_step tlog (stepped c n i)) c' v (node_term c' n) {..node_term c' n} (log_pos (node_log c' n))"
proof -
  note g = good_stepD [OF assms(1)]
  have node: "nodes c' n = stepped c n i" by (simp add: c'_def cluster_apply_sel)
  have log: "node_log c' n = node_log c n" using candidate_log [OF assms(1,4)] by (simp add: node)
  have old: "ballot (tlog_step tlog (stepped c n i)) c' v (node_term c' n) {..node_term c' n} (log_pos (node_log c' n))"
    if v: "role (nodes c n) = Candidate" "engine_hard (stepped c n i) = engine_hard (nodes c n)" "v \<in> votes (nodes c n)"
  proof -
    have t: "node_term c' n = node_term c n" using v(2) by (simp add: node engine_current_term_def)
    have "voted c v n (node_term c n)" using g(3,9) v by (auto simp: elections_ok_def)
    then show ?thesis
      using ballot_step [OF assms(1,2) ballot_invD(1) [OF assms(3) g(3) v(1,3)]] voted_term [OF g(8)]
      by (simp add: t log) (simp add: c'_def)
  qed
  from candidate_step [OF assms(4)] show ?thesis
  proof (elim disjE conjE exE)
    assume "votes (stepped c n i) = {cfg_node_id (config (nodes c n))}"
    then have "v = n" using assms(5) g(3,7) by (simp add: static_ok_def)
    then show ?thesis using ballot_now [OF assms(1,2) order_refl] by (simp add: c'_def cluster_apply_sel)
  next
    assume "role (nodes c n) = Candidate" "engine_hard (stepped c n i) = engine_hard (nodes c n)"
      "votes (stepped c n i) = votes (nodes c n)"
    with assms(5) show ?thesis by (intro old) simp_all
  next
    fix s now assume r: "role (nodes c n) = Candidate" "engine_hard (stepped c n i) = engine_hard (nodes c n)"
      and i: "i = InRpc s (RequestVoteResp (node_term c n) True) now"
      and vs: "votes (stepped c n i) = insert s (votes (nodes c n))"
    have t: "node_term c' n = node_term c n" using r(2) by (simp add: node engine_current_term_def)
    show ?thesis
    proof (cases "v \<in> votes (nodes c n)")
      case False
      then have v: "v = s" using vs assms(5) by simp
      have h: "(s, Send n (RequestVoteResp (node_term c n) True)) \<in> history c"
        using g(4,6) i by (auto simp: in_flight_def requests_ok_def)
      then have "voted c s n (node_term c n)" by (simp add: voted_def)
      moreover from ballot_invD(4) [OF assms(3) h] ballot_invD(3) [OF assms(3) _ refl r(1)]
      have "ballot tlog c s (node_term c n) {..node_term c n} (log_pos (node_log c n))" by force
      ultimately show ?thesis
        using ballot_step [OF assms(1,2)] voted_term [OF g(8)] by (simp add: t log v) (simp add: c'_def)
    qed (use r old in blast)
  qed
qed


lemma step_requests:
  assumes "good_step V tlog c n i" "ballot_inv V tlog c"
  defines "c' \<equiv> cluster_apply c n i"
  assumes "(m, Broadcast (RequestVote t m li lt)) \<in> history c'"
  shows "t \<le> node_term c' m \<and>
    (t = node_term c' m \<longrightarrow> role (nodes c' m) = Candidate \<longrightarrow> LogPos lt li = log_pos (node_log c' m))"
proof -
  note g = good_stepD [OF assms(1)]
  have node: "nodes c' k = (if k = n then stepped c n i else nodes c k)" for k by (simp add: c'_def cluster_apply_sel)
  from new_action [OF assms(4) [unfolded c'_def]] show ?thesis
  proof
    assume h: "(m, Broadcast (RequestVote t m li lt)) \<in> history c"
    note old = ballot_invD(2) [OF assms(2) h] ballot_invD(3) [OF assms(2) h]
    have "t \<le> node_term c' m" using old(1) node_term_step [OF g(4), of m] unfolding c'_def by (rule order_trans)
    moreover have "LogPos lt li = log_pos (node_log c' m)"
      if r: "m = n" "t = node_term c' n" "role (stepped c n i) = Candidate"
    proof -
      have same: "role (nodes c n) = Candidate \<and> engine_hard (stepped c n i) = engine_hard (nodes c n)"
      proof (rule ccontr)
        assume "\<not> ?thesis"
        then have "BecomeCandidate (node_term c' n) \<in> set (snd (engine_apply (nodes c n) i))"
          using candidate_step [OF r(3)] by (auto simp: node)
        from candidacy_step [OF this] g(4) have "t = node_term c n + 1" "node_term c n \<noteq> - 1" by (auto simp: r(2))
        then show False using old(1) term_not_max [of "nodes c n"] by (simp add: r(1))
      qed
      then have "node_term c' n = node_term c n" by (simp add: node engine_current_term_def)
      then show ?thesis using old(2) r same candidate_log [OF assms(1) r(3)] by (simp add: node)
    qed
    ultimately show ?thesis using old(2) by (auto simp: node)
  next
    assume "m = n \<and> Broadcast (RequestVote t m li lt) \<in> set (snd (engine_apply (nodes c n) i))"
    then show ?thesis using broadcast_log [of t m li lt "nodes c n" i] last_pos_log [OF step_wf [OF assms(1)]]
      by (auto simp: node)
  qed
qed

lemma step_grants:
  assumes "good_step V tlog c n i" "ack_inv V tlog c" "ballot_inv V tlog c"
  defines "c' \<equiv> cluster_apply c n i"
  assumes "(v, Send x (RequestVoteResp t True)) \<in> history c'"
  shows "\<exists>li lt. (x, Broadcast (RequestVote t x li lt)) \<in> history c' \<and>
    ballot (tlog_step tlog (stepped c n i)) c' v t {..t} (LogPos lt li)"
proof -
  note g = good_stepD [OF assms(1)]
  have sub: "history c \<subseteq> history c'" unfolding c'_def by (rule history_step)
  from new_action [OF assms(5) [unfolded c'_def]] show ?thesis
  proof
    assume h: "(v, Send x (RequestVoteResp t True)) \<in> history c"
    then have "t \<le> node_term c v" by (intro voted_term [OF g(8), of v x]) (simp add: voted_def)
    then show ?thesis
      using ballot_invD(4) [OF assms(3) h] ballot_step [OF assms(1,2)] sub unfolding c'_def by blast
  next
    assume a: "v = n \<and> Send x (RequestVoteResp t True) \<in> set (snd (engine_apply (nodes c n) i))"
    then have "Send x (RequestVoteResp t True) \<in> set (snd (engine_apply (nodes c n) i))" by simp
    from grant_log [OF this] obtain cand li lt now where i: "i = InRpc x (RequestVote t cand li lt) now"
      and pos: "last_pos (storage (nodes c n)) \<le> LogPos lt li" and log: "engine_log (stepped c n i) = node_log c n"
      and t: "engine_current_term (stepped c n i) = t" by metis
    from i g(4,6) have "(x, Broadcast (RequestVote t x li lt)) \<in> history c"
      by (auto simp: in_flight_def requests_ok_def dest: in_flight_request [OF g(6)])
    moreover have "log_pos (engine_log (stepped c n i)) \<le> LogPos lt li"
      using pos last_pos_log [OF g(10)] by (simp add: log)
    then have "ballot (tlog_step tlog (stepped c n i)) c' v t {..t} (LogPos lt li)"
      using ballot_now [OF assms(1,2)] t a by (simp add: c'_def cluster_apply_sel(1))
    ultimately show ?thesis using sub by blast
  qed
qed

text \<open>A won election: nobody can have been elected in the term before.\<close>

lemma step_won:
  assumes "good_step V tlog c n i" "BecomeLeader t \<in> set (snd (engine_apply (nodes c n) i))"
  shows "\<not> elected c t" "tlog t = []" "tlog_step tlog (stepped c n i) t = node_log c n"
proof -
  note g = good_stepD [OF assms(1)]
  have l: "role (nodes c n) = Candidate" "t = node_term c n"
    "role (stepped c n i) = Leader" "engine_current_term (stepped c n i) = t" "engine_log (stepped c n i) = node_log c n"
    using leader_step [OF assms(2)] by (auto simp: engine_current_term_def)
  show "\<not> elected c t"
  proof
    assume "elected c t"
    then obtain m where m: "(m, BecomeLeader t) \<in> history c" by (auto simp: elected_def)
    have "m = n"
      using assms(2) m by (intro elected_unique [OF election_inv_apply [OF g(2-4)]]) (auto simp: cluster_apply_sel(2))
    then show False using log_invD(8) [OF g(1) m] l(1,2) by simp
  qed
  then show "tlog t = []" using log_invD(6) [OF g(1)] by (auto simp: elected_def)
  show "tlog_step tlog (stepped c n i) t = node_log c n" using l by (simp add: tlog_step_def)
qed

lemma ballot_strict:
  assumes "ballot tlog c v t {..t} pos" "\<not> elected c t"
  shows "ballot tlog c v t {..<t} pos"
proof -
  have "superseded tlog c u k {..t} \<Longrightarrow> superseded tlog c u k {..<t}" for u k
    using assms(2) unfolding superseded_def by (metis atMost_iff lessThan_iff order_le_less)
  then show ?thesis using assms(1) unfolding ballot_def kept_def by blast
qed

lemma step_elections:
  assumes "good_step V tlog c n i" "ack_inv V tlog c" "ballot_inv V tlog c"
  defines "c' \<equiv> cluster_apply c n i" and "tlog' \<equiv> tlog_step tlog (stepped c n i)"
  assumes "(m, BecomeLeader t) \<in> history c'"
  shows "\<exists>Q log. majority_of (voter_membership V) Q \<and> prefix log (tlog' t) \<and> (\<forall>x \<in> set log. le_term x < t) \<and>
    (\<forall>v \<in> Q. voted c' v m t \<and> ballot tlog' c' v t {..<t} (log_pos log))"
proof -
  note g = good_stepD [OF assms(1)]
  have keep: "voted c' v m t \<and> ballot tlog' c' v t {..<t} pos" if "voted c v m t" "ballot tlog c v t {..<t} pos" for v pos
    using ballot_step [OF assms(1,2) that(2) voted_term [OF g(8) that(1)]] voted_mono [OF that(1)]
    by (simp add: c'_def tlog'_def)
  from new_action [OF assms(6) [unfolded c'_def]] show ?thesis
  proof
    assume h: "(m, BecomeLeader t) \<in> history c"
    have "prefix (tlog t) (tlog' t)" unfolding tlog'_def by (rule tlog_ext_prefix [OF tlog_step_ext [OF assms(1)]])
    then show ?thesis
      using ballot_invD(5) [OF assms(3) h] keep by (meson prefix_order.trans)
  next
    assume "m = n \<and> BecomeLeader t \<in> set (snd (engine_apply (nodes c n) i))"
    then have m: "m = n" and win: "BecomeLeader t \<in> set (snd (engine_apply (nodes c n) i))" by simp_all
    note won = step_won [OF assms(1) win]
    from leader_step [OF win] obtain s now where i: "i = InRpc s (RequestVoteResp t True) now"
      and r: "t = node_term c n" "role (nodes c n) = Candidate"
      and q: "quorum (membership (nodes c n)) \<le> card (insert s (votes (nodes c n)))" by blast
    let ?Q = "insert s (votes (nodes c n))"
    have h: "(s, Send n (RequestVoteResp t True)) \<in> history c"
      using g(4,6) i by (auto simp: in_flight_def requests_ok_def)
    have new: "s \<in> V" "voted c s n t" using h g(6) by (auto simp: requests_ok_def voted_def)
    have cand: "votes (nodes c n) \<subseteq> V" "v \<in> votes (nodes c n) \<Longrightarrow> voted c v n t" for v
      using g(3,9) r by (auto simp: elections_ok_def)
    from new(1) cand(1) have "majority_of (voter_membership V) ?Q"
      by (intro static_ok_majority [OF g(7,3) _ q]) simp
    moreover have "voted c v n t \<and> ballot tlog c v t {..<t} (log_pos (node_log c n))" if v: "v \<in> ?Q" for v
    proof -
      have "ballot tlog c v t {..t} (log_pos (node_log c n))"
      proof (cases "v = s")
        case True
        from ballot_invD(4) [OF assms(3) h] ballot_invD(3) [OF assms(3) _ r(1,2)] True show ?thesis by force
      next
        case False
        then show ?thesis using ballot_invD(1) [OF assms(3) g(3) r(2)] v r(1) by simp
      qed
      then show ?thesis using ballot_strict won(1) v new(2) cand(2) by blast
    qed
    moreover have "le_term x < t" if "x \<in> set (node_log c n)" for x
    proof -
      from that obtain k where k: "k < length (node_log c n)" "x = node_log c n ! k" by (auto simp: in_set_conv_nth)
      then have "le_term x \<noteq> t" using anchoredD(1) [OF log_invD(2) [OF g(1,3)] k(1)] won(2) by auto
      moreover have "le_term x \<le> t" using terms_uptoD [OF ack_invD(2) [OF assms(2) g(3)] k(1)] r(1) k(2) by simp
      ultimately show ?thesis by simp
    qed
    moreover have "tlog' t = node_log c n" using won(3) by (simp add: tlog'_def)
    ultimately show ?thesis using keep m by (intro exI [of _ ?Q] exI [of _ "node_log c n"]) auto
  qed
qed

lemma ballot_inv_apply:
  assumes "good_step V tlog c n i" "ack_inv V tlog c" "ballot_inv V tlog c"
  shows "ballot_inv V (tlog_step tlog (stepped c n i)) (cluster_apply c n i)"
proof -
  note g = good_stepD [OF assms(1)]
  let ?c = "cluster_apply c n i" and ?tl = "tlog_step tlog (stepped c n i)"
  have cand: "ballot ?tl ?c v (node_term ?c m) {..node_term ?c m} (log_pos (node_log ?c m))"
    if m: "m \<in> V" "role (nodes ?c m) = Candidate" "v \<in> votes (nodes ?c m)" for m v
  proof (cases "m = n")
    case True
    then show ?thesis using step_candidates [OF assms] m by (simp add: cluster_apply_sel(1))
  next
    case False
    then have old: "nodes ?c m = nodes c m" by (simp add: cluster_apply_sel)
    have "voted c v m (node_term c m)" using g(9) m by (simp add: elections_ok_def old)
    then show ?thesis using ballot_step [OF assms(1,2) ballot_invD(1) [OF assms(3) m(1)]] voted_term [OF g(8)] m
      by (simp add: old)
  qed
  show ?thesis
    unfolding ballot_inv_def
  proof (intro conjI ballI allI impI)
    fix m t li lt assume h: "(m, Broadcast (RequestVote t m li lt)) \<in> history ?c"
    note r = step_requests [OF assms(1,3) h]
    show "t \<le> node_term ?c m" by (rule conjunct1 [OF r])
    assume "t = node_term ?c m" "role (nodes ?c m) = Candidate"
    then show "LogPos lt li = log_pos (node_log ?c m)" by (rule conjunct2 [OF r, THEN mp, THEN mp])
  qed (fact cand step_grants [OF assms] step_elections [OF assms])+
qed


subsection \<open>Leader completeness\<close>

text \<open>A majority has acknowledged the first \<open>k\<close> entries of the log of term \<open>t\<close>, the last of which is of that term.\<close>

definition quorum_stored :: "NodeId set \<Rightarrow> (Term \<Rightarrow> LogEntry list) \<Rightarrow> ('p, 'a) Cluster \<Rightarrow> Term \<Rightarrow> nat \<Rightarrow> bool" where
  "quorum_stored V tlog c t k \<longleftrightarrow> own tlog t k \<and> (\<exists>Q. majority_of (voter_membership V) Q \<and> (\<forall>v \<in> Q. stored c v t k))"

lemma majority_member:
  assumes "majority_of (voter_membership V) Q" "majority_of (voter_membership V) R"
  obtains v where "v \<in> Q" "v \<in> R"
  using maj.quorum_overlap [OF assms, of "\<lambda>v. v \<in> Q"] that by auto

text \<open>
  Two anchored logs, of which the first has the \<open>k\<close> first entries of the log of term \<open>t\<close>, the second ends at least as
  far: the second has them too, if the leaders between the terms have.
\<close>

lemma up_to_date_has:
  assumes "anchored tlog log" "anchored tlog log'" "\<And>t. terms_upto t (tlog t)"
    and "log_pos log \<le> log_pos log'" "length log < 2 ^ 64" "length log' < 2 ^ 64" "\<And>t. anchored tlog (tlog t)"
    and "prefix (take k (tlog t)) log" "own tlog t k"
    and "\<And>u. t < u \<Longrightarrow> u \<in> le_term ` set log' \<Longrightarrow> prefix (take k (tlog t)) (tlog u)"
  shows "prefix (take k (tlog t)) log'"
proof -
  note own = assms(9) and pre = assms(8)
  from own have k: "0 < k" "k \<le> length (tlog t)" "le_term (tlog t ! (k - 1)) = t" by (simp_all add: own_def)
  let ?p = "take k (tlog t)"
  have kl: "k \<le> length log" using prefix_length_le [OF pre] k(2) by simp
  have logk: "log ! (k - 1) = tlog t ! (k - 1)"
    using pre k by (auto simp: prefix_def nth_append min_def)
  let ?u = "log_term log (length log)" and ?w = "log_term log' (length log')"
  have ne0: "log \<noteq> []" using kl k(1) by auto
  then have lu: "?u = le_term (log ! (length log - 1))" by (simp add: log_term_def)
  have tu: "t \<le> ?u" unfolding lu using anchored_sorted [OF assms(1,3), of "k - 1" "length log - 1"] kl k(1,3) logk by simp
  from assms(4-6) have le: "?u < ?w \<or> ?u = ?w \<and> length log \<le> length log'" by (simp add: log_pos_le)
  have ne: "0 < length log'"
  proof (rule ccontr)
    assume "\<not> ?thesis"
    then have "?w = 0" by (simp add: log_term_def)
    with le \<open>\<not> 0 < length log'\<close> kl k(1) show False by simp
  qed
  then have lw: "?w = le_term (log' ! (length log' - 1))" by (simp add: log_term_def)
  note aw = anchoredD [OF assms(2), of "length log' - 1", folded lw]
  have w: "log' = take (length log') (tlog ?w)" "length log' \<le> length (tlog ?w)"
    using aw ne by simp_all
  from le show ?thesis
  proof (elim disjE conjE)
    assume "?u = ?w" "length log \<le> length log'"
    then have "take (length log) log' = log"
    proof -
      note au = anchoredD [OF assms(1), of "length log - 1", folded lu]
      have "length log - 1 < length log" "Suc (length log - 1) = length log" using ne0 by simp_all
      with au(2) have "log = take (length log) (tlog ?u)" by simp
      also have "\<dots> = take (length log) (take (length log') (tlog ?w))"
        using \<open>length log \<le> length log'\<close> by (simp add: \<open>?u = ?w\<close> min_absorb1)
      also have "\<dots> = take (length log) log'" using w(1) by simp
      finally show ?thesis by simp
    qed
    then have "prefix log log'" by (metis take_is_prefix)
    then show ?thesis using pre by (rule prefix_order.trans [rotated])
  next
    assume "?u < ?w"
    then have tw: "t < ?w" using tu by (rule order.strict_trans1 [rotated])
    have "?w \<in> le_term ` set log'" unfolding lw using ne by simp
    then have p: "prefix ?p (tlog ?w)" by (rule assms(10) [OF tw])
    have "k \<le> length log'"
    proof (rule ccontr)
      assume "\<not> ?thesis"
      then have lt: "length log' - 1 \<le> k - 1" "k - 1 < length (tlog ?w)"
        using prefix_length_le [OF p] k by simp_all
      have "tlog ?w ! (length log' - 1) = log' ! (length log' - 1)" using w ne by (metis diff_less nth_take zero_less_one)
      moreover have "tlog ?w ! (k - 1) = tlog t ! (k - 1)"
        using p k by (auto simp: prefix_def nth_append min_def)
      ultimately have "?w \<le> t"
        using anchored_sorted [OF assms(7,3) lt] k(3) by (simp add: lw)
      with tw show False by simp
    qed
    then have "take k log' = take k (tlog ?w)" using w(1) by (metis min_absorb1 take_take)
    also have "\<dots> = ?p" using p k(2) by (auto simp: prefix_def)
    finally show ?thesis by (metis take_is_prefix)
  qed
qed


text \<open>
  Leader completeness, over the invariants: what a majority has acknowledged in a term is in the log of every
  leader of a later term. By induction on that term: the quorums of the acknowledgement and of
  the election share a node, which cannot have lost the entries but to an earlier such leader, and which
  voted only for a log that is at least as up to date as its own.
\<close>

lemma leaders_complete:
  assumes "log_inv V tlog c" "ack_inv V tlog c" "ballot_inv V tlog c"
    and "quorum_stored V tlog c t k" "elected c u" "t < u"
  shows "prefix (take k (tlog t)) (tlog u)"
  using assms(5,6)
proof (induction u rule: less_induct)
  case (less u)
  from assms(4) obtain Q where own: "own tlog t k" and Q: "majority_of (voter_membership V) Q" "\<And>v. v \<in> Q \<Longrightarrow> stored c v t k"
    by (auto simp: quorum_stored_def)
  from less.prems(1) obtain n where "(n, BecomeLeader u) \<in> history c" by (auto simp: elected_def)
  from ballot_invD(5) [OF assms(3) this] obtain R log where R: "majority_of (voter_membership V) R"
    and log: "prefix log (tlog u)" "\<And>x. x \<in> set log \<Longrightarrow> le_term x < u"
    and ballots: "\<And>v. v \<in> R \<Longrightarrow> ballot tlog c v u {..<u} (log_pos log)" by blast
  note tl = tlogs_okD [OF log_invD(1) [OF assms(1)]]
  from majority_member [OF Q(1) R] obtain v where v: "v \<in> Q" "v \<in> R" .
  from ballots [OF v(2)] obtain vlog where vlog: "anchored tlog vlog" "length vlog < 2 ^ 64" "log_pos vlog \<le> log_pos log"
    "kept tlog c v u {..<u} vlog" by (auto simp: ballot_def)
  have earlier: "prefix (take k (tlog t)) (tlog w)" if "t < w" "w < u" "elected c w" for w
    using less.IH [OF that(2,3,1)] .
  then have "\<not> superseded tlog c t k {..<u}" by (auto simp: superseded_def)
  then have p: "prefix (take k (tlog t)) vlog"
    using vlog(4) less.prems(2) Q(2) [OF v(1)] own by (auto simp: kept_def)
  have "anchored tlog log" using log(1) anchored_take [OF tl(1) [of u], of "length log"] by (auto simp: prefix_def)
  moreover have "length log < 2 ^ 64" using prefix_length_le [OF log(1)] tl(3) [of u] by linarith
  moreover have "prefix (take k (tlog t)) (tlog w)" if w: "t < w" "w \<in> le_term ` set log" for w
  proof -
    from w(2) obtain j where j: "j < length log" "w = le_term (log ! j)" by (auto simp: in_set_conv_nth)
    then have "tlog w \<noteq> []" using anchoredD(1) [OF \<open>anchored tlog log\<close> j(1)] by auto
    then have "elected c w" using log_invD(6) [OF assms(1)] by (auto simp: elected_def)
    then show ?thesis using earlier w(1) log(2) j by simp
  qed
  ultimately have "prefix (take k (tlog t)) log"
    using up_to_date_has [OF vlog(1) _ ack_invD(1) [OF assms(2)] vlog(3,2) _ tl(1) p own] by blast
  then show ?case using log(1) by (rule prefix_order.trans)
qed

end
