(* ===== verification/EngineProps.thy ===== *)
theory EngineProps
  imports EngineInv
begin

text \<open>
  The properties of a single engine: what it hands to the application, that a leader only appends,
  what it commits, how it tracks its peers, and how its timers behave.
\<close>

subsection \<open>What the application sees\<close>

text \<open>
  C11: Over a sequence of calls on a fresh engine in which the AppendEntries that pass the previous-entry check carry
  entries numbered from there that do not contradict an entry already committed, and proposals and entries fit the
  index range (\<open>inputs_ok\<close>), the entries handed to the application, put together in the order they were handed
  out, are exactly the committed prefix of the log: each committed entry once, in index order, none skipped; and the
  applied index is the commit index. (That no committed entry is contradicted is what \<open>committed_never_truncated\<close>
  of \<open>ClusterCommit\<close> shows of a whole cluster.)
\<close>

theorem applied_is_committed_prefix:
  assumes "hash_order ho" and "inputs_ok (engine_new ho now cfg MemoryStorage_new) is"
  shows "let (e, as) = engine_run (engine_new ho now cfg MemoryStorage_new) is in
    applied as = take (unat (commit_index e)) (ms_entries (storage e)) \<and>
    length (applied as) = unat (commit_index e) \<and> numbered 0 (applied as) \<and>
    last_applied e = commit_index e"
proof -
  let ?e = "engine_new ho now cfg MemoryStorage_new"
  have "engine_inv ?e"
    by (rule engine_inv_new [OF assms(1) storage_wf_new]) (simp add: MemoryStorage_new_def)
  from engine_run_step [OF this assms(2)] have
    inv: "engine_inv (fst (engine_run ?e is))" and
    app: "take (unat (commit_index (fst (engine_run ?e is)))) (ms_entries (storage (fst (engine_run ?e is)))) =
      applied (snd (engine_run ?e is))"
    by (simp_all add: step_ok_def engine_new_def)
  from inv have "numbered 0 (ms_entries (storage (fst (engine_run ?e is))))"
    by (simp add: engine_inv_def storage_wf_def)
  then show ?thesis
    using engine_inv_simps(4,5) [OF inv] numbered_take [of 0 _ "unat (commit_index (fst (engine_run ?e is)))"]
    by (simp add: case_prod_unfold Let_def app [symmetric] min_absorb2)
qed

definition demo_engine :: "(unit, unit) RaftEngine" where
  "demo_engine = engine_new sorted_list_of_set 0 (demo_config 1) MemoryStorage_new"

text \<open>Node 1 is elected, takes a proposal, replicates it to node 2 and commits it.\<close>

definition demo_inputs :: "EngineInput list" where
  "demo_inputs = [InTick 20, InRpc 2 (RequestVoteResp 1 True) 21, InPropose [1],
     InRpc 2 (AppendEntriesResp 1 True 1) 22]"

theorem applied_is_committed_prefix_witness:
  "applied (snd (engine_run demo_engine demo_inputs)) = [demo_entry 1 1] \<and>
    unat (commit_index (fst (engine_run demo_engine demo_inputs))) = 1"
proof -
  have "inputs_ok demo_engine demo_inputs"
    by code_simp
  then have "let (e, as) = engine_run demo_engine demo_inputs in
      applied as = take (unat (commit_index e)) (ms_entries (storage e))"
    using applied_is_committed_prefix [OF hash_order_sorted, of 0 "demo_config 1" demo_inputs]
    by (simp add: demo_engine_def Let_def case_prod_unfold)
  moreover have "commit_index (fst (engine_run demo_engine demo_inputs)) = 1"
    "ms_entries (storage (fst (engine_run demo_engine demo_inputs))) = [demo_entry 1 1]"
    by code_simp+
  ultimately show ?thesis by (simp add: Let_def case_prod_unfold)
qed

subsection \<open>The leader's log and commit index\<close>

text \<open>
  A leader only appends: a call that leaves the engine leader either leaves its log as it was or is a
  proposal, which adds one entry at the end, with the next index and the current term.
\<close>

lemma leader_append_only:
  assumes "engine_inv e" "input_ok e i" "role e = Leader" "role (fst (engine_apply e i)) = Leader"
  shows "ms_entries (storage (fst (engine_apply e i))) = ms_entries (storage e) \<or>
    (\<exists>data x. i = InPropose data \<and> ms_entries (storage (fst (engine_apply e i))) = ms_entries (storage e) @ [x] \<and>
      unat (le_index x) = Suc (length (ms_entries (storage e))) \<and> le_term x = engine_current_term e \<and>
      entry_type x = Command data)"
proof (cases i)
  case (InTick now)
  then show ?thesis using tick_core [of e now] assms(4) by (auto simp: engine_apply_fst simp del: engine_apply.simps)
next
  case (InRpc s m now)
  then show ?thesis
  proof (cases m)
    case (RequestVoteResp t g)
    with InRpc show ?thesis by (simp add: handle_request_vote_resp_def Let_def)
  next
    case (AppendEntries t l pi pt es lc)
    with InRpc assms(4) show ?thesis
      by (cases "t < engine_current_term e") (auto simp: append_entries_stale append_entries_role)
  next
    case (AppendEntriesResp t ok m')
    with InRpc assms(4) show ?thesis using append_entries_resp_core [of t e s ok m' now]
        append_entries_resp_role [of e t s ok m' now]
      by (cases "t \<le> engine_current_term e") auto
  qed (use InRpc in \<open>auto simp: handle_request_vote_spec\<close>)
next
  case (InPropose d)
  with assms(2,3) have "Suc (Suc (length (ms_entries (storage e)))) < 2 ^ 64" by simp
  from with_entry_spec(1,2) [OF assms(1) this, of d] show ?thesis
    using InPropose assms(3) by (auto simp: propose_unfold proposed_def)
qed (simp add: handle_rpc_failure_def)

lemma demo_engine_inv: "engine_inv demo_engine"
  unfolding demo_engine_def by (rule engine_inv_new [OF hash_order_sorted storage_wf_new])
    (simp add: MemoryStorage_new_def)

text \<open>The engine of the demonstration once it is leader.\<close>

definition demo_leader :: "(unit, unit) RaftEngine" where
  "demo_leader = fst (engine_run demo_engine [InTick 20, InRpc 2 (RequestVoteResp 1 True) 21])"

lemma demo_leader_inv: "engine_inv demo_leader"
proof -
  have "inputs_ok demo_engine [InTick 20, InRpc 2 (RequestVoteResp 1 True) 21]" by code_simp
  from engine_run_step [OF demo_engine_inv this] show ?thesis by (simp add: step_ok_def demo_leader_def)
qed

lemma leader_append_only_witness:
  "\<exists>x. ms_entries (storage (fst (engine_apply demo_leader (InPropose [7])))) = [x] \<and> entry_type x = Command [7]"
proof -
  have "input_ok demo_leader (InPropose [7])" "role demo_leader = Leader"
    "role (fst (engine_apply demo_leader (InPropose [7]))) = Leader" "ms_entries (storage demo_leader) = []"
    "ms_entries (storage (fst (engine_apply demo_leader (InPropose [7])))) \<noteq> []"
    by code_simp+
  then show ?thesis using leader_append_only [OF demo_leader_inv, of "InPropose [7]"] by auto
qed

text \<open>The voters that hold the entry at \<open>n\<close>, as far as the leader knows.\<close>

definition holders :: "('p, 'a) RaftEngine \<Rightarrow> Index \<Rightarrow> NodeId set" where
  "holders e n = {v \<in> set (voters (membership e)). v = cfg_node_id (config e) \<or>
     n \<le> (case match_index e v of Some m \<Rightarrow> m | None \<Rightarrow> 0)}"

lemma replica_count_holders:
  assumes "membership_wf (membership e)" "cfg_node_id (config e) \<in> set (voters (membership e))"
  shows "replica_count e n = card (holders e n)"
proof -
  let ?f = "filter (\<lambda>p. n \<le> (case match_index e p of Some m \<Rightarrow> m | None \<Rightarrow> 0)) (engine_other_voters e)"
  have "distinct ?f" unfolding engine_other_voters_def
    by (intro distinct_filter distinct_other_voters assms(1))
  then have "length ?f = card (set ?f)" by (simp only: distinct_card)
  moreover have "holders e n = insert (cfg_node_id (config e)) (set ?f)"
    using assms(2) by (auto simp: holders_def engine_other_voters_def)
  moreover have "cfg_node_id (config e) \<notin> set ?f" by (simp add: engine_other_voters_def)
  ultimately show ?thesis by (simp add: replica_count_def)
qed

text \<open>
  C18: What a leader commits: the commit index only moves up, to an entry of the leader's own term
  that a majority of the voters holds (counting itself), and to the highest such entry; if there is
  none, nothing is committed. In particular an entry of an earlier term is never committed by
  counting its replicas.
\<close>

theorem commit_rule:
  assumes "engine_inv e" "cfg_node_id (config e) \<in> set (voters (membership e))"
  shows "let c = commit_index (fst (maybe_commit e as));
      ok = (\<lambda>n. \<exists>x. entry (storage e) n = Some x \<and> le_term x = engine_current_term e \<and>
                majority_of (membership e) (holders e n))
    in (c = commit_index e \<or> commit_index e < c \<and> ok c) \<and> (\<forall>n. c < n \<longrightarrow> \<not> ok n)"
proof -
  note inv = engine_inv_simps [OF assms(1)]
  have sub: "holders e n \<subseteq> set (voters (membership e))" for n by (auto simp: holders_def)
  have ok: "commitable e n \<longleftrightarrow> (\<exists>x. entry (storage e) n = Some x \<and> le_term x = engine_current_term e \<and>
      majority_of (membership e) (holders e n))" for n
    using sub [of n] replica_count_holders [OF inv(3) assms(2), of n]
    by (simp add: commitable_def majority_of_def split: option.split)
  show ?thesis
    unfolding Let_def ok [symmetric] maybe_commit_spec(1) [OF inv(1,2,5,4)]
    by (rule commit_target_cases [of e]) auto
qed

theorem commit_rule_witness:
  "commit_index (fst (maybe_commit (fst (engine_apply demo_leader (InPropose [7]))) [])) = 0 \<and>
   \<not> majority_of (membership demo_leader) (holders (fst (engine_apply demo_leader (InPropose [7]))) 1)"
proof -
  let ?e = "fst (engine_apply demo_leader (InPropose [7]))"
  have "input_ok demo_leader (InPropose [7])" by code_simp
  from engine_apply_step [OF demo_leader_inv this] have inv: "engine_inv ?e" by (simp add: step_ok_def)
  have v: "cfg_node_id (config ?e) \<in> set (voters (membership ?e))" by code_simp
  have facts: "commit_index (fst (maybe_commit ?e [])) = 0" "membership ?e = membership demo_leader"
    "\<exists>x. entry (storage ?e) 1 = Some x \<and> le_term x = engine_current_term ?e"
  proof -
    have "case entry (storage ?e) 1 of Some x \<Rightarrow> le_term x = engine_current_term ?e | None \<Rightarrow> False"
      by code_simp
    then show "\<exists>x. entry (storage ?e) 1 = Some x \<and> le_term x = engine_current_term ?e"
      by (auto split: option.splits)
    show "commit_index (fst (maybe_commit ?e [])) = 0" by code_simp
  qed (simp del: engine_apply.simps)
  from commit_rule [OF inv v, of "[]"] have
    "\<not> (\<exists>x. entry (storage ?e) 1 = Some x \<and> le_term x = engine_current_term ?e \<and>
        majority_of (membership ?e) (holders ?e 1))"
    unfolding Let_def facts(1) by simp
  with facts show ?thesis by auto
qed

subsection \<open>Tracking the peers\<close>

text \<open>
  A success answer to the request \<open>(prev, n)\<close> that the leader last sent to a peer: \<open>match_index\<close>
  becomes \<open>prev + n\<close> and never moves down, \<open>next_index\<close> is one more, no other peer's indices change,
  the commit rule is applied with the new index, and a further request is sent at once exactly when the
  log has entries beyond it.
\<close>

lemma success_moves_indices:
  assumes "engine_inv e" "role e = Leader" "last_ae e p = Some (i, k)" "match_index e p = Some c"
  shows "let (e', as) = handle_append_entries_resp e p (engine_current_term e) True m now;
      j = i + of_nat k
    in unat j = unat i + k \<and> c \<le> j \<and>
      match_index e' = (match_index e)(p \<mapsto> j) \<and> next_index e' = (next_index e)(p \<mapsto> j + 1) \<and>
      commit_index e' = commit_target (peer_matched e p j) \<and>
      (p \<in> ae_inflight e' \<longleftrightarrow> unat j < length (ms_entries (storage e)))"
proof -
  note inv = engine_inv_simps [OF assms(1)]
  let ?j = "i + of_nat k :: u64"
  let ?e2 = "peer_matched e p ?j"
  let ?e3 = "fst (maybe_commit ?e2 [])"
  note r = resp_success [OF assms(1-3)]
  from progress_ok_last [OF inv(6) [OF assms(2)] assms(3)] assms(4)
  have p: "p \<in> set (engine_other_voters e)" and c: "unat c \<le> unat i + k" by auto
  have "commit_index ?e3 = commit_target ?e2" by (rule maybe_commit_spec(1)) (use inv in simp_all)
  moreover have "send_append_entries_to ?e3 p = (mark_sent ?e3 p, Some (Send p (ae_msg ?e3 p)))"
    using send_append_entries_to_spec [of ?e3 p] r(3) inv(1,2) p by simp
  moreover have "commit_index (mark_sent ?e3 p) = commit_index ?e3" by (simp add: mark_sent_def)
  moreover have "c \<le> ?j" using c by (simp add: word_le_nat_alt r(1))
  ultimately show ?thesis
    by (simp add: r(1,4) Let_def case_prod_unfold)
qed

lemma success_moves_indices_witness:
  "match_index (fst (handle_append_entries_resp (fst (engine_apply demo_leader (InPropose [7]))) 2 1 True 1 30)) 2 = Some 1"
proof -
  let ?e = "fst (engine_apply demo_leader (InPropose [7]))"
  have "input_ok demo_leader (InPropose [7])" by code_simp
  from engine_apply_step [OF demo_leader_inv this] have inv: "engine_inv ?e" by (simp add: step_ok_def)
  have "role ?e = Leader" "last_ae ?e 2 = Some (0, 1)" "match_index ?e 2 = Some 0" "engine_current_term ?e = 1"
    by code_simp+
  with success_moves_indices [OF inv, of 2 0 1 0 1 30] show ?thesis
    by (simp add: Let_def case_prod_unfold del: engine_apply.simps)
qed

lemma sat_sub_1: "n \<noteq> 0 \<Longrightarrow> sat_sub n 1 = n - 1"
  by (simp add: unat_inject_u64 [symmetric] unat_sat_sub unat_pred_u64)

text \<open>
  C28: A rejection of the request the leader last sent to a peer: if \<open>next_index\<close> has moved since, it is
  ignored; otherwise \<open>next_index\<close> goes down by one, but not to or below \<open>match_index\<close>, nothing is
  committed, and the request from the new \<open>next_index\<close> is sent at once. When \<open>next_index\<close> is already
  \<open>match_index + 1\<close> it cannot go down, and the request sent is the one just rejected.
\<close>

theorem rejection_backs_off:
  assumes "engine_inv e" "role e = Leader" "last_ae e p = Some (i, k)"
    "next_index e p = Some n" "match_index e p = Some c"
  shows "let (e', as) = handle_append_entries_resp e p (engine_current_term e) False m now in
    match_index e' = match_index e \<and> commit_index e' = commit_index e \<and>
    (if n \<noteq> i + 1 then as = [] \<and> next_index e' = next_index e \<and> p \<notin> ae_inflight e'
     else \<exists>n'. next_index e' = (next_index e)(p \<mapsto> n') \<and> unat n' = max (unat n - 1) (Suc (unat c)) \<and>
       p \<in> ae_inflight e' \<and> (\<exists>pt. as = [Send p (AppendEntries (engine_current_term e) (cfg_node_id (config e))
         (n' - 1) pt (drop (unat n' - 1) (ms_entries (storage e))) (commit_index e))]) \<and>
       (unat n = Suc (unat c) \<longrightarrow> as = [Send p (ae_msg e p)] \<and> next_index e' = next_index e))"
proof -
  let ?n = "max (max (sat_sub n 1) (c + 1)) 1"
  note r = resp_failure [OF assms]
  have nz: "?n \<noteq> 0" using r(1) by (metis Zero_not_Suc max.cobounded2 not_less_eq_eq unat_0 le0 max_nat.right_neutral)
  have "sat_sub ?n 1 = ?n - 1" by (rule sat_sub_1 [OF nz])
  then have prev: "ae_prev (peer_backed e p ?n) p = ?n - 1" by (simp add: ae_prev_def)
  have unprev: "unat (?n - 1) = unat ?n - 1" by (rule unat_pred_u64 [OF nz])
  have msg: "ae_msg (peer_backed e p ?n) p = AppendEntries (engine_current_term e) (cfg_node_id (config e))
      (?n - 1) (log_term (ms_entries (storage e)) (unat ?n - 1)) (drop (unat ?n - 1) (ms_entries (storage e)))
      (commit_index e)"
    by (simp only: ae_msg_def prev unprev peer_backed_sel engine_current_term_def)
  have same: "?n = n" if "unat n = Suc (unat c)"
    using r(1) that by (simp add: unat_inject_u64 [symmetric])
  have fixed: "(next_index e)(p \<mapsto> n) = next_index e" using assms(4) by (rule map_upd_triv)
  have "ae_msg (peer_backed e p n) p = ae_msg e p"
    using assms(4) by (simp add: ae_msg_def ae_prev_def engine_current_term_def)
  then show ?thesis
    using r(1,3) msg same fixed by (auto simp: Let_def case_prod_unfold mark_sent_def)
qed

theorem rejection_backs_off_witness:
  "snd (handle_append_entries_resp (fst (engine_apply demo_leader (InPropose [7]))) 2 1 False 0 30) =
     [Send 2 (ae_msg (fst (engine_apply demo_leader (InPropose [7]))) 2)]"
proof -
  let ?e = "fst (engine_apply demo_leader (InPropose [7]))"
  have "input_ok demo_leader (InPropose [7])" by code_simp
  from engine_apply_step [OF demo_leader_inv this] have inv: "engine_inv ?e" by (simp add: step_ok_def)
  have "role ?e = Leader" "last_ae ?e 2 = Some (0, 1)" "match_index ?e 2 = Some 0"
    "next_index ?e 2 = Some 1" "engine_current_term ?e = 1"
    by code_simp+
  with rejection_backs_off [OF inv, of 2 0 1 1 0 0 30] show ?thesis
    by (auto simp: Let_def case_prod_unfold simp del: engine_apply.simps)
qed

text \<open>
  Pipeline depth one: while a request to a peer is in flight, the only call that sends it another
  AppendEntries is the answer of that very peer. (An RPC failure clears the mark without sending.)
\<close>

lemma pipeline_depth_one:
  assumes "engine_inv e" "input_ok e i" "p \<in> ae_inflight e"
    and "Send p (AppendEntries t l pi pt es lc) \<in> set (snd (engine_apply e i))"
  shows "\<exists>rt ok m now. i = InRpc p (AppendEntriesResp rt ok m) now"
proof (cases i)
  case (InTick now)
  note inv = engine_inv_simps [OF assms(1)]
  have a: "Send p (AppendEntries t l pi pt es lc) \<in> set (out_actions (snd (tick e now)))"
    using assms(4) InTick by (simp add: Let_def case_prod_unfold)
  then have "role e = Leader" using tick_kind [OF a] by (cases "role e") (auto simp: tick_def Let_def case_prod_unfold split: if_splits)
  then have "Send p (AppendEntries t l pi pt es lc) \<in> set (snd (replicate_actions e))"
    using a by (auto simp: tick_def Let_def case_prod_unfold split: if_splits)
  with replicate_actions_spec(1) [OF inv(1,2) inv(6) [OF \<open>role e = Leader\<close>] inv(3)] assms(3)
  show ?thesis by auto
next
  case (InRpc s m now)
  with assms(4) show ?thesis
  proof (cases m)
    case (AppendEntriesResp rt ok mi)
    with InRpc assms(4) have "Send p (AppendEntries t l pi pt es lc) \<in>
        set (snd (handle_append_entries_resp e s rt ok mi now))"
      by simp
    then have "p = s"
      by (auto simp: handle_append_entries_resp_def Let_def case_prod_unfold
          dest!: send_append_entries_to_Some maybe_commit_action split: option.splits if_splits)
    with InRpc AppendEntriesResp show ?thesis by blast
  next
    case (AppendEntries t' l' pi' pt' es' lc')
    with InRpc assms(4) show ?thesis by (auto dest: append_entries_kind)
  next
    case (RequestVoteResp t' g)
    with InRpc assms(4) show ?thesis by (auto dest: request_vote_resp_kind)
  qed (auto simp: handle_request_vote_spec split: if_splits)
next
  case (InPropose d)
  have L: "role e = Leader"
    using assms(4) InPropose by (cases "role e = Leader") (simp_all add: propose_unfold)
  with assms(2) InPropose have "Suc (Suc (length (ms_entries (storage e)))) < 2 ^ 64" by simp
  from with_entry_spec(3) [OF assms(1) this, of d] have i: "engine_inv (with_entry e (proposed e d))"
    by (simp add: step_ok_def)
  note inv = engine_inv_simps [OF i]
  have "role (with_entry e (proposed e d)) = Leader" using L by simp
  from replicate_actions_spec(1) [OF inv(1,2) inv(6) [OF this] inv(3)] show ?thesis
    using assms(3,4) InPropose L by (auto simp: propose_unfold)
qed (use assms(4) in \<open>simp add: handle_rpc_failure_def\<close>)

lemma pipeline_depth_one_witness:
  "let e = fst (engine_apply demo_leader (InPropose [7])); i = InRpc 2 (AppendEntriesResp 1 False 0) 30 in
   2 \<in> ae_inflight e \<and> (\<exists>rt ok m now. i = InRpc 2 (AppendEntriesResp rt ok m) now) \<and>
   snd (engine_apply e i) = [Send 2 (AppendEntries 1 1 0 0 [\<lparr>le_index = 1, le_term = 1, entry_type = Command [7]\<rparr>] 0)]"
proof -
  let ?e = "fst (engine_apply demo_leader (InPropose [7]))"
  let ?i = "InRpc 2 (AppendEntriesResp 1 False 0) 30"
  have "input_ok demo_leader (InPropose [7])" by code_simp
  from engine_apply_step [OF demo_leader_inv this] have inv: "engine_inv ?e" by (simp add: step_ok_def)
  have a: "snd (engine_apply ?e ?i) =
      [Send 2 (AppendEntries 1 1 0 0 [\<lparr>le_index = 1, le_term = 1, entry_type = Command [7]\<rparr>] 0)]"
    by code_simp
  moreover have "2 \<in> ae_inflight ?e" by code_simp
  moreover have "input_ok ?e ?i" by simp
  ultimately show ?thesis
    using pipeline_depth_one [OF inv, of ?i 2 1 1 0 0 "[\<lparr>le_index = 1, le_term = 1, entry_type = Command [7]\<rparr>]" 0]
    by (simp only: Let_def list.set(2) insertI1)
qed

subsection \<open>Votes\<close>

text \<open>
  C19: The voting rule: a \<open>RequestVote\<close> is granted exactly when its term is not older than the voter's, the
  voter has not voted for anybody else in that term, and the candidate's log is up to date (a newer
  last term, or the same and at least the same length). A newer term or a granted vote makes the voter a
  follower without a leader and without votes; a newer term also clears what it knows of its peers as a leader. The
  election deadline restarts exactly when the vote is granted; the log, the commit and the applied index are never
  touched, and the answer carries the term the voter is in afterwards.
\<close>

theorem vote_rule:
  "let (e', as) = handle_request_vote e src t cand li lt now; (myi, myt) = last_index_term (storage e);
      newer = (engine_current_term e < t);
      granted = (engine_current_term e \<le> t \<and> (newer \<or> voted_for (engine_hard e) \<in> {None, Some cand}) \<and>
        (myt < lt \<or> myt = lt \<and> myi \<le> li))
    in as = (if newer then [BecomeFollower t None] else []) @
         [Send src (RequestVoteResp (max (engine_current_term e) t) granted)] \<and>
       engine_current_term e' = max (engine_current_term e) t \<and>
       voted_for (engine_hard e') = (if granted then Some cand else if newer then None else voted_for (engine_hard e)) \<and>
       role e' = (if granted \<or> newer then Follower else role e) \<and>
       leader e' = (if granted \<or> newer then None else leader e) \<and>
       votes e' = (if granted \<or> newer then {} else votes e) \<and>
       next_index e' = (if newer then Map.empty else next_index e) \<and>
       match_index e' = (if newer then Map.empty else match_index e) \<and>
       last_ae e' = (if newer then Map.empty else last_ae e) \<and>
       ae_inflight e' = (if newer then {} else ae_inflight e) \<and>
       election_deadline e' = (if granted
         then now + cfg_election_timeout (config e) + cfg_election_jitter (config e) else election_deadline e) \<and>
       heartbeat_deadline e' = heartbeat_deadline e \<and> config e' = config e \<and> membership e' = membership e \<and>
       ms_entries (storage e') = ms_entries (storage e) \<and>
       commit_index e' = commit_index e \<and> last_applied e' = last_applied e"
proof -
  obtain myi myt where l: "last_index_term (storage e) = (myi, myt)" by fastforce
  have g: "grants_vote e t cand li lt \<longleftrightarrow> engine_current_term e \<le> t \<and>
      (engine_current_term e < t \<or> voted_for (engine_hard e) \<in> {None, Some cand}) \<and>
      (myt < lt \<or> myt = lt \<and> myi \<le> li)"
    by (simp add: grants_vote_def last_pos_def l less_eq_LogPos_def)
  have ct: "engine_current_term (fst (handle_request_vote e src t cand li lt now)) = max (engine_current_term e) t"
    by (auto simp: engine_current_term_def handle_request_vote_spec grants_vote_def max_def)
  show ?thesis
    unfolding Let_def case_prod_unfold l fst_conv snd_conv g [symmetric] ct
    by (simp add: handle_request_vote_spec handle_request_vote_rest)
qed

theorem vote_rule_witness:
  "snd (handle_request_vote demo_follower 1 2 1 4 1 20) = [Send 1 (RequestVoteResp 2 True)] \<and>
   snd (handle_request_vote demo_follower 1 2 1 2 1 20) = [Send 1 (RequestVoteResp 2 False)]"
proof -
  have "last_index_term (storage demo_follower) = (3, 1)" "engine_current_term demo_follower = 2"
    "voted_for (engine_hard demo_follower) = None"
    by code_simp+
  with vote_rule [of demo_follower 1 2 1 4 1 20] vote_rule [of demo_follower 1 2 1 2 1 20] show ?thesis
    by (simp add: Let_def case_prod_unfold)
qed

subsection \<open>Timers\<close>

text \<open>Runs during which the engine stays leader.\<close>

fun leads :: "('p, 'a) RaftEngine \<Rightarrow> EngineInput list \<Rightarrow> bool" where
  "leads e [] = (role e = Leader)"
| "leads e (i # is) = (role e = Leader \<and> leads (fst (engine_apply e i)) is)"

lemma leads_role: "leads e is \<Longrightarrow> role e = Leader"
  by (cases "is") auto

lemma leader_keeps_deadline:
  assumes "role e = Leader" "role (fst (engine_apply e i)) = Leader"
  shows "election_deadline (fst (engine_apply e i)) = election_deadline e"
proof (cases i)
  case (InTick now)
  then show ?thesis using assms(1) by (simp add: tick_def Let_def case_prod_unfold)
next
  case (InRpc s m now)
  then show ?thesis
  proof (cases m)
    case (RequestVoteResp t g)
    with InRpc assms(1) show ?thesis by (auto simp: handle_request_vote_resp_def Let_def)
  next
    case (RequestVote t c li lt)
    with InRpc assms(2) show ?thesis by (auto simp: handle_request_vote_spec split: if_splits)
  next
    case (AppendEntries t l pi pt es lc)
    with InRpc assms(2) show ?thesis
      by (cases "t < engine_current_term e") (auto simp: append_entries_stale append_entries_role)
  next
    case (AppendEntriesResp t ok m')
    with InRpc show ?thesis
      by (auto simp: handle_append_entries_resp_def Let_def case_prod_unfold split: option.split)
  qed (use InRpc in auto)
next
  case (InPropose d)
  then show ?thesis by (simp add: engine_apply_fst propose_def Let_def case_prod_unfold del: engine_apply.simps)
qed (simp add: handle_rpc_failure_def)

text \<open>
  While it leads, an engine never moves its own election deadline (it was set when it won), although
  \<open>next_deadline\<close> of a leader takes the minimum with it. So from that moment on every \<open>tick\<close> returns a
  \<open>next_deadline\<close> that has passed, and between two heartbeats it returns it without having done
  anything: a caller that sleeps until \<open>next_deadline\<close> is woken at once, again and again.
\<close>

lemma leader_deadline_expires:
  assumes "leads e is" "election_deadline e \<le> now"
  shows "let e' = fst (engine_run e is) in
    role e' = Leader \<and> election_deadline e' = election_deadline e \<and>
    out_next_deadline (snd (tick e' now)) \<le> now \<and>
    (now < heartbeat_deadline e' \<longrightarrow> fst (tick e' now) = e' \<and> out_actions (snd (tick e' now)) = [])"
proof -
  have run: "role (fst (engine_run e is)) = Leader \<and> election_deadline (fst (engine_run e is)) = election_deadline e"
    using assms(1)
  proof (induction "is" arbitrary: e)
    case (Cons i "is")
    then have "role (fst (engine_apply e i)) = Leader" by (auto dest: leads_role)
    with Cons show ?case using leader_keeps_deadline [of e i] by (simp add: Let_def case_prod_unfold)
  qed simp
  then show ?thesis using assms(2)
    by (simp add: Let_def case_prod_unfold tick_def next_deadline_def min_def)
qed

lemma leader_deadline_expires_witness:
  "let e = fst (engine_run demo_leader [InTick 30, InTick 37]) in
     heartbeat_deadline e = 42 \<and> snd (tick e 38) = \<lparr>out_actions = [], out_next_deadline = 36\<rparr>"
proof -
  have "leads demo_leader [InTick 30, InTick 37]" "election_deadline demo_leader \<le> 38" by code_simp+
  from leader_deadline_expires [OF this] have
    "out_actions (snd (tick (fst (engine_run demo_leader [InTick 30, InTick 37])) 38)) = []"
    "heartbeat_deadline (fst (engine_run demo_leader [InTick 30, InTick 37])) = 42"
    "out_next_deadline (snd (tick (fst (engine_run demo_leader [InTick 30, InTick 37])) 38)) = 36"
  proof -
    assume h: "let e' = fst (engine_run demo_leader [InTick 30, InTick 37]) in
      role e' = Leader \<and> election_deadline e' = election_deadline demo_leader \<and>
      out_next_deadline (snd (tick e' 38)) \<le> 38 \<and>
      (38 < heartbeat_deadline e' \<longrightarrow> fst (tick e' 38) = e' \<and> out_actions (snd (tick e' 38)) = [])"
    show hb: "heartbeat_deadline (fst (engine_run demo_leader [InTick 30, InTick 37])) = 42" by code_simp
    show "out_actions (snd (tick (fst (engine_run demo_leader [InTick 30, InTick 37])) 38)) = []"
      using h hb by (simp add: Let_def)
    show "out_next_deadline (snd (tick (fst (engine_run demo_leader [InTick 30, InTick 37])) 38)) = 36"
      by code_simp
  qed
  then show ?thesis by (simp add: Let_def)
qed

end
