(* ===== verification/ClusterCommit.thy ===== *)
theory ClusterCommit
  imports ClusterVotes EngineProps
begin

text \<open>
  Commitment in a cluster: provided that a leader credits a success only with what the answering node has
  stored, a committed entry is in the log of every later leader, and no two nodes apply different entries at
  an index. The theory \<open>StaleAnswer\<close> shows that the behaviour does not provide this.
\<close>

subsection \<open>What one call commits\<close>

lemma engine_apply_commit:
  assumes "engine_inv e"
  obtains (quiet) "commit_index (fst (engine_apply e i)) = commit_index e"
      "role (fst (engine_apply e i)) = Leader \<Longrightarrow> role e = Leader \<and> match_index (fst (engine_apply e i)) = match_index e \<or>
        (\<forall>p m. match_index (fst (engine_apply e i)) p = Some m \<longrightarrow> m = 0)"
  | (accept) s t l p pt es lc now where "i = InRpc s (AppendEntries t l p pt es lc) now"
      "engine_current_term e \<le> t" "prev_log_ok (storage e) p pt"
  | (success) s m now a k where "i = InRpc s (AppendEntriesResp (engine_current_term e) True m) now"
      "role e = Leader" "last_ae e s = Some (a, k)" "role (fst (engine_apply e i)) = Leader"
      "engine_hard (fst (engine_apply e i)) = engine_hard e"
      "match_index (fst (engine_apply e i)) = (match_index e)(s \<mapsto> a + of_nat k)"
      "commit_index (fst (engine_apply e i)) = commit_target (peer_matched e s (a + of_nat k))"
proof (cases i)
  case (InTick now)
  have "commit_index (fst (tick e now)) = commit_index e"
    by (simp add: tick_def Let_def case_prod_unfold start_election_def)
  moreover have "match_index (fst (tick e now)) = match_index e" if "role e = Leader"
    using that by (simp add: tick_def Let_def case_prod_unfold)
  moreover have "role e = Leader" if "role (fst (tick e now)) = Leader"
    using that tick_not_leader [of e now] by blast
  ultimately show ?thesis using quiet by (simp add: InTick Let_def case_prod_unfold)
next
  case (InRpc s m now)
  show ?thesis
  proof (cases m)
    case (RequestVote t c li lt)
    have "role (fst (handle_request_vote e s t c li lt now)) = Leader \<Longrightarrow>
        match_index (fst (handle_request_vote e s t c li lt now)) = match_index e \<and> role e = Leader"
      by (auto simp: handle_request_vote_def Let_def case_prod_unfold split: if_splits)
    then show ?thesis using quiet InRpc RequestVote by (simp add: handle_request_vote_spec)
  next
    case (RequestVoteResp t g)
    let ?r = "fst (handle_request_vote_resp e s t g now)"
    have "commit_index ?r = commit_index e" by (simp add: handle_request_vote_resp_def Let_def)
    moreover have "role ?r = Leader \<Longrightarrow> role e = Leader \<and> match_index ?r = match_index e \<or>
        (\<forall>p m. match_index ?r p = Some m \<longrightarrow> m = 0)"
      by (auto simp: handle_request_vote_resp_def Let_def split: if_splits)
    ultimately show ?thesis using quiet InRpc RequestVoteResp by simp
  next
    case (AppendEntries t l p pt es lc)
    show ?thesis
    proof (cases "engine_current_term e \<le> t \<and> prev_log_ok (storage e) p pt")
      case True
      then show ?thesis using accept InRpc AppendEntries by blast
    next
      case False
      then show ?thesis
        by (cases "engine_current_term e \<le> t") (use quiet InRpc AppendEntries in
          \<open>auto simp: append_entries_reject append_entries_stale\<close>)
    qed
  next
    case (AppendEntriesResp t ok m')
    consider (new) "engine_current_term e < t"
      | (drop) "t < engine_current_term e \<or> t = engine_current_term e \<and> (role e \<noteq> Leader \<or> last_ae e s = None)"
      | (fail) "t = engine_current_term e" "role e = Leader" "\<not> ok"
      | (ok) a k where "t = engine_current_term e" "role e = Leader" "last_ae e s = Some (a, k)" "ok"
      by (cases "last_ae e s"; cases ok) fastforce+
    then show ?thesis
    proof cases
      case new
      then show ?thesis using quiet InRpc AppendEntriesResp by (simp add: handle_append_entries_resp_def Let_def)
    next
      case drop
      then have "handle_append_entries_resp e s t ok m' now = (e, [])"
        by (auto simp: handle_append_entries_resp_def Let_def)
      then show ?thesis using quiet InRpc AppendEntriesResp by simp
    next
      case fail
      then have "commit_index (fst (handle_append_entries_resp e s t ok m' now)) = commit_index e \<and>
          match_index (fst (handle_append_entries_resp e s t ok m' now)) = match_index e"
        by (simp add: handle_append_entries_resp_def Let_def case_prod_unfold split: option.split)
      then show ?thesis using quiet InRpc AppendEntriesResp fail by simp
    next
      case ok
      let ?e2 = "peer_matched e s (a + of_nat k)"
      note r = resp_success [OF assms ok(2,3)]
      have i2: "engine_inv ?e2"
        using step_ok_leader [OF assms, of ?e2 "[]"] ok(2) r(3) engine_inv_simps(7) [OF assms]
        by (simp add: step_ok_def)
      note inv = engine_inv_simps [OF i2]
      note c = maybe_commit_spec(1) [OF inv(1,2,5,4), of "[]"]
      show ?thesis
        using ok(2,3) InRpc AppendEntriesResp unfolding ok(1)
        by (intro success) (use ok(4) in \<open>auto simp: r(4) Let_def case_prod_unfold c\<close>)
    qed
  qed (use quiet InRpc in auto)
next
  case (InRpcFailure p k)
  then show ?thesis using quiet by (cases "k = KAppendEntries") (simp_all add: handle_rpc_failure_def)
next
  case (InPropose d)
  then have "fst (engine_apply e i) = fst (propose e d)" by (simp only: engine_apply_fst)
  then show ?thesis using quiet by (cases "role e = Leader") (simp_all add: propose_unfold)
qed


subsection \<open>The hypothesis on answers\<close>

text \<open>
  \<open>handle_append_entries_resp\<close> credits a success to the request it sent last to that peer, whatever the answer
  says. A call is credited if that is no more than the answering node confirms.
\<close>

fun credited :: "('p, 'a) RaftEngine \<Rightarrow> EngineInput \<Rightarrow> bool" where
  "credited e (InRpc s (AppendEntriesResp t True m) now) =
     (role e = Leader \<and> t = engine_current_term e \<longrightarrow>
        (case last_ae e s of Some (a, k) \<Rightarrow> a + of_nat k \<le> m | None \<Rightarrow> True))"
| "credited e _ = True"

inductive credited_reachable :: "NodeId set \<Rightarrow> ('p, 'a) Cluster \<Rightarrow> ('p, 'a) Cluster \<Rightarrow> bool" for V c0 where
  start: "credited_reachable V c0 c0"
| step: "credited_reachable V c0 c \<Longrightarrow> n \<in> V \<Longrightarrow> admissible c n i \<Longrightarrow> has_room (nodes c n) i \<Longrightarrow>
    credited (nodes c n) i \<Longrightarrow> credited_reachable V c0 (cluster_apply c n i)"

subsection \<open>The invariant\<close>

text \<open>
  The first \<open>i\<close> entries of a log are committed: they are among those a majority has acknowledged in a term
  up to \<open>b\<close>.
\<close>

definition committed_upto ::
  "NodeId set \<Rightarrow> (Term \<Rightarrow> LogEntry list) \<Rightarrow> ('p, 'a) Cluster \<Rightarrow> Term \<Rightarrow> nat \<Rightarrow> LogEntry list \<Rightarrow> bool" where
  "committed_upto V tlog c b i log \<longleftrightarrow>
     i = 0 \<or> (\<exists>t k. t \<le> b \<and> quorum_stored V tlog c t k \<and> i \<le> k \<and> prefix (take i (tlog t)) log)"

definition commit_inv :: "NodeId set \<Rightarrow> (Term \<Rightarrow> LogEntry list) \<Rightarrow> ('p, 'a) Cluster \<Rightarrow> bool" where
  "commit_inv V tlog c \<longleftrightarrow>
     (\<forall>n \<in> V. engine_inv (nodes c n) \<and>
        committed_upto V tlog c (node_term c n) (unat (commit_index (nodes c n))) (node_log c n)) \<and>
     (\<forall>m q t l p pt es lc. (m, Send q (AppendEntries t l p pt es lc)) \<in> history c \<longrightarrow>
        committed_upto V tlog c t (unat lc) (tlog t)) \<and>
     (\<forall>n \<in> V. role (nodes c n) = Leader \<longrightarrow> (\<forall>p m. match_index (nodes c n) p = Some m \<longrightarrow> m \<noteq> 0 \<longrightarrow>
        stored c p (node_term c n) (unat m))) \<and>
     (\<forall>n es. (n, Apply es) \<in> history c \<longrightarrow> (\<forall>x \<in> set es. le_index x \<noteq> 0 \<and>
        le_index x \<le> commit_index (nodes c n) \<and> node_log c n ! (unat (le_index x) - 1) = x))"

lemma commit_invD:
  assumes "commit_inv V tlog c"
  shows "n \<in> V \<Longrightarrow> engine_inv (nodes c n)"
    "n \<in> V \<Longrightarrow> committed_upto V tlog c (node_term c n) (unat (commit_index (nodes c n))) (node_log c n)"
    "(m, Send q (AppendEntries t l p pt es lc)) \<in> history c \<Longrightarrow> committed_upto V tlog c t (unat lc) (tlog t)"
    "n \<in> V \<Longrightarrow> role (nodes c n) = Leader \<Longrightarrow> match_index (nodes c n) v = Some j \<Longrightarrow> j \<noteq> 0 \<Longrightarrow>
      stored c v (node_term c n) (unat j)"
    "(n, Apply es) \<in> history c \<Longrightarrow> x \<in> set es \<Longrightarrow> le_index x \<noteq> 0 \<and>
      le_index x \<le> commit_index (nodes c n) \<and> node_log c n ! (unat (le_index x) - 1) = x"
  using assms unfolding commit_inv_def by blast+

lemma commit_inv_init:
  assumes "deployment V hos cfgs"
  shows "commit_inv V (\<lambda>t. []) (cluster_init hos nows cfgs)"
proof -
  have "engine_inv (nodes (cluster_init hos nows cfgs) n)" if "n \<in> V" for n
    using engine_inv_new [of "hos n" MemoryStorage_new "nows n" "cfgs n"] assms that storage_wf_new
    by (simp add: deployment_def cluster_init_def MemoryStorage_new_def)
  then show ?thesis
    by (simp add: commit_inv_def committed_upto_def cluster_init_def engine_new_def)
qed

text \<open>Acknowledged and committed entries stay so.\<close>

lemma stored_mono: "stored c v t k \<Longrightarrow> stored (cluster_apply c n i) v t k"
  using history_step [of c n i] unfolding stored_def by blast

lemma stored_less: "stored c v t k \<Longrightarrow> j \<le> k \<Longrightarrow> stored c v t j"
  unfolding stored_def by (meson order_trans)

lemma quorum_stored_step:
  assumes "good_step V tlog c n i" "quorum_stored V tlog c t k"
  shows "quorum_stored V (tlog_step tlog (stepped c n i)) (cluster_apply c n i) t k"
    and "take k (tlog_step tlog (stepped c n i) t) = take k (tlog t)"
proof -
  from assms(2) obtain Q where q: "own tlog t k" "majority_of (voter_membership V) Q" "\<forall>v \<in> Q. stored c v t k"
    by (auto simp: quorum_stored_def)
  note own = tlog_ext_own [OF tlog_step_ext [OF assms(1)] q(1)]
  show "take k (tlog_step tlog (stepped c n i) t) = take k (tlog t)" by (rule conjunct2 [OF own])
  have "\<forall>v \<in> Q. stored (cluster_apply c n i) v t k" using q(3) by (simp add: stored_mono)
  then show "quorum_stored V (tlog_step tlog (stepped c n i)) (cluster_apply c n i) t k"
    using conjunct1 [OF own] q(2) unfolding quorum_stored_def by auto
qed

lemma committed_step:
  assumes "good_step V tlog c n i" "committed_upto V tlog c b j log" "prefix (take j log) log'" "b \<le> b'"
  shows "committed_upto V (tlog_step tlog (stepped c n i)) (cluster_apply c n i) b' j log'"
proof (cases "j = 0")
  case False
  then obtain t k where q: "t \<le> b" "quorum_stored V tlog c t k" "j \<le> k" "prefix (take j (tlog t)) log"
    using assms(2) by (auto simp: committed_upto_def)
  note s = quorum_stored_step [OF assms(1) q(2)]
  have "k \<le> length (tlog t)" using q(2) by (simp add: quorum_stored_def own_def)
  then have "take j (tlog t) = take j log" using q(3,4) by (auto simp: prefix_def)
  moreover have "take j (tlog_step tlog (stepped c n i) t) = take j (tlog t)"
    using s(2) q(3) by (metis min_absorb1 take_take)
  ultimately have "prefix (take j (tlog_step tlog (stepped c n i) t)) log'" using assms(3) by simp
  moreover have "t \<le> b'" using q(1) assms(4) by (rule order_trans)
  ultimately show ?thesis using s(1) q(3) unfolding committed_upto_def by blast
qed (simp add: committed_upto_def)

lemma committed_less: "committed_upto V tlog c b i log \<Longrightarrow> j \<le> i \<Longrightarrow> committed_upto V tlog c b j log"
  unfolding committed_upto_def by (metis le_zero_eq order_trans prefix_order.trans take_prefix_mono)

text \<open>Two committed prefixes agree.\<close>

lemma quorum_stored_own:
  assumes "log_inv V tlog c" "quorum_stored V tlog c t k"
  shows "k \<le> length (tlog t)" "elected c t"
proof -
  show k: "k \<le> length (tlog t)" using assms(2) by (simp add: quorum_stored_def own_def)
  have "0 < k" using assms(2) by (simp add: quorum_stored_def own_def)
  with k have "tlog t \<noteq> []" by auto
  then show "elected c t" using log_invD(6) [OF assms(1)] by (simp add: elected_def)
qed

lemma committed_prefix:
  assumes "log_inv V tlog c" "ack_inv V tlog c" "ballot_inv V tlog c"
    and "quorum_stored V tlog c t k" "elected c u" "t \<le> u"
  shows "prefix (take k (tlog t)) (tlog u)"
  using leaders_complete [OF assms(1-5)] assms(6) take_is_prefix by (cases "t = u") auto

lemma committed_agree:
  assumes "log_inv V tlog c" "ack_inv V tlog c" "ballot_inv V tlog c"
    and "committed_upto V tlog c b i log" "committed_upto V tlog c b' i' log'" "j \<le> i" "j \<le> i'"
  shows "take j log = take j log'"
proof (cases "j = 0")
  case False
  with assms(4-7) obtain t k t' k' where q: "quorum_stored V tlog c t k" "i \<le> k" "prefix (take i (tlog t)) log"
    and q': "quorum_stored V tlog c t' k'" "i' \<le> k'" "prefix (take i' (tlog t')) log'"
    by (auto simp: committed_upto_def)
  note own = quorum_stored_own [OF assms(1) q(1)] quorum_stored_own [OF assms(1) q'(1)]
  have a: "take j log = take j (tlog t)" "take j log' = take j (tlog t')"
    using q q' own assms(6,7) by (auto simp: prefix_def min_def)
  have "take j (tlog t) = take j (tlog t')"
  proof (cases "t \<le> t'")
    case True
    with committed_prefix [OF assms(1-3) q(1) own(4)] show ?thesis
      using q(2) assms(6) own(1) by (auto simp: prefix_def)
  next
    case False
    then have "t' \<le> t" by simp
    with committed_prefix [OF assms(1-3) q'(1) own(2)] show ?thesis
      using q'(2) assms(7) own(3) by (auto simp: prefix_def)
  qed
  then show ?thesis by (simp add: a)
qed simp


subsection \<open>Steps\<close>

definition full_inv :: "NodeId set \<Rightarrow> (Term \<Rightarrow> LogEntry list) \<Rightarrow> ('p, 'a) Cluster \<Rightarrow> bool" where
  "full_inv V tlog c \<longleftrightarrow> election_inv V c \<and> log_inv V tlog c \<and> ack_inv V tlog c \<and> ballot_inv V tlog c \<and> commit_inv V tlog c"

lemma full_invD:
  assumes "full_inv V tlog c"
  shows "election_inv V c" "log_inv V tlog c" "ack_inv V tlog c" "ballot_inv V tlog c" "commit_inv V tlog c"
  using assms by (simp_all add: full_inv_def)

text \<open>
  An accepted AppendEntries does not contradict a committed entry: the
  \<open>debug_assert!(idx > self.commit_index)\<close> before the truncation holds.
\<close>

lemma accepted_conflict_free:
  assumes "full_inv V tlog c" "good_step V tlog c n i" "i = InRpc s (AppendEntries t l p pt es lc) now"
    and "node_term c n \<le> t" "prev_log_ok (storage (nodes c n)) p pt"
  shows "conflict_free (node_log c n) (unat p) es (unat (commit_index (nodes c n)))"
  unfolding conflict_free_def
proof (intro allI impI)
  note inv = full_invD [OF assms(1)] and g = good_stepD [OF assms(2)]
  note acc = accepted_log [OF assms(2-5)]
  let ?ci = "unat (commit_index (nodes c n))"
  fix j assume j: "j < length es" "unat p + j < length (node_log c n)" "unat p + j < ?ci"
  have ok: "ae_ok tlog t p pt es" by (rule log_invD(4) [OF inv(2) acc(2)])
  from commit_invD(2) [OF inv(5) g(3)] j(3) obtain u k where u: "u \<le> node_term c n" "quorum_stored V tlog c u k"
    "?ci \<le> k" "prefix (take ?ci (tlog u)) (node_log c n)" by (auto simp: committed_upto_def)
  have "elected c t" using ack_invD(3) [OF inv(3) acc(2)] by (auto simp: elected_def)
  then have "prefix (take k (tlog u)) (tlog t)"
    using committed_prefix [OF inv(2-4) u(2)] u(1) assms(4) by simp
  moreover have k: "k \<le> length (tlog u)" by (rule quorum_stored_own [OF inv(2) u(2)])
  ultimately have "tlog t ! (unat p + j) = tlog u ! (unat p + j)"
    using j(3) u(3) by (auto simp: prefix_def nth_append)
  moreover have "node_log c n ! (unat p + j) = tlog u ! (unat p + j)"
    using u(3,4) j(3) k by (auto simp: prefix_def nth_append)
  moreover have "es ! j = tlog t ! (unat p + j)"
  proof -
    have "es ! j = drop (unat p) (take (unat p + length es) (tlog t)) ! j" using ok by (simp add: ae_ok_def)
    also have "\<dots> = tlog t ! (unat p + j)"
      using j(1) conjunct1 [OF ok [unfolded ae_ok_def]] by simp
    finally show ?thesis .
  qed
  ultimately show "le_term (node_log c n ! (unat p + j)) = le_term (es ! j)" by simp
qed

lemma step_input_ok:
  assumes "full_inv V tlog c" "good_step V tlog c n i"
  shows "input_ok (nodes c n) i"
proof -
  note inv = full_invD [OF assms(1)] and g = good_stepD [OF assms(2)]
  show ?thesis
  proof (cases "(nodes c n, i)" rule: input_ok.cases)
    case (2 e s t l p pt es lc now)
    then have i: "i = InRpc s (AppendEntries t l p pt es lc) now" and e: "e = nodes c n" by simp_all
    have "numbered (unat p) es \<and> fits_u64 (Suc (unat p + length es)) \<and>
        conflict_free (node_log c n) (unat p) es (unat (commit_index (nodes c n)))"
      if a: "node_term c n \<le> t" "prev_log_ok (storage (nodes c n)) p pt"
    proof -
      have ok: "ae_ok tlog t p pt es" by (rule log_invD(4) [OF inv(2) accepted_log(2) [OF assms(2) i a]])
      then have "Suc (unat p + length es) \<le> Suc (length (tlog t))" by (simp add: ae_ok_def)
      then have "fits_u64 (Suc (unat p + length es))"
        using tlogs_okD(3) [OF log_invD(1) [OF inv(2)], of t] unfolding fits_u64_iff by (rule order.strict_trans1)
      then show ?thesis
        using ae_ok_numbered [OF log_invD(1) [OF inv(2)] ok] accepted_conflict_free [OF assms i a] by simp
    qed
    then show ?thesis by (simp add: i)
  qed (use g(5) in auto)
qed

lemma step_engine:
  assumes "full_inv V tlog c" "good_step V tlog c n i"
  shows "step_ok (nodes c n) (stepped c n i) (snd (engine_apply (nodes c n) i))"
  by (rule engine_apply_step [OF commit_invD(1) [OF full_invD(5) [OF assms(1)] good_stepD(3) [OF assms(2)]]
        step_input_ok [OF assms]])

text \<open>The committed prefix stays.\<close>

lemma step_keeps_committed:
  assumes "full_inv V tlog c" "good_step V tlog c n i"
  shows "prefix (take (unat (commit_index (nodes c n))) (node_log c n)) (engine_log (stepped c n i))"
proof -
  have "prefix (take (unat (commit_index (nodes c n))) (node_log c n))
      (take (unat (commit_index (stepped c n i))) (engine_log (stepped c n i)))"
    using step_engine [OF assms] by (simp add: step_ok_def)
  then show ?thesis using take_is_prefix by (rule prefix_order.trans)
qed


text \<open>What a leader commits is acknowledged by a majority.\<close>

lemma success_quorum:
  assumes "full_inv V tlog c" "good_step V tlog c n i" "credited (nodes c n) i"
    and i: "i = InRpc s (AppendEntriesResp (node_term c n) True m) now"
    and lead: "role (nodes c n) = Leader" and last: "last_ae (nodes c n) s = Some (a, k)"
    and com: "commitable (peer_matched (nodes c n) s (a + of_nat k)) j"
  shows "quorum_stored V tlog c (node_term c n) (unat j)"
proof -
  note inv = full_invD [OF assms(1)] and g = good_stepD [OF assms(2)]
  let ?t = "node_term c n" and ?e2 = "peer_matched (nodes c n) s (a + of_nat k)"
  have eng: "engine_inv (nodes c n)" by (rule commit_invD(1) [OF inv(5) g(3)])
  have id: "cfg_node_id (config (nodes c n)) = n" "set (voters (membership (nodes c n))) = V"
    using g(3,7) by (simp_all add: static_ok_def)
  have log: "node_log c n = tlog ?t" by (rule log_invD(5) [OF inv(2) g(3) lead])
  from com obtain x where x: "entry (storage (nodes c n)) j = Some x" "le_term x = ?t"
      "quorum (membership (nodes c n)) \<le> replica_count ?e2 j"
    by (auto simp: commitable_def engine_current_term_def split: option.splits)
  then have j: "j \<noteq> 0" "unat j \<le> length (tlog ?t)" "le_term (tlog ?t ! (unat j - 1)) = ?t"
    by (auto simp: ms.entry_log [OF g(10)] log split: if_splits)
  then have own: "own tlog ?t (unat j)" using unat_pos_u64 [of j] by (simp add: own_def)
  have leader: "(n, BecomeLeader ?t) \<in> history c" by (rule elected_leader [OF g(2,3) lead])
  have answer: "(s, Send n (AppendEntriesResp ?t True m)) \<in> history c"
    using g(4,6) i by (auto simp: in_flight_def requests_ok_def)
  have le: "a + of_nat k \<le> m" using assms(3) lead last by (simp add: i)
  let ?Q = "holders ?e2 j"
  have "stored c v ?t (unat j)" if v: "v \<in> ?Q" for v
  proof (cases "v = n")
    case True
    with leader show ?thesis by (simp add: stored_def)
  next
    case False
    then have m: "j \<le> (case match_index ?e2 v of Some m \<Rightarrow> m | None \<Rightarrow> 0)"
      using v by (simp add: holders_def id)
    show ?thesis
    proof (cases "v = s")
      case True
      then have "unat j \<le> unat m" using m le by (simp add: word_le_nat_alt)
      then show ?thesis using answer True by (auto simp: stored_def)
    next
      case False
      then obtain b where b: "match_index (nodes c n) v = Some b" "j \<le> b"
        using m j(1) by (auto split: option.splits)
      then have "b \<noteq> 0" using j(1) by auto
      from commit_invD(4) [OF inv(5) g(3) lead b(1) this] show ?thesis
        by (rule stored_less) (use b(2) in \<open>simp add: word_le_nat_alt\<close>)
    qed
  qed
  moreover have "majority_of (voter_membership V) ?Q"
  proof (rule static_ok_majority [OF g(7,3)])
    show "?Q \<subseteq> V" by (auto simp: holders_def id)
    have "replica_count ?e2 j = card ?Q"
      by (rule replica_count_holders) (use engine_inv_simps(3) [OF eng] g(3) id in simp_all)
    with x(3) show "quorum (membership (nodes c n)) \<le> card ?Q" by simp
  qed
  ultimately show ?thesis using own by (auto simp: quorum_stored_def)
qed

lemma step_commit:
  assumes "full_inv V tlog c" "good_step V tlog c n i" "credited (nodes c n) i"
  shows "committed_upto V (tlog_step tlog (stepped c n i)) (cluster_apply c n i)
    (engine_current_term (stepped c n i)) (unat (commit_index (stepped c n i))) (engine_log (stepped c n i))"
proof -
  note inv = full_invD [OF assms(1)] and g = good_stepD [OF assms(2)]
  let ?e = "nodes c n" and ?e' = "stepped c n i"
  let ?goal = "\<lambda>j. committed_upto V (tlog_step tlog ?e') (cluster_apply c n i) (engine_current_term ?e') j (engine_log ?e')"
  have eng: "engine_inv ?e" by (rule commit_invD(1) [OF inv(5) g(3)])
  have old: "?goal (unat (commit_index ?e))"
    by (rule committed_step [OF assms(2) commit_invD(2) [OF inv(5) g(3)] step_keeps_committed [OF assms(1,2)]
          term_step [OF g(4)]])
  show ?thesis
  proof (rule engine_apply_commit [OF eng, of i])
    assume "commit_index ?e' = commit_index ?e"
    with old show ?thesis by simp
  next
    fix s t l p pt es lc now
    assume a: "i = InRpc s (AppendEntries t l p pt es lc) now" "node_term c n \<le> t" "prev_log_ok (storage ?e) p pt"
    note acc = accepted_log [OF assms(2) a]
    let ?last = "p + of_nat (length es) :: u64"
    have num: "numbered (unat p) es"
      by (rule ae_ok_numbered [OF log_invD(1) [OF inv(2)] log_invD(4) [OF inv(2) acc(2)]])
    have ci: "commit_index ?e' = max (commit_index ?e) (min lc ?last)"
      using append_entries_accept(7) [OF g(10) engine_inv_simps(4) [OF eng] a(2,3) num, of s l lc now] by (simp add: a(1))
    have "prefix (take (unat (min lc ?last)) (tlog t)) (engine_log ?e')"
    proof -
      have "prefix (take (unat (min lc ?last)) (tlog t)) (take (unat ?last) (tlog t))"
        by (intro take_prefix_mono) (simp add: unat_min_u64)
      moreover have "prefix (take (unat ?last) (tlog t)) (engine_log ?e')" using acc(1,4) by simp
      ultimately show ?thesis by (rule prefix_order.trans)
    qed
    moreover have "committed_upto V tlog c t (unat (min lc ?last)) (tlog t)"
    proof -
      have "unat (min lc ?last) \<le> unat lc" by (simp add: unat_min_u64)
      then show ?thesis using commit_invD(3) [OF inv(5) acc(2)] by (rule committed_less [rotated])
    qed
    moreover have "t \<le> engine_current_term ?e'" by (simp only: acc(5) order_refl)
    ultimately have "?goal (unat (min lc ?last))" by (intro committed_step [OF assms(2)])
    with old show ?thesis by (simp add: ci max_def)
  next
    fix s m now a k
    assume r: "i = InRpc s (AppendEntriesResp (node_term c n) True m) now" "role ?e = Leader"
      "last_ae ?e s = Some (a, k)" "role ?e' = Leader" "engine_hard ?e' = engine_hard ?e"
      and ci: "commit_index ?e' = commit_target (peer_matched ?e s (a + of_nat k))"
    show ?thesis
    proof (cases rule: commit_target_cases [of "peer_matched ?e s (a + of_nat k)"])
      case 1
      then show ?thesis using old ci by simp
    next
      case 2
      then have "commitable (peer_matched ?e s (a + of_nat k)) (commit_index ?e')" by (simp add: ci)
      from success_quorum [OF assms r(1-3) this]
      have "committed_upto V tlog c (node_term c n) (unat (commit_index ?e')) (tlog (node_term c n))"
        unfolding committed_upto_def by (blast intro: take_is_prefix)
      moreover have "tlog (node_term c n) = node_log c n" using log_invD(5) [OF inv(2) g(3) r(2)] by simp
      moreover have "engine_log ?e' = node_log c n"
      proof (rule step_log_cases [OF assms(2)])
        fix x assume "engine_log ?e' = node_log c n @ [x]"
        moreover have "storage ?e' = storage ?e" using append_entries_resp_core [of "node_term c n" ?e] by (simp add: r(1))
        ultimately show ?thesis by simp
      qed (use r(1) in simp_all)
      ultimately show ?thesis
        using term_step [OF g(4)] take_is_prefix [of "unat (commit_index ?e')" "node_log c n"]
        by (intro committed_step [OF assms(2), of "node_term c n" _ "node_log c n"]) simp_all
    qed
  qed
qed


lemma step_sent_commit:
  assumes "full_inv V tlog c" "good_step V tlog c n i" "credited (nodes c n) i"
  defines "c' \<equiv> cluster_apply c n i" and "tlog' \<equiv> tlog_step tlog (stepped c n i)"
  assumes "(m, Send q (AppendEntries t l p pt es lc)) \<in> history c'"
  shows "committed_upto V tlog' c' t (unat lc) (tlog' t)"
proof -
  note inv = full_invD [OF assms(1)] and g = good_stepD [OF assms(2)]
  from new_action [OF assms(6) [unfolded c'_def]] show ?thesis
  proof
    assume "(m, Send q (AppendEntries t l p pt es lc)) \<in> history c"
    then have "committed_upto V tlog c t (unat lc) (tlog t)" by (rule commit_invD(3) [OF inv(5)])
    moreover have "prefix (take (unat lc) (tlog t)) (tlog' t)"
      using take_is_prefix tlog_ext_prefix [OF tlog_step_ext [OF assms(2)]] unfolding tlog'_def by (rule prefix_order.trans)
    ultimately show ?thesis
      unfolding tlog'_def c'_def by (rule committed_step [OF assms(2) _ _ order_refl])
  next
    assume "m = n \<and> Send q (AppendEntries t l p pt es lc) \<in> set (snd (engine_apply (nodes c n) i))"
    then have a: "Send q (AppendEntries t l p pt es lc) \<in> set (snd (engine_apply (nodes c n) i))" by simp
    from append_entries_sent [OF a] have r: "role (stepped c n i) = Leader" and
      "t = engine_current_term (stepped c n i)" "lc = commit_index (stepped c n i)"
      by (auto simp: is_append_entries_def ae_content_def engine_current_term_def)
    moreover from this have "tlog' t = engine_log (stepped c n i)" by (simp add: tlog'_def tlog_step_def)
    ultimately show ?thesis using step_commit [OF assms(1-3)] by (simp add: c'_def tlog'_def)
  qed
qed

lemma step_match:
  assumes "full_inv V tlog c" "good_step V tlog c n i" "credited (nodes c n) i"
    and "role (stepped c n i) = Leader" "match_index (stepped c n i) v = Some j" "j \<noteq> 0"
  shows "stored (cluster_apply c n i) v (engine_current_term (stepped c n i)) (unat j)"
proof -
  note inv = full_invD [OF assms(1)] and g = good_stepD [OF assms(2)]
  have same: "engine_current_term (stepped c n i) = node_term c n"
    using leading_step [OF assms(4)] by (simp add: engine_current_term_def)
  have old: "stored (cluster_apply c n i) v (node_term c n) (unat j)"
    if "role (nodes c n) = Leader" "match_index (nodes c n) v = Some j"
    using commit_invD(4) [OF inv(5) g(3) that assms(6)] by (rule stored_mono)
  show ?thesis
    unfolding same
  proof (rule engine_apply_commit [OF commit_invD(1) [OF inv(5) g(3)], of i])
    assume "role (stepped c n i) = Leader \<Longrightarrow>
      role (nodes c n) = Leader \<and> match_index (stepped c n i) = match_index (nodes c n) \<or>
      (\<forall>p m. match_index (stepped c n i) p = Some m \<longrightarrow> m = 0)"
    with assms(4-6) old show "stored (cluster_apply c n i) v (node_term c n) (unat j)" by auto
  next
    fix s t l p pt es lc now
    assume "i = InRpc s (AppendEntries t l p pt es lc) now" "node_term c n \<le> t" "prev_log_ok (storage (nodes c n)) p pt"
    from accepted_log(6) [OF assms(2) this] assms(4)
    show "stored (cluster_apply c n i) v (node_term c n) (unat j)" by simp
  next
    fix s m now a k
    assume r: "i = InRpc s (AppendEntriesResp (node_term c n) True m) now" "role (nodes c n) = Leader"
      "last_ae (nodes c n) s = Some (a, k)"
      and mi: "match_index (stepped c n i) = (match_index (nodes c n))(s \<mapsto> a + of_nat k)"
    show "stored (cluster_apply c n i) v (node_term c n) (unat j)"
    proof (cases "v = s")
      case True
      then have "j \<le> m" using assms(3,5) r mi by simp
      moreover have "(s, Send n (AppendEntriesResp (node_term c n) True m)) \<in> history c"
        using g(4,6) r(1) by (auto simp: in_flight_def requests_ok_def)
      ultimately have "stored c v (node_term c n) (unat j)" using True by (auto simp: stored_def word_le_nat_alt)
      then show ?thesis by (rule stored_mono)
    qed (use old r(2) mi assms(5) in simp)
  qed
qed

lemma applied_member: "Apply es \<in> set as \<Longrightarrow> x \<in> set es \<Longrightarrow> x \<in> set (applied as)"
  by (force simp: applied_def)

lemma step_applied:
  assumes "full_inv V tlog c" "good_step V tlog c n i"
  defines "c' \<equiv> cluster_apply c n i"
  assumes "(m, Apply es) \<in> history c'" "x \<in> set es"
  shows "le_index x \<noteq> 0 \<and> le_index x \<le> commit_index (nodes c' m) \<and> node_log c' m ! (unat (le_index x) - 1) = x"
proof -
  note inv = full_invD [OF assms(1)] and g = good_stepD [OF assms(2)]
  have node: "nodes c' k = (if k = n then stepped c n i else nodes c k)" for k by (simp add: c'_def cluster_apply_sel)
  from new_action [OF assms(4) [unfolded c'_def]] show ?thesis
  proof
    assume h: "(m, Apply es) \<in> history c"
    note old = commit_invD(5) [OF inv(5) h assms(5)]
    show ?thesis
    proof (cases "m = n")
      case True
      have "commit_index (nodes c n) \<le> commit_index (stepped c n i)" using step_engine [OF assms(1,2)] by (simp add: step_ok_def)
      moreover have "engine_log (stepped c n i) ! (unat (le_index x) - 1) = x"
      proof -
        have "unat (le_index x) \<le> unat (commit_index (nodes c n))" "0 < unat (le_index x)"
          using old True unat_pos_u64 [of "le_index x"] by (simp_all add: word_le_nat_alt)
        then have "unat (le_index x) - 1 < unat (commit_index (nodes c n))" by linarith
        moreover have "unat (commit_index (nodes c n)) \<le> length (node_log c n)"
          by (rule engine_inv_simps(5) [OF commit_invD(1) [OF inv(5) g(3)]])
        ultimately show ?thesis
          using step_keeps_committed [OF assms(1,2)] old True by (auto simp: prefix_def nth_append)
      qed
      ultimately show ?thesis using old True by (auto simp: node)
    qed (use old in \<open>simp add: node\<close>)
  next
    assume "m = n \<and> Apply es \<in> set (snd (engine_apply (nodes c n) i))"
    then have m: "m = n" and "x \<in> set (applied (snd (engine_apply (nodes c n) i)))"
      using applied_member assms(5) by blast+
    then have "x \<in> set (take (unat (commit_index (stepped c n i))) (engine_log (stepped c n i)))"
      using step_engine [OF assms(1,2)] by (simp add: step_ok_def)
    then obtain j where j: "j < unat (commit_index (stepped c n i))" "j < length (engine_log (stepped c n i))"
        "x = engine_log (stepped c n i) ! j"
      by (auto simp: in_set_conv_nth)
    then have "unat (le_index x) = Suc j"
      using numbered_nth [of 0 "engine_log (stepped c n i)" j] step_wf [OF assms(2)] by (simp add: storage_wf_def)
    then show ?thesis using j m by (auto simp: node word_le_nat_alt)
  qed
qed


lemma commit_inv_apply:
  assumes "full_inv V tlog c" "good_step V tlog c n i" "credited (nodes c n) i"
  shows "commit_inv V (tlog_step tlog (stepped c n i)) (cluster_apply c n i)"
proof -
  note inv = full_invD [OF assms(1)] and g = good_stepD [OF assms(2)]
  let ?c = "cluster_apply c n i" and ?tl = "tlog_step tlog (stepped c n i)"
  have node: "nodes ?c k = (if k = n then stepped c n i else nodes c k)" for k by (simp add: cluster_apply_sel)
  have eng: "engine_inv (nodes ?c v)" if "v \<in> V" for v
    using step_engine [OF assms(1,2)] commit_invD(1) [OF inv(5) that] by (simp add: node step_ok_def)
  have com: "committed_upto V ?tl ?c (node_term ?c v) (unat (commit_index (nodes ?c v))) (node_log ?c v)"
    if v: "v \<in> V" for v
  proof (cases "v = n")
    case False
    then show ?thesis
      using committed_step [OF assms(2) commit_invD(2) [OF inv(5) v] take_is_prefix order_refl] by (simp add: node)
  qed (use step_commit [OF assms] in \<open>simp add: node\<close>)
  have mat: "stored ?c p (node_term ?c v) (unat m)"
    if v: "v \<in> V" "role (nodes ?c v) = Leader" "match_index (nodes ?c v) p = Some m" "m \<noteq> 0" for v p m
  proof (cases "v = n")
    case False
    then show ?thesis using stored_mono [OF commit_invD(4) [OF inv(5) v(1)]] v(2-4) by (simp add: node)
  qed (use step_match [OF assms] v in \<open>simp add: node\<close>)
  show ?thesis
    unfolding commit_inv_def
  proof (intro conjI ballI allI impI)
    fix m es x assume "(m, Apply es) \<in> history ?c" "x \<in> set es"
    note r = step_applied [OF assms(1,2) this]
    show "le_index x \<noteq> 0" by (rule conjunct1 [OF r])
    show "le_index x \<le> commit_index (nodes ?c m)" by (rule conjunct1 [OF conjunct2 [OF r]])
    show "node_log ?c m ! (unat (le_index x) - 1) = x" by (rule conjunct2 [OF conjunct2 [OF r]])
  qed (fact eng com mat step_sent_commit [OF assms])+
qed

lemma full_inv_apply:
  assumes "full_inv V tlog c" "n \<in> V" "admissible c n i" "has_room (nodes c n) i" "credited (nodes c n) i"
  shows "full_inv V (tlog_step tlog (stepped c n i)) (cluster_apply c n i)"
proof -
  note inv = full_invD [OF assms(1)]
  have g: "good_step V tlog c n i" using inv(1,2) assms(2-4) by (simp add: good_step_def)
  show ?thesis
    unfolding full_inv_def
    by (intro conjI election_inv_apply [OF inv(1) assms(2,3)] log_inv_apply [OF inv(2,1) assms(2-4)]
        ack_inv_apply [OF g inv(3)] ballot_inv_apply [OF g inv(3,4)] commit_inv_apply [OF assms(1) g assms(5)])
qed

lemma full_inv_reachable:
  assumes "deployment V hos cfgs" "credited_reachable V (cluster_init hos nows cfgs) c"
  shows "\<exists>tlog. full_inv V tlog c"
  using assms(2)
proof induction
  case start
  have "full_inv V (\<lambda>t. []) (cluster_init hos nows cfgs)"
    unfolding full_inv_def
    by (intro conjI election_inv_init [OF assms(1)] log_inv_init ack_inv_init ballot_inv_init commit_inv_init [OF assms(1)])
  then show ?case by blast
next
  case (step c n i)
  then show ?case using full_inv_apply by blast
qed

subsection \<open>The safety of committed entries\<close>

lemma commit_within:
  assumes "full_inv V tlog c" "n \<in> V" "i \<noteq> 0" "i \<le> commit_index (nodes c n)"
  shows "entry (storage (nodes c n)) i = Some (node_log c n ! (unat i - 1))" "unat i \<le> length (node_log c n)"
proof -
  note eng = engine_inv_simps [OF commit_invD(1) [OF full_invD(5) [OF assms(1)] assms(2)]]
  show "unat i \<le> length (node_log c n)" using eng(5) assms(4) by (simp add: word_le_nat_alt)
  then show "entry (storage (nodes c n)) i = Some (node_log c n ! (unat i - 1))"
    using assms(3) by (simp add: ms.entry_log [OF eng(1)])
qed

lemma committed_entries_agree:
  assumes "full_inv V tlog c" "n \<in> V" "m \<in> V" "i \<noteq> 0" "i \<le> commit_index (nodes c n)" "i \<le> commit_index (nodes c m)"
  shows "node_log c n ! (unat i - 1) = node_log c m ! (unat i - 1)"
proof -
  note inv = full_invD [OF assms(1)]
  have "take (unat i) (node_log c n) = take (unat i) (node_log c m)"
    using assms(5,6) by (intro committed_agree [OF inv(2-4) commit_invD(2) [OF inv(5) assms(2)]
          commit_invD(2) [OF inv(5) assms(3)]]) (simp_all add: word_le_nat_alt)
  then show ?thesis using unat_pos_u64 [OF assms(4)] by (metis diff_less nth_take zero_less_one)
qed

lemma applied_agree:
  assumes "full_inv V tlog c" "(n, Apply es) \<in> history c" "x \<in> set es" "(m, Apply es') \<in> history c" "y \<in> set es'"
    and "le_index x = le_index y"
  shows "x = y"
proof -
  note f = full_invD [OF assms(1)]
  have V: "n \<in> V" "m \<in> V" using f(1) assms(2,4) by (auto simp: election_inv_def requests_ok_def)
  note x = commit_invD(5) [OF f(5) assms(2,3)] and y = commit_invD(5) [OF f(5) assms(4,5)]
  from x y assms(6) show ?thesis using committed_entries_agree [OF assms(1) V, of "le_index x"] by auto
qed

text \<open>
  C6: State machine safety: if every success is credited only with what the answering node has stored, no two
  nodes of a cluster ever apply different entries at the same index, whatever the network delays,
  duplicates, reorders or loses and whichever leaders come and go.
\<close>

theorem state_machine_safety:
  assumes "deployment V hos cfgs" and "credited_reachable V (cluster_init hos nows cfgs) c"
    and "(n, Apply es) \<in> history c" "x \<in> set es" "(m, Apply es') \<in> history c" "y \<in> set es'"
    and "le_index x = le_index y"
  shows "x = y"
proof -
  from full_inv_reachable [OF assms(1,2)] obtain tlog where "full_inv V tlog c" by blast
  then show ?thesis using assms(3-7) by (rule applied_agree)
qed

text \<open>
  C9: Leader completeness: what a node has committed is in the log of every leader of the same or a later
  term, in every reachable cluster in which successes are credited to what the answering node has stored.
\<close>

theorem leader_completeness:
  assumes "deployment V hos cfgs" and "credited_reachable V (cluster_init hos nows cfgs) c"
    and "n \<in> V" "m \<in> V" "role (nodes c m) = Leader"
    and "engine_current_term (nodes c n) \<le> engine_current_term (nodes c m)" "i \<le> commit_index (nodes c n)"
  shows "entry (storage (nodes c m)) i = entry (storage (nodes c n)) i"
proof (cases "i = 0")
  case False
  from full_inv_reachable [OF assms(1,2)] obtain tlog where inv: "full_inv V tlog c" by blast
  note f = full_invD [OF inv] and ci = commit_within [OF inv assms(3) False assms(7)]
  have wf: "storage_wf (storage (nodes c m))" using log_invD(3) [OF f(2) assms(4)] by (simp add: storage_wf_def)
  let ?i = "unat i"
  have "?i \<le> unat (commit_index (nodes c n))" "0 < ?i"
    using assms(7) unat_pos_u64 [OF False] by (simp_all add: word_le_nat_alt)
  with committed_less [OF commit_invD(2) [OF f(5) assms(3)]] obtain t k where q: "t \<le> node_term c n"
    "quorum_stored V tlog c t k" "?i \<le> k" "prefix (take ?i (tlog t)) (node_log c n)"
    by (fastforce simp: committed_upto_def)
  have "elected c (node_term c m)" using elected_leader [OF f(1) assms(4,5)] by (auto simp: elected_def)
  then have "prefix (take k (tlog t)) (node_log c m)"
    using committed_prefix [OF f(2-4) q(2)] q(1) assms(6) log_invD(5) [OF f(2) assms(4,5)] by simp
  then have p: "prefix (take ?i (tlog t)) (node_log c m)" using take_prefix_mono [OF q(3)] by (blast intro: prefix_order.trans)
  have len: "?i \<le> length (tlog t)" using q(3) quorum_stored_own(1) [OF f(2) q(2)] by simp
  then have "?i \<le> length (node_log c m)" using prefix_length_le [OF p] by simp
  moreover have "node_log c m ! (?i - 1) = node_log c n ! (?i - 1)"
    using p q(4) len \<open>0 < ?i\<close> by (auto simp: prefix_def nth_append)
  ultimately show ?thesis using ci(1) False by (simp add: ms.entry_log [OF wf])
qed (simp add: entry_def)


text \<open>
  C10: A follower never cuts off a committed entry: when it accepts an AppendEntries, no received entry conflicts
  with one at or below its commit index (what the \<open>debug_assert!\<close> before the truncation asserts), so
  the committed prefix is the same afterwards and the commit index has not gone down.
\<close>

theorem committed_never_truncated:
  assumes "deployment V hos cfgs" and "credited_reachable V (cluster_init hos nows cfgs) c" and "n \<in> V"
    and "in_flight c s n (AppendEntries t l p pt es lc)"
    and "engine_current_term (nodes c n) \<le> t" "prev_log_ok (storage (nodes c n)) p pt"
  shows "let e = nodes c n; e' = fst (handle_append_entries e s t l p pt es lc now);
      k = unat (commit_index e)
    in conflict_free (ms_entries (storage e)) (unat p) es k \<and>
      take k (ms_entries (storage e')) = take k (ms_entries (storage e)) \<and> commit_index e \<le> commit_index e'"
proof -
  from full_inv_reachable [OF assms(1,2)] obtain tlog where inv: "full_inv V tlog c" by blast
  note f = full_invD [OF inv]
  let ?i = "InRpc s (AppendEntries t l p pt es lc) now"
  have g: "good_step V tlog c n ?i" using f(1,2) assms(3,4) by (simp add: good_step_def)
  have "unat (commit_index (nodes c n)) \<le> length (node_log c n)"
    by (rule engine_inv_simps(5) [OF commit_invD(1) [OF f(5) assms(3)]])
  then have "take (unat (commit_index (nodes c n))) (engine_log (stepped c n ?i)) =
      take (unat (commit_index (nodes c n))) (node_log c n)"
    using step_keeps_committed [OF inv g] by (auto simp: prefix_def)
  then show ?thesis
    using accepted_conflict_free [OF inv g refl assms(5,6)] step_engine [OF inv g] by (simp add: step_ok_def)
qed

text \<open>
  Node 1 is elected, takes a proposal, replicates it to node 2, commits it on the answer and tells node 2 with the
  next heartbeat; both apply it.
\<close>

fun credits :: "('p, 'a) Cluster \<Rightarrow> (NodeId \<times> EngineInput) list \<Rightarrow> bool" where
  "credits c [] = True"
| "credits c ((n, i) # sched) =
     (has_room (nodes c n) i \<and> credited (nodes c n) i \<and> credits (cluster_apply c n i) sched)"

lemma credited_run:
  "credited_reachable V c0 c \<Longrightarrow> cluster_run V c sched = Some c' \<Longrightarrow> credits c sched \<Longrightarrow> credited_reachable V c0 c'"
proof (induction sched arbitrary: c)
  case (Cons a sched)
  then show ?case by (cases a) (auto intro: credited_reachable.step split: if_splits)
qed simp

definition hello_entry :: LogEntry where
  "hello_entry = \<lparr>le_index = 1, le_term = 1, entry_type = Command [5]\<rparr>"

definition demo_commit :: "(NodeId \<times> EngineInput) list" where
  "demo_commit = demo_replication @
     [(1, InRpc 2 (AppendEntriesResp 1 True 1) 24), (1, InTick 30), (2, InRpc 1 (AppendEntries 1 1 1 1 [] 1) 31)]"

lemma demo_commit_run:
  "credits demo_init demo_commit \<and> (case cluster_run {1, 2, 3} demo_init demo_commit of None \<Rightarrow> False
     | Some c \<Rightarrow> (1, Apply [hello_entry]) \<in> history c \<and> (2, Apply [hello_entry]) \<in> history c \<and>
         role (nodes c 1) = Leader \<and> engine_current_term (nodes c 1) = 1 \<and> engine_current_term (nodes c 2) = 1 \<and>
         commit_index (nodes c 2) = 1 \<and> entry (storage (nodes c 2)) 1 = Some hello_entry \<and>
         in_flight c 1 2 (AppendEntries 1 1 0 0 [hello_entry] 0) \<and> prev_log_ok (storage (nodes c 2)) 0 0)"
  by (simp add: demo_commit_def demo_replication_def demo_election_def demo_init_def cluster_init_def demo_config_def
      in_flight_def cluster_apply_def hello_entry_def engine_eval fits_u64_def cong: let_weak_cong)

lemma demo_commit_reached:
  obtains c where "credited_reachable {1, 2, 3} (cluster_init (\<lambda>_. sorted_list_of_set) (\<lambda>_. 0) demo_config) c"
    "(1, Apply [hello_entry]) \<in> history c" "(2, Apply [hello_entry]) \<in> history c"
    "role (nodes c 1) = Leader" "engine_current_term (nodes c 1) = 1" "engine_current_term (nodes c 2) = 1"
    "commit_index (nodes c 2) = 1" "entry (storage (nodes c 2)) 1 = Some hello_entry"
    "in_flight c 1 2 (AppendEntries 1 1 0 0 [hello_entry] 0)" "prev_log_ok (storage (nodes c 2)) 0 0"
proof -
  obtain c where c: "cluster_run {1, 2, 3} demo_init demo_commit = Some c" and p: "credits demo_init demo_commit"
      "(1, Apply [hello_entry]) \<in> history c" "(2, Apply [hello_entry]) \<in> history c"
      "role (nodes c 1) = Leader" "engine_current_term (nodes c 1) = 1" "engine_current_term (nodes c 2) = 1"
      "commit_index (nodes c 2) = 1" "entry (storage (nodes c 2)) 1 = Some hello_entry"
      "in_flight c 1 2 (AppendEntries 1 1 0 0 [hello_entry] 0)" "prev_log_ok (storage (nodes c 2)) 0 0"
    using demo_commit_run by (auto split: option.splits)
  from credited_run [OF credited_reachable.start c p(1)] p(2-) show thesis
    by (intro that) (simp_all add: demo_init_def)
qed

theorem state_machine_safety_witness:
  "\<exists>c. credited_reachable {1, 2, 3} demo_init c \<and> (1, Apply [hello_entry]) \<in> history c \<and>
     (\<forall>m es' y. (m, Apply es') \<in> history c \<and> y \<in> set es' \<and> le_index y = 1 \<longrightarrow> y = hello_entry)"
proof -
  from demo_commit_reached obtain c where
    r: "credited_reachable {1, 2, 3} (cluster_init (\<lambda>_. sorted_list_of_set) (\<lambda>_. 0) demo_config) c"
    and a: "(1, Apply [hello_entry]) \<in> history c" by metis
  have "y = hello_entry" if "(m, Apply es') \<in> history c" "y \<in> set es'" "le_index y = 1" for m es' y
    by (rule state_machine_safety [OF demo_deployment r that(1,2) a]) (simp_all add: that(3) hello_entry_def)
  with r a show ?thesis by (auto simp: demo_init_def)
qed

theorem leader_completeness_witness:
  "\<exists>c. credited_reachable {1, 2, 3} demo_init c \<and> commit_index (nodes c 2) = 1 \<and>
     entry (storage (nodes c 1)) 1 = entry (storage (nodes c 2)) 1 \<and> entry (storage (nodes c 2)) 1 = Some hello_entry"
proof -
  from demo_commit_reached obtain c where
    r: "credited_reachable {1, 2, 3} (cluster_init (\<lambda>_. sorted_list_of_set) (\<lambda>_. 0) demo_config) c"
    and c: "role (nodes c 1) = Leader" "engine_current_term (nodes c 1) = 1" "engine_current_term (nodes c 2) = 1"
      "commit_index (nodes c 2) = 1" "entry (storage (nodes c 2)) 1 = Some hello_entry" by metis
  have "entry (storage (nodes c 1)) 1 = entry (storage (nodes c 2)) 1"
    by (rule leader_completeness [OF demo_deployment r _ _ c(1)]) (simp_all add: c)
  with r c show ?thesis by (auto simp: demo_init_def)
qed

theorem committed_never_truncated_witness:
  "\<exists>c. credited_reachable {1, 2, 3} demo_init c \<and> commit_index (nodes c 2) = 1 \<and>
     conflict_free (ms_entries (storage (nodes c 2))) 0 [hello_entry] 1"
proof -
  from demo_commit_reached obtain c where
    r: "credited_reachable {1, 2, 3} (cluster_init (\<lambda>_. sorted_list_of_set) (\<lambda>_. 0) demo_config) c"
    and c: "engine_current_term (nodes c 2) = 1" "commit_index (nodes c 2) = 1"
      "in_flight c 1 2 (AppendEntries 1 1 0 0 [hello_entry] 0)" "prev_log_ok (storage (nodes c 2)) 0 0" by metis
  from committed_never_truncated [OF demo_deployment r _ c(3) _ c(4)] c(1,2) r show ?thesis
    by (auto simp: demo_init_def Let_def)
qed

end
