(* ===== verification/ClusterSpec.thy ===== *)
theory ClusterSpec
  imports ClusterCommit
begin

text \<open>
  The contract of the cluster: a replicated log. There is one shared list of entries that only grows at its
  end, and each node hands a longer and longer prefix of it to its application. The cluster of engines
  refines this, step by step, where successes are credited to what was acknowledged.
\<close>

subsection \<open>The abstract replicated log\<close>

record RepLog =
  shared :: "LogEntry list"
  seen :: "NodeId \<Rightarrow> nat"

definition RepLog_new :: RepLog where
  "RepLog_new = \<lparr>shared = [], seen = (\<lambda>n. 0)\<rparr>"

text \<open>One step: some entries are added to the shared list, and node \<open>n\<close> is given the entries up to \<open>k\<close>.\<close>

inductive replog_step :: "RepLog \<Rightarrow> NodeId \<Rightarrow> LogEntry list \<Rightarrow> RepLog \<Rightarrow> bool" where
  deliver: "seen a n \<le> k \<Longrightarrow> k \<le> length (shared a @ new) \<Longrightarrow>
    replog_step a n (drop (seen a n) (take k (shared a @ new))) (a\<lparr>shared := shared a @ new, seen := (seen a)(n := k)\<rparr>)"

text \<open>What the contract gives to a user: nothing is taken back and what is delivered comes from the shared list.\<close>

lemma replog_step_grows:
  assumes "replog_step a n es a'"
  shows "prefix (shared a) (shared a') \<and> seen a m \<le> seen a' m \<and>
    take (seen a n) (shared a') @ es = take (seen a' n) (shared a')"
  using assms
proof cases
  case (deliver k new)
  have k: "seen a n \<le> k" and es: "es = drop (seen a n) (take k (shared a @ new))"
    and a': "a' = a\<lparr>shared := shared a @ new, seen := (seen a)(n := k)\<rparr>" using deliver by simp_all
  let ?l = "shared a @ new"
  have "take (seen a n) ?l = take (seen a n) (take k ?l)" using k by (simp add: min_absorb1 del: take_append)
  then have "take (seen a n) ?l @ es = take k ?l" by (simp only: es append_take_drop_id)
  with k show ?thesis by (simp add: a' del: take_append)
qed

subsection \<open>The abstraction\<close>

text \<open>The committed entries of a node, and the longest such list in the cluster.\<close>

definition committed_of :: "('p, 'a) Cluster \<Rightarrow> NodeId \<Rightarrow> LogEntry list" where
  "committed_of c n = take (unat (commit_index (nodes c n))) (ms_entries (storage (nodes c n)))"

definition committed_log :: "NodeId set \<Rightarrow> ('p, 'a) Cluster \<Rightarrow> LogEntry list" where
  "committed_log V c = foldr (\<lambda>n log. if length log < length (committed_of c n) then committed_of c n else log)
     (sorted_list_of_set V) []"

definition replog :: "NodeId set \<Rightarrow> ('p, 'a) Cluster \<Rightarrow> RepLog" where
  "replog V c = \<lparr>shared = committed_log V c, seen = (\<lambda>n. unat (commit_index (nodes c n)))\<rparr>"

lemma replog_init: "replog V (cluster_init hos nows cfgs) = RepLog_new"
proof -
  have "foldr (\<lambda>n log. if length log < length ([] :: LogEntry list) then [] else log) ns [] = []" for ns :: "NodeId list"
    by (induction ns) simp_all
  then show ?thesis
    by (simp add: replog_def RepLog_new_def committed_log_def committed_of_def cluster_init_def engine_new_def
        MemoryStorage_new_def)
qed

text \<open>The longest list of a chain.\<close>

lemma longest_in:
  "foldr (\<lambda>n log. if length log < length (f n) then f n else log) ns [] \<in> insert [] (f ` set ns)"
  by (induction ns) auto

lemma longest_bound:
  "m \<in> set ns \<Longrightarrow> length (f m) \<le> length (foldr (\<lambda>n log. if length log < length (f n) then f n else log) ns [])"
  by (induction ns) auto

lemma committed_of_length:
  assumes "full_inv V tlog c" "n \<in> V"
  shows "length (committed_of c n) = unat (commit_index (nodes c n))"
  using engine_inv_simps(5) [OF commit_invD(1) [OF full_invD(5) [OF assms(1)] assms(2)]]
  by (simp add: committed_of_def)

lemma committed_chain:
  assumes "full_inv V tlog c" "n \<in> V" "m \<in> V" "length (committed_of c n) \<le> length (committed_of c m)"
  shows "prefix (committed_of c n) (committed_of c m)"
proof -
  note inv = full_invD [OF assms(1)]
  let ?j = "unat (commit_index (nodes c n))"
  have le: "?j \<le> unat (commit_index (nodes c m))"
    using assms(4) committed_of_length [OF assms(1,2)] committed_of_length [OF assms(1,3)] by simp
  have "committed_of c n = take ?j (node_log c m)"
    unfolding committed_of_def
    by (rule committed_agree [OF inv(2-4) commit_invD(2) [OF inv(5) assms(2)] commit_invD(2) [OF inv(5) assms(3)] order_refl le])
  then show ?thesis using take_prefix_mono [OF le] by (simp add: committed_of_def)
qed

lemma committed_log_in:
  assumes "finite V"
  shows "committed_log V c = [] \<or> (\<exists>m \<in> V. committed_log V c = committed_of c m)"
  using longest_in [of "committed_of c" "sorted_list_of_set V"] assms by (auto simp: committed_log_def)

lemma committed_prefix_log:
  assumes "full_inv V tlog c" "n \<in> V"
  shows "prefix (committed_of c n) (committed_log V c)"
proof -
  have fin: "finite V" using full_invD(1) [OF assms(1)] by (simp add: election_inv_def static_ok_def)
  have le: "length (committed_of c n) \<le> length (committed_log V c)"
    using longest_bound [of n "sorted_list_of_set V" "committed_of c"] assms(2) fin by (simp add: committed_log_def)
  from committed_log_in [OF fin, of c] show ?thesis
  proof
    assume "committed_log V c = []"
    with le show ?thesis by simp
  qed (use committed_chain [OF assms] le in auto)
qed

subsection \<open>Refinement\<close>

text \<open>
  C7: The cluster implements a replicated log: in every reachable cluster in which successes are credited to what
  was acknowledged, each call of each node is one step of the abstract replicated log, in which the
  shared list (the longest committed prefix) grows at its end only and the node that was called hands to its
  application exactly the next entries of it, from where it was to its new commit index; calls on
  one node move no other node.
\<close>

theorem cluster_refines_replicated_log:
  assumes "deployment V hos cfgs" and "credited_reachable V (cluster_init hos nows cfgs) c"
    and "n \<in> V" "admissible c n i" "has_room (nodes c n) i" "credited (nodes c n) i"
  shows "replog_step (replog V c) n (applied (snd (engine_apply (nodes c n) i))) (replog V (cluster_apply c n i))"
proof -
  from full_inv_reachable [OF assms(1,2)] obtain tlog where inv: "full_inv V tlog c" by blast
  let ?c = "cluster_apply c n i"
  have g: "good_step V tlog c n i" using full_invD(1,2) [OF inv] assms(3-5) by (simp add: good_step_def)
  have inv': "full_inv V (tlog_step tlog (stepped c n i)) ?c" by (rule full_inv_apply [OF inv assms(3-6)])
  have fin: "finite V" using assms(1) by (simp add: deployment_def)
  note ok = step_engine [OF inv g]
  have app: "committed_of ?c n = committed_of c n @ applied (snd (engine_apply (nodes c n) i))"
    using ok by (simp add: step_ok_def committed_of_def cluster_apply_sel)
  have other: "committed_of ?c m = committed_of c m" if "m \<noteq> n" for m
    using that by (simp add: committed_of_def cluster_apply_sel)
  have grow: "prefix (committed_of c m) (committed_of ?c m)" for m
    using app other by (cases "m = n") simp_all
  have "prefix (committed_log V c) (committed_log V ?c)"
    using committed_log_in [OF fin, of c]
  proof
    assume "\<exists>m \<in> V. committed_log V c = committed_of c m"
    then show ?thesis using grow committed_prefix_log [OF inv'] by (metis prefix_order.trans)
  qed simp
  then obtain new where new: "committed_log V ?c = committed_log V c @ new" by (auto simp: prefix_def)
  let ?j = "unat (commit_index (nodes c n))" and ?k = "unat (commit_index (stepped c n i))"
  have len: "length (committed_of c n) = ?j" "length (committed_of ?c n) = ?k"
    using committed_of_length [OF inv assms(3)] committed_of_length [OF inv' assms(3)] by (simp_all add: cluster_apply_sel)
  have pre: "prefix (committed_of ?c n) (committed_log V c @ new)"
    using committed_prefix_log [OF inv' assms(3)] by (simp add: new)
  then obtain rest where rest: "committed_log V c @ new = committed_of ?c n @ rest" by (auto simp: prefix_def)
  have "committed_of ?c n = take ?k (committed_log V c @ new)" unfolding rest using len(2) by simp
  then have es: "applied (snd (engine_apply (nodes c n) i)) = drop ?j (take ?k (committed_log V c @ new))"
    using app len(1) by (metis append_eq_conv_conj)
  have "replog_step (replog V c) n (drop (seen (replog V c) n) (take ?k (shared (replog V c) @ new)))
      ((replog V c)\<lparr>shared := shared (replog V c) @ new, seen := (seen (replog V c))(n := ?k)\<rparr>)"
  proof (rule replog_step.deliver)
    show "seen (replog V c) n \<le> ?k" using ok by (simp add: replog_def step_ok_def word_le_nat_alt)
    show "?k \<le> length (shared (replog V c) @ new)" using prefix_length_le [OF pre] len(2) by (simp add: replog_def)
  qed
  moreover have "(replog V c)\<lparr>shared := shared (replog V c) @ new, seen := (seen (replog V c))(n := ?k)\<rparr> = replog V ?c"
    by (auto simp: replog_def new cluster_apply_sel)
  moreover have "drop (seen (replog V c) n) (take ?k (shared (replog V c) @ new)) = applied (snd (engine_apply (nodes c n) i))"
    by (simp only: es replog_def RepLog.simps)
  ultimately show ?thesis by (simp only:)
qed


text \<open>The step in which node 2 of the demonstration learns that the entry is committed.\<close>

definition demo_before :: "(NodeId \<times> EngineInput) list" where
  "demo_before = demo_replication @ [(1, InRpc 2 (AppendEntriesResp 1 True 1) 24), (1, InTick 30)]"

lemma demo_before_run:
  "credits demo_init demo_before \<and> (case cluster_run {1, 2, 3} demo_init demo_before of None \<Rightarrow> False
     | Some c \<Rightarrow> in_flight c 1 2 (AppendEntries 1 1 1 1 [] 1) \<and>
         applied (snd (engine_apply (nodes c 2) (InRpc 1 (AppendEntries 1 1 1 1 [] 1) 31))) = [hello_entry])"
  by (simp add: demo_before_def demo_replication_def demo_election_def demo_init_def cluster_init_def demo_config_def
      in_flight_def cluster_apply_def hello_entry_def engine_eval fits_u64_def cong: let_weak_cong)

theorem cluster_refines_replicated_log_witness:
  "\<exists>c i. credited_reachable {1, 2, 3} demo_init c \<and>
     replog_step (replog {1, 2, 3} c) 2 [hello_entry] (replog {1, 2, 3} (cluster_apply c 2 i))"
proof -
  obtain c where c: "cluster_run {1, 2, 3} demo_init demo_before = Some c"
    and f: "in_flight c 1 2 (AppendEntries 1 1 1 1 [] 1)"
    and a: "applied (snd (engine_apply (nodes c 2) (InRpc 1 (AppendEntries 1 1 1 1 [] 1) 31))) = [hello_entry]"
    using demo_before_run by (auto split: option.splits)
  have "credits demo_init demo_before" using demo_before_run by blast
  with c have r: "credited_reachable {1, 2, 3} demo_init c" by (rule credited_run [OF credited_reachable.start])
  have "replog_step (replog {1, 2, 3} c) 2
      (applied (snd (engine_apply (nodes c 2) (InRpc 1 (AppendEntries 1 1 1 1 [] 1) 31))))
      (replog {1, 2, 3} (cluster_apply c 2 (InRpc 1 (AppendEntries 1 1 1 1 [] 1) 31)))"
    by (rule cluster_refines_replicated_log [OF demo_deployment r [unfolded demo_init_def]]) (use f in simp_all)
  then show ?thesis using r a by (metis (no_types))
qed

end
