(* ===== verification/CatchUp.thy ===== *)
theory CatchUp
  imports EngineProps
begin

text \<open>
  A leader and a follower alone: the exchange of AppendEntries and answers that ends with the follower's log
  brought up to date. A rejection moves \<open>next_index\<close> down by one and sends again at once, so the number of
  rounds is bounded by the distance between \<open>next_index\<close> and \<open>match_index\<close>.
\<close>

subsection \<open>The exchange\<close>

text \<open>The first message to \<open>d\<close> among some actions.\<close>

fun sent_to :: "NodeId \<Rightarrow> Action list \<Rightarrow> RaftMessage option" where
  "sent_to d [] = None"
| "sent_to d (Send p m # as) = (if p = d then Some m else sent_to d as)"
| "sent_to d (a # as) = sent_to d as"

text \<open>
  The message \<open>msg\<close> of the leader \<open>L\<close> reaches \<open>F\<close>, the answer reaches \<open>L\<close>, and so on until \<open>L\<close> sends nothing more;
  \<open>clk\<close> is the time of each round and \<open>None\<close> stands for an exchange that breaks off or takes more rounds.
\<close>

fun catch_up ::
  "(nat \<Rightarrow> Instant) \<Rightarrow> nat \<Rightarrow> ('p, 'a) RaftEngine \<Rightarrow> ('p, 'a) RaftEngine \<Rightarrow> RaftMessage \<Rightarrow>
    (('p, 'a) RaftEngine \<times> ('p, 'a) RaftEngine) option" where
  "catch_up clk 0 L F msg = None"
| "catch_up clk (Suc k) L F msg =
     (let (F1, answers) = handle_rpc F (engine_node_id L) msg (clk k) in
      case sent_to (engine_node_id L) answers of
        None \<Rightarrow> None
      | Some r \<Rightarrow>
          let (L1, requests) = handle_rpc L (engine_node_id F) r (clk k) in
          case sent_to (engine_node_id F) requests of
            None \<Rightarrow> Some (L1, F1)
          | Some m \<Rightarrow> catch_up clk k L1 F1 m)"

lemma sent_to_append: "sent_to d (as @ bs) = (case sent_to d as of None \<Rightarrow> sent_to d bs | Some m \<Rightarrow> Some m)"
  by (induction d as rule: sent_to.induct) auto

lemma sent_to_none: "(\<And>p m. Send p m \<notin> set as) \<Longrightarrow> sent_to d as = None"
  by (induction d as rule: sent_to.induct) auto

lemma sent_to_in: "sent_to d as = Some m \<Longrightarrow> Send d m \<in> set as"
  by (induction d as rule: sent_to.induct) (auto split: if_splits)

subsection \<open>What the leader has asked\<close>

text \<open>The leader waits for the answer of \<open>f\<close> to the request whose previous entry is at \<open>i\<close>.\<close>

definition requested :: "('p, 'a) RaftEngine \<Rightarrow> NodeId \<Rightarrow> RaftMessage \<Rightarrow> Index \<Rightarrow> bool" where
  "requested L f msg i \<longleftrightarrow> engine_inv L \<and> role L = Leader \<and> f \<in> set (engine_other_voters L) \<and>
     next_index L f = Some (i + 1) \<and> unat i \<le> length (ms_entries (storage L)) \<and>
     last_ae L f = Some (i, length (ms_entries (storage L)) - unat i) \<and>
     (\<exists>lc. msg = AppendEntries (engine_current_term L) (engine_node_id L) i
        (log_term (ms_entries (storage L)) (unat i)) (drop (unat i) (ms_entries (storage L))) lc)"

lemma requestedD:
  assumes "requested L f msg i"
  shows "engine_inv L" "role L = Leader" "f \<in> set (engine_other_voters L)" "next_index L f = Some (i + 1)"
    "unat i \<le> length (ms_entries (storage L))" "last_ae L f = Some (i, length (ms_entries (storage L)) - unat i)"
    "\<exists>lc. msg = AppendEntries (engine_current_term L) (engine_node_id L) i
        (log_term (ms_entries (storage L)) (unat i)) (drop (unat i) (ms_entries (storage L))) lc"
  using assms by (simp_all add: requested_def)

lemma requested_mark_sent:
  assumes "engine_inv L" "role L = Leader" "f \<in> set (engine_other_voters L)"
  shows "requested (mark_sent L f) f (ae_msg L f) (ae_prev L f)"
proof -
  note inv = engine_inv_simps [OF assms(1)]
  note P = inv(6) [OF assms(2)]
  obtain n where n: "next_index L f = Some n" "n \<noteq> 0"
    using progress_ok_next [OF P assms(3)] by (metis not_less0 unat_0)
  then have "next_index L f = Some (ae_prev L f + 1)" by (simp add: ae_prev_def sat_sub_1)
  moreover have "engine_inv (mark_sent L f)"
    using assms(1) inv(7) [OF assms(2)] progress_mark_sent [OF inv(1,2) P assms(3)]
    by (simp add: engine_inv_def) (simp add: mark_sent_def)
  moreover have "role (mark_sent L f) = Leader" "config (mark_sent L f) = config L"
    using assms(2) by (simp_all add: mark_sent_def)
  ultimately show ?thesis
    using assms(3) build_append_entries_spec(3) [OF inv(1,2) P assms(3)]
    by (simp add: requested_def ae_msg_def engine_node_id_def engine_current_term_def)
qed

subsection \<open>What the follower answers\<close>

text \<open>The terms of the two logs agree on their first \<open>m\<close> entries.\<close>

definition logs_agree :: "LogEntry list \<Rightarrow> LogEntry list \<Rightarrow> nat \<Rightarrow> bool" where
  "logs_agree a b m \<longleftrightarrow> m \<le> length b \<and> (\<forall>i < m. le_term (a ! i) = le_term (b ! i))"

text \<open>Log matching: two logs with an entry of the same term at the same index are the same up to there.\<close>

definition logs_match :: "LogEntry list \<Rightarrow> LogEntry list \<Rightarrow> bool" where
  "logs_match a b \<longleftrightarrow> (\<forall>i. i < length a \<longrightarrow> i < length b \<longrightarrow> le_term (a ! i) = le_term (b ! i) \<longrightarrow>
     take (Suc i) a = take (Suc i) b)"

lemma prev_ok_agree:
  assumes "storage_wf s" "logs_agree log (ms_entries s) (unat i)"
  shows "prev_log_ok s i (log_term log (unat i))"
proof (cases "i = 0")
  case False
  then have "0 < unat i" by (rule unat_pos_u64)
  then show ?thesis using assms False by (simp add: prev_log_ok_iff logs_agree_def log_term_def)
qed (simp add: prev_log_ok_def log_term_def)

lemma answer_accept:
  fixes F :: "('p, 'a) RaftEngine" and w l :: NodeId and lc :: Index and now :: Instant
  assumes "storage_wf (storage F)" "last_applied F = commit_index F" "engine_current_term F \<le> t"
    and "prev_log_ok (storage F) i pt" "numbered (unat i) es"
  defines "r \<equiv> handle_append_entries F w t l i pt es lc now"
  shows "sent_to w (snd r) = Some (AppendEntriesResp t True (i + of_nat (length es)))"
    "ms_entries (storage (fst r)) = merge_log (ms_entries (storage F)) (unat i) es"
    "storage_wf (storage (fst r))" "role (fst r) = Follower" "engine_current_term (fst r) = t"
proof -
  note a = append_entries_accept [OF assms(1-5), of w l lc now, folded r_def]
  have "sent_to w (ae_notice F t l) = None" by (simp add: ae_notice_def)
  then show "sent_to w (snd r) = Some (AppendEntriesResp t True (i + of_nat (length es)))"
    unfolding a(9) by (simp add: sent_to_append Let_def)
  show "ms_entries (storage (fst r)) = merge_log (ms_entries (storage F)) (unat i) es"
    "storage_wf (storage (fst r))" "role (fst r) = Follower" by (rule a)+
  show "engine_current_term (fst r) = t"
    using a(3) assms(3) by (auto simp: engine_current_term_def split: if_splits)
qed

lemma answer_reject:
  fixes F :: "('p, 'a) RaftEngine" and w l :: NodeId and lc :: Index and now :: Instant and es :: "LogEntry list"
  assumes "engine_current_term F \<le> t" "\<not> prev_log_ok (storage F) i pt"
  defines "r \<equiv> handle_append_entries F w t l i pt es lc now"
  shows "\<exists>k. sent_to w (snd r) = Some (AppendEntriesResp t False k)"
    "ms_entries (storage (fst r)) = ms_entries (storage F)" "last_applied (fst r) = last_applied F"
    "commit_index (fst r) = commit_index F" "engine_current_term (fst r) = t" "role (fst r) = Follower"
  using assms(1) append_entries_reject [OF assms(1,2), of w l es lc now, folded r_def]
  by (simp_all add: ae_notice_def sent_to_append)

subsection \<open>What the leader does with the answer\<close>

text \<open>The leader knows that \<open>f\<close> has its whole log; nothing but what it knows of \<open>f\<close> and the commit index has changed.\<close>

definition caught_up :: "('p, 'a) RaftEngine \<Rightarrow> NodeId \<Rightarrow> ('p, 'a) RaftEngine \<Rightarrow> bool" where
  "caught_up L f L' \<longleftrightarrow> engine_inv L' \<and> role L' = Leader \<and> storage L' = storage L \<and> config L' = config L \<and>
     membership L' = membership L \<and>
     match_index L' = (match_index L)(f \<mapsto> of_nat (length (ms_entries (storage L)))) \<and>
     next_index L' = (next_index L)(f \<mapsto> of_nat (length (ms_entries (storage L))) + 1) \<and>
     (\<forall>p. p \<noteq> f \<longrightarrow> last_ae L' p = last_ae L p) \<and> ae_inflight L' = ae_inflight L - {f} \<and>
     commit_index L \<le> commit_index L' \<and> (\<forall>n. commitable L' n \<longrightarrow> n \<le> commit_index L')"

lemma commit_target_max: "commit_index e \<le> n \<Longrightarrow> commitable e n \<Longrightarrow> n \<le> commit_target e"
  by (rule commit_target_cases [of e]) (metis le_less linorder_not_less)+

lemma leader_success:
  fixes L :: "('p, 'a) RaftEngine" and now :: Instant
  assumes "requested L f msg i" "j = i + of_nat (length (ms_entries (storage L)) - unat i)"
  defines "r \<equiv> handle_append_entries_resp L f (engine_current_term L) True j now"
  shows "sent_to f (snd r) = None" "caught_up L f (fst r)"
proof -
  note R = requestedD [OF assms(1)]
  note inv = engine_inv_simps [OF R(1)]
  let ?e2 = "peer_matched L f j" and ?log = "ms_entries (storage L)"
  note s = resp_success [OF R(1,2,6), folded assms(2)]
  have j: "unat j = length ?log" using s(1) R(5) by simp
  then have j': "j = of_nat (length ?log)" 
    using inv(2) by (simp add: unat_inject_u64 [symmetric] unat_of_nat_u64)
  have r: "r = maybe_commit ?e2 []" unfolding r_def using s(4) [of _ now] j by (simp add: Let_def case_prod_unfold)
  have target: "commit_index (fst r) = commit_target ?e2" unfolding r by (rule maybe_commit_spec(1)) (use inv in simp_all)
  have "applied_ok": "last_applied (fst r) = commit_target ?e2" unfolding r by (rule maybe_commit_spec(2)) (use inv in simp_all)
  have b: "commit_index L \<le> commit_target ?e2" "unat (commit_target ?e2) \<le> length ?log"
    using commit_target_bounds [of ?e2] inv(1,5) by simp_all
  have same: "commitable (fst r) n = commitable ?e2 n" for n
    unfolding r by (simp add: commitable_def engine_current_term_def replica_count_def split: option.split)
  have "engine_inv (fst r)"
    using inv(1-3) inv(7) [OF R(2)] s(3) target "applied_ok" b(2) R(2) by (simp add: engine_inv_def r)
  moreover have "n \<le> commit_target ?e2" if "commitable ?e2 n" for n
    using commit_target_max [OF _ that] b(1) by (cases "commit_index ?e2 \<le> n") auto
  ultimately show "caught_up L f (fst r)"
    unfolding caught_up_def same target using R(2) b(1) by (simp add: r j')
  show "sent_to f (snd r) = None" unfolding r by (rule sent_to_none) (auto dest: maybe_commit_action)
qed

lemma leader_retry:
  fixes L :: "('p, 'a) RaftEngine" and now :: Instant and k :: Index
  assumes "requested L f msg i" "match_index L f = Some m" "unat m < unat i"
  defines "r \<equiv> handle_append_entries_resp L f (engine_current_term L) False k now"
  shows "\<exists>msg'. sent_to f (snd r) = Some msg' \<and> requested (fst r) f msg' (i - 1)"
    "match_index (fst r) = match_index L" "commit_index (fst r) = commit_index L" "storage (fst r) = storage L"
    "config (fst r) = config L" "membership (fst r) = membership L" "next_index (fst r) = (next_index L)(f \<mapsto> i)"
    "last_ae (fst r) p = (if p = f then last_ae (fst r) f else last_ae L p)"
    "ae_inflight (fst r) = insert f (ae_inflight L)"
proof -
  note R = requestedD [OF assms(1)]
  note inv = engine_inv_simps [OF R(1)]
  let ?n = "max (max (sat_sub (i + 1) 1) (m + 1)) 1"
  note s = resp_failure [OF R(1,2,6,4) assms(2)]
  have i: "unat (i + 1) = Suc (unat i)" "i \<noteq> 0"
    using R(5) inv(2) assms(3) by (auto simp: unat_Suc_u64_bound)
  then have n: "?n = i" using s(1) assms(3) by (simp add: unat_inject_u64 [symmetric])
  let ?b = "peer_backed L f i"
  have r: "r = (mark_sent ?b f, [Send f (ae_msg ?b f)])"
    unfolding r_def using s(3) [of k now] n by simp
  have "engine_inv ?b" using R(1) s(2) n by (simp add: engine_inv_def)
  moreover have "role ?b = Leader" "f \<in> set (engine_other_voters ?b)" using R(2,3) by simp_all
  ultimately have "requested (mark_sent ?b f) f (ae_msg ?b f) (ae_prev ?b f)" by (rule requested_mark_sent)
  moreover have "ae_prev ?b f = i - 1" using i(2) by (simp add: ae_prev_def sat_sub_1)
  ultimately show "\<exists>msg'. sent_to f (snd r) = Some msg' \<and> requested (fst r) f msg' (i - 1)"
    by (simp add: r)
  show "match_index (fst r) = match_index L" "storage (fst r) = storage L"
    "next_index (fst r) = (next_index L)(f \<mapsto> i)" "ae_inflight (fst r) = insert f (ae_inflight L)"
    "last_ae (fst r) p = (if p = f then last_ae (fst r) f else last_ae L p)"
    by (auto simp: r)
  show "commit_index (fst r) = commit_index L" "config (fst r) = config L" "membership (fst r) = membership L"
    by (simp_all add: r mark_sent_def)
qed

subsection \<open>The exchange ends\<close>

lemma caught_up_retry:
  assumes "caught_up L1 f L'" "match_index L1 = match_index L" "commit_index L1 = commit_index L" "storage L1 = storage L"
    "config L1 = config L" "membership L1 = membership L" "next_index L1 = (next_index L)(f \<mapsto> i)"
    "\<And>p. last_ae L1 p = (if p = f then last_ae L1 f else last_ae L p)" "ae_inflight L1 = insert f (ae_inflight L)"
  shows "caught_up L f L'"
proof -
  have "last_ae L' p = last_ae L p" if "p \<noteq> f" for p
    using assms(1) that assms(8) [of p] by (simp add: caught_up_def)
  then show ?thesis using assms(1) by (simp add: caught_up_def assms(2-7,9))
qed

lemma append_entries_node [simp]:
  "engine_node_id (fst (handle_append_entries F w t l i pt es lc now)) = engine_node_id F"
  by (simp add: engine_node_id_def)

text \<open>An exchange in progress: the request the leader waits for, and what is known of the two logs.\<close>

definition exchanging ::
  "('p, 'a) RaftEngine \<Rightarrow> ('p, 'a) RaftEngine \<Rightarrow> NodeId \<Rightarrow> RaftMessage \<Rightarrow> Index \<Rightarrow> Index \<Rightarrow> bool" where
  "exchanging L F f msg i m \<longleftrightarrow> requested L f msg i \<and> match_index L f = Some m \<and>
     logs_agree (ms_entries (storage L)) (ms_entries (storage F)) (unat m) \<and> unat m \<le> unat i \<and>
     storage_wf (storage F) \<and> last_applied F = commit_index F \<and> engine_current_term F \<le> engine_current_term L \<and>
     engine_node_id F = f"

text \<open>One round: the follower accepts and the leader knows it, or it rejects and the leader goes one back.\<close>

lemma exchange_round:
  fixes L F :: "('p, 'a) RaftEngine" and now :: Instant
  assumes "exchanging L F f msg i m"
  defines "a \<equiv> handle_rpc F (engine_node_id L) msg now"
    and "b \<equiv> \<lambda>ok j. handle_rpc L f (AppendEntriesResp (engine_current_term L) ok j) now"
  obtains (success) j where "j = i + of_nat (length (ms_entries (storage L)) - unat i)"
      "sent_to (engine_node_id L) (snd a) = Some (AppendEntriesResp (engine_current_term L) True j)"
      "sent_to f (snd (b True j)) = None" "caught_up L f (fst (b True j))"
      "role (fst a) = Follower" "engine_current_term (fst a) = engine_current_term L"
      "unat i \<le> length (ms_entries (storage F))"
      "ms_entries (storage (fst a)) = merge_log (ms_entries (storage F)) (unat i) (drop (unat i) (ms_entries (storage L)))"
      "0 < unat i \<longrightarrow> le_term (ms_entries (storage F) ! (unat i - 1)) = le_term (ms_entries (storage L) ! (unat i - 1))"
  | (retry) j msg' where "sent_to (engine_node_id L) (snd a) = Some (AppendEntriesResp (engine_current_term L) False j)"
      "sent_to f (snd (b False j)) = Some msg'" "exchanging (fst (b False j)) (fst a) f msg' (i - 1) m" "unat m < unat i"
      "\<And>L'. caught_up (fst (b False j)) f L' \<Longrightarrow> caught_up L f L'" "storage (fst (b False j)) = storage L"
      "ms_entries (storage (fst a)) = ms_entries (storage F)"
proof -
  have rq: "requested L f msg i" and mt: "match_index L f = Some m" and mi: "unat m \<le> unat i"
    and ag: "logs_agree (ms_entries (storage L)) (ms_entries (storage F)) (unat m)" and wf: "storage_wf (storage F)"
    and la: "last_applied F = commit_index F" and ct: "engine_current_term F \<le> engine_current_term L"
    and id: "engine_node_id F = f"
    using assms(1) by (simp_all add: exchanging_def)
  note R = requestedD [OF rq]
  note inv = engine_inv_simps [OF R(1)]
  let ?log = "ms_entries (storage L)" and ?w = "engine_node_id L" and ?t = "engine_current_term L"
  let ?pt = "log_term ?log (unat i)" and ?es = "drop (unat i) ?log"
  obtain lc where msg: "msg = AppendEntries ?t ?w i ?pt ?es lc" using R(7) by blast
  have a: "a = handle_append_entries F ?w ?t ?w i ?pt ?es lc now" by (simp add: a_def msg)
  have b: "b ok j = handle_append_entries_resp L f ?t ok j now" for ok j by (simp add: b_def)
  show thesis
  proof (cases "prev_log_ok (storage F) i ?pt")
    case True
    have "numbered (unat i) ?es" using inv(1) R(5) numbered_drop [of 0 ?log "unat i"] by (simp add: storage_wf_def)
    note A = answer_accept [OF wf la ct True this, of ?w ?w lc now, folded a]
    let ?j = "i + of_nat (length ?log - unat i)"
    note S = leader_success [OF rq, of ?j now, OF refl, folded b]
    have "le_term (ms_entries (storage F) ! (unat i - 1)) = le_term (?log ! (unat i - 1))" if "0 < unat i"
      using True that by (auto simp: prev_log_ok_iff [OF wf] log_term_def split: if_splits)
    then show thesis
      using A S prev_log_ok_length [OF wf True] by (intro success [of ?j]) simp_all
  next
    case False
    then have "\<not> logs_agree ?log (ms_entries (storage F)) (unat i)" using prev_ok_agree [OF wf] by blast
    then have lt: "unat m < unat i" using ag mi by (metis le_neq_implies_less)
    note A = answer_reject [OF ct False, of ?w ?w ?es lc now, folded a]
    obtain j where r: "sent_to ?w (snd a) = Some (AppendEntriesResp ?t False j)" using A(1) by blast
    note B = leader_retry [OF rq mt lt, of j now, folded b]
    obtain msg' where m': "sent_to f (snd (b False j)) = Some msg'" "requested (fst (b False j)) f msg' (i - 1)"
      using B(1) by blast
    have "i \<noteq> 0" using lt by auto
    then have i1: "unat (i - 1) = unat i - 1" by (rule unat_pred_u64)
    have "engine_current_term (fst (b False j)) = ?t" using B(4) by (simp add: engine_current_term_def)
    moreover have "engine_node_id (fst a) = f" using id by (simp add: a)
    moreover have "storage_wf (storage (fst a))" using A(2) wf by (simp add: storage_wf_def)
    ultimately have "exchanging (fst (b False j)) (fst a) f msg' (i - 1) m"
      using m'(2) B(2,4) mt ag lt i1 A(2-5) la by (simp add: exchanging_def)
    then show thesis
      by (rule retry [OF r m'(1) _ lt caught_up_retry [OF _ B(2-9)] B(4) A(2)])
  qed
qed

lemma catch_up_runs:
  fixes L F :: "('p, 'a) RaftEngine"
  assumes "exchanging L F f msg i m" "unat i - unat m < k"
  shows "\<exists>L' F' n. catch_up clk k L F msg = Some (L', F') \<and> caught_up L f L' \<and>
    role F' = Follower \<and> engine_current_term F' = engine_current_term L \<and>
    n \<le> length (ms_entries (storage L)) \<and> n \<le> length (ms_entries (storage F)) \<and>
    ms_entries (storage F') = merge_log (ms_entries (storage F)) n (drop n (ms_entries (storage L))) \<and>
    (0 < n \<longrightarrow> le_term (ms_entries (storage F) ! (n - 1)) = le_term (ms_entries (storage L) ! (n - 1)))"
  using assms
proof (induction k arbitrary: L F msg i)
  case (Suc k)
  have id: "engine_node_id F = f" and i: "unat i \<le> length (ms_entries (storage L))"
    using Suc.prems(1) by (simp_all add: exchanging_def requested_def)
  show ?case
  proof (rule exchange_round [OF Suc.prems(1), of "clk k"], goal_cases)
    case (1 j)
    let ?a = "handle_rpc F (engine_node_id L) msg (clk k)"
    let ?b = "handle_rpc L f (AppendEntriesResp (engine_current_term L) True j) (clk k)"
    have "catch_up clk (Suc k) L F msg = Some (fst ?b, fst ?a)"
      using 1(2,3) id by (simp add: case_prod_unfold Let_def)
    then show ?case
      by (intro exI [of _ "fst ?b"] exI [of _ "fst ?a"] exI [of _ "unat i"] conjI 1(4-9) i)
  next
    case (2 j msg')
    let ?a = "handle_rpc F (engine_node_id L) msg (clk k)"
    let ?b = "handle_rpc L f (AppendEntriesResp (engine_current_term L) False j) (clk k)"
    have "i \<noteq> 0" using 2(4) by auto
    then have "unat (i - 1) = unat i - 1" by (rule unat_pred_u64)
    then have k: "unat (i - 1) - unat m < k" using 2(4) Suc.prems(2) by simp
    have t: "engine_current_term (fst ?b) = engine_current_term L" using 2(6) by (simp add: engine_current_term_def)
    have "catch_up clk (Suc k) L F msg = catch_up clk k (fst ?b) (fst ?a) msg'"
      using 2(1,2) id by (simp add: case_prod_unfold Let_def)
    then show ?case using Suc.IH [OF 2(3) k] 2(5) unfolding t 2(6,7) by metis
  qed
qed simp

lemma merge_log_entry:
  assumes "prev \<le> length log" "i < length new"
  shows "merge_log log prev new ! (prev + i) = new ! i \<or> prev + i < length log \<and>
    merge_log log prev new ! (prev + i) = log ! (prev + i) \<and> le_term (log ! (prev + i)) = le_term (new ! i)"
proof (cases "i < match_len (drop prev log) new")
  case True
  have k: "prev + match_len (drop prev log) new \<le> length log" by (rule match_len_drop_bound [OF assms(1)])
  have "le_term (log ! (prev + i)) = le_term (new ! i)" using match_len_nth [OF True] True k by simp
  moreover have "merge_log log prev new ! (prev + i) = log ! (prev + i)"
    using True k by (auto simp: merge_log_def Let_def nth_append)
  ultimately show ?thesis using True k by simp
next
  case False
  have k: "prev + match_len (drop prev log) new \<le> length log" by (rule match_len_drop_bound [OF assms(1)])
  have "match_len (drop prev log) new \<noteq> length new" using False assms(2) by linarith
  then show ?thesis using False k assms(2) by (simp add: merge_log_def Let_def nth_append)
qed

lemma logs_match_nth:
  "logs_match a b \<Longrightarrow> i < length a \<Longrightarrow> i < length b \<Longrightarrow> le_term (a ! i) = le_term (b ! i) \<Longrightarrow> j \<le> i \<Longrightarrow> a ! j = b ! j"
  unfolding logs_match_def by (metis le_imp_less_Suc nth_take)

lemma merge_log_agrees:
  assumes "logs_match a b" "n \<le> length a" "n \<le> length b" "0 < n \<longrightarrow> le_term (b ! (n - 1)) = le_term (a ! (n - 1))" "j < length a"
  shows "merge_log b n (drop n a) ! j = a ! j"
proof (cases "j < n")
  case True
  then have "a ! j = b ! j" using assms(2-4) by (intro logs_match_nth [OF assms(1), of "n - 1"]) auto
  moreover have "merge_log b n (drop n a) ! j = b ! j"
    using merge_log_prefix [OF assms(3), of "drop n a"] nth_take [OF True] by metis
  ultimately show ?thesis by simp
next
  case False
  then have "j - n < length (drop n a)" using assms(5) by simp
  from merge_log_entry [OF assms(3) this] consider "merge_log b n (drop n a) ! j = a ! j"
    | "j < length b" "merge_log b n (drop n a) ! j = b ! j" "le_term (a ! j) = le_term (b ! j)"
    using False assms(2,5) by auto
  then show ?thesis
  proof cases
    case 2
    then show ?thesis using logs_match_nth [OF assms(1,5) 2(1,3)] by simp
  qed
qed

lemma catch_up_complete:
  assumes "exchanging L F f msg i m" "unat i - unat m < k" "logs_match (ms_entries (storage L)) (ms_entries (storage F))"
  shows "\<exists>L' F'. catch_up clk k L F msg = Some (L', F') \<and> caught_up L f L' \<and>
    role F' = Follower \<and> engine_current_term F' = engine_current_term L \<and>
    take (length (ms_entries (storage L))) (ms_entries (storage F')) = ms_entries (storage L)"
proof -
  obtain L' F' n where X: "catch_up clk k L F msg = Some (L', F')" "caught_up L f L'"
    "role F' = Follower" "engine_current_term F' = engine_current_term L" "n \<le> length (ms_entries (storage L))"
    "n \<le> length (ms_entries (storage F))"
    "ms_entries (storage F') = merge_log (ms_entries (storage F)) n (drop n (ms_entries (storage L)))"
    "0 < n \<longrightarrow> le_term (ms_entries (storage F) ! (n - 1)) = le_term (ms_entries (storage L) ! (n - 1))"
    using catch_up_runs [OF assms(1,2)] by blast
  have "length (ms_entries (storage L)) \<le> length (ms_entries (storage F'))"
    using length_merge_log [OF X(6), of "drop n (ms_entries (storage L))"] X(5) by (simp add: X(7))
  then have "take (length (ms_entries (storage L))) (ms_entries (storage F')) = ms_entries (storage L)"
    using merge_log_agrees [OF assms(3) X(5,6,8)] by (intro nth_equalityI) (simp_all add: X(7))
  then show ?thesis using X(1-4) by blast
qed

text \<open>
  C29: The exchange by which a leader brings a follower up to date ends, if the two logs satisfy log matching (as those of
  a cluster do) and the follower still has, up to the leader's \<open>match_index\<close>, entries of the leader's terms: from the
  AppendEntries the leader sends, each answer being delivered, at most \<open>next_index - match_index\<close> rounds pass until it
  has nothing more to send. Then it knows that the follower has its whole log, the follower's log does begin with
  all of it, and everything that can be committed is committed. No message is needed but those the two engines
  send each other. (Without the second condition the exchange need not end, as \<open>exchange_stuck\<close> shows.)
\<close>

theorem catch_up_ends:
  assumes "engine_inv L" "role L = Leader" "f \<in> set (engine_other_voters L)" "f \<notin> ae_inflight L"
    and "next_index L f = Some nx" "match_index L f = Some m"
    and "engine_inv F" "engine_node_id F = f" "engine_current_term F \<le> engine_current_term L"
    and "logs_match (ms_entries (storage L)) (ms_entries (storage F))"
    and "logs_agree (ms_entries (storage L)) (ms_entries (storage F)) (unat m)"
  shows "\<exists>L1 msg L' F'. send_append_entries_to L f = (L1, Some (Send f msg)) \<and>
    catch_up clk (unat nx - unat m) L1 F msg = Some (L', F') \<and>
    role L' = Leader \<and> storage L' = storage L \<and> match_index L' f = Some (of_nat (length (ms_entries (storage L)))) \<and>
    (\<forall>n. commitable L' n \<longrightarrow> n \<le> commit_index L') \<and>
    role F' = Follower \<and> engine_current_term F' = engine_current_term L \<and>
    take (length (ms_entries (storage L))) (ms_entries (storage F')) = ms_entries (storage L)"
proof -
  note inv = engine_inv_simps [OF assms(1)]
  note P = inv(6) [OF assms(2)]
  have lt: "unat m < unat nx" using progress_ok_next [OF P assms(3)] assms(5,6) by auto
  then have "nx \<noteq> 0" by auto
  then have i: "unat (ae_prev L f) = unat nx - 1" using assms(5) by (simp add: ae_prev_def sat_sub_1 unat_pred_u64)
  let ?L = "mark_sent L f"
  have send: "send_append_entries_to L f = (?L, Some (Send f (ae_msg L f)))"
    using send_append_entries_to_spec [OF inv(1,2) P assms(3)] assms(4) by simp
  note F = engine_inv_simps [OF assms(7)]
  have s: "match_index ?L f = Some m" "storage ?L = storage L" "engine_current_term ?L = engine_current_term L"
    using assms(6) by (simp_all add: engine_current_term_def)
  have b: "unat m \<le> unat (ae_prev L f)" "unat (ae_prev L f) - unat m < unat nx - unat m" using lt i by simp_all
  have "exchanging ?L F f (ae_msg L f) (ae_prev L f) m"
    using requested_mark_sent [OF assms(1-3)] s(1) b(1) F(1,4) assms(8,9,11) by (simp add: exchanging_def s(2,3))
  from catch_up_complete [OF this b(2), of clk] have "\<exists>L' F'. catch_up clk (unat nx - unat m) ?L F (ae_msg L f) =
      Some (L', F') \<and> caught_up ?L f L' \<and> role F' = Follower \<and> engine_current_term F' = engine_current_term L \<and>
      take (length (ms_entries (storage L))) (ms_entries (storage F')) = ms_entries (storage L)"
    unfolding s(2,3) using assms(10) by blast
  then show ?thesis using send by (auto simp: caught_up_def)
qed

text \<open>A leader of term 3 with three entries and a follower with none: three rejections and a success.\<close>

definition demo_elected :: "(unit, unit) RaftEngine" where
  "demo_elected = fst (engine_run (engine_new sorted_list_of_set 0 (demo_config 1) demo_storage)
     [InTick 20, InRpc 2 (RequestVoteResp 3 True) 21])"

definition demo_fresh :: "(unit, unit) RaftEngine" where
  "demo_fresh = engine_new sorted_list_of_set 0 (demo_config 2) MemoryStorage_new"

lemma demo_elected_inv: "engine_inv demo_elected"
proof -
  have "inputs_ok (engine_new sorted_list_of_set 0 (demo_config 1) demo_storage)
      [InTick 20, InRpc 2 (RequestVoteResp 3 True) 21]" by code_simp
  moreover have "engine_inv (engine_new sorted_list_of_set 0 (demo_config 1) demo_storage)"
    by (rule engine_inv_new [OF hash_order_sorted demo_storage_wf]) (simp add: demo_storage_def)
  ultimately show ?thesis using engine_run_step unfolding demo_elected_def step_ok_def by blast
qed

lemma demo_fresh_inv: "engine_inv demo_fresh"
  unfolding demo_fresh_def by (rule engine_inv_new [OF hash_order_sorted]) (simp_all add: MemoryStorage_new_def storage_wf_def)

theorem catch_up_ends_witness:
  "\<exists>L1 msg L' F'. send_append_entries_to demo_elected 2 = (L1, Some (Send 2 msg)) \<and>
     catch_up (\<lambda>n. 22) 4 L1 demo_fresh msg = Some (L', F') \<and> match_index L' 2 = Some 3 \<and>
     take 3 (ms_entries (storage F')) = ms_entries (storage demo_elected)"
proof -
  have l: "role demo_elected = Leader" "2 \<in> set (engine_other_voters demo_elected)" "2 \<notin> ae_inflight demo_elected"
    "next_index demo_elected 2 = Some 4" "match_index demo_elected 2 = Some 0" "engine_node_id demo_fresh = 2"
    "engine_current_term demo_fresh \<le> engine_current_term demo_elected" "ms_entries (storage demo_fresh) = []"
    "length (ms_entries (storage demo_elected)) = 3"
    by code_simp+
  from catch_up_ends [OF demo_elected_inv l(1-5) demo_fresh_inv l(6,7), of "\<lambda>n. 22"] show ?thesis
    unfolding l(8,9) by (auto simp: logs_match_def logs_agree_def)
qed

subsection \<open>A follower that has lost its log\<close>

text \<open>The two engines and the request on its way after \<open>n\<close> rounds of the exchange, if it is still going on.\<close>

fun exchange_rounds ::
  "(nat \<Rightarrow> Instant) \<Rightarrow> nat \<Rightarrow> ('p, 'a) RaftEngine \<Rightarrow> ('p, 'a) RaftEngine \<Rightarrow> RaftMessage \<Rightarrow>
    (('p, 'a) RaftEngine \<times> ('p, 'a) RaftEngine \<times> RaftMessage) option" where
  "exchange_rounds clk 0 L F msg = Some (L, F, msg)"
| "exchange_rounds clk (Suc n) L F msg =
     (let (F1, answers) = handle_rpc F (engine_node_id L) msg (clk n) in
      case sent_to (engine_node_id L) answers of
        None \<Rightarrow> None
      | Some r \<Rightarrow>
          let (L1, requests) = handle_rpc L (engine_node_id F) r (clk n) in
          case sent_to (engine_node_id F) requests of
            None \<Rightarrow> None
          | Some m \<Rightarrow> exchange_rounds clk n L1 F1 m)"

text \<open>The leader at the lower limit, \<open>next_index = match_index + 1\<close>: a rejection changes nothing.\<close>

lemma leader_stuck:
  assumes "requested L f msg m" "match_index L f = Some m" "f \<in> ae_inflight L" "msg = ae_msg L f"
  shows "handle_append_entries_resp L f (engine_current_term L) False k now = (L, [Send f msg])"
proof -
  note R = requestedD [OF assms(1)]
  note inv = engine_inv_simps [OF R(1)]
  let ?n = "max (max (sat_sub (m + 1) 1) (m + 1)) 1"
  note s = resp_failure [OF R(1,2,6,4) assms(2)]
  have m: "unat (m + 1) = Suc (unat m)" using R(5) inv(2) by (simp add: unat_Suc_u64_bound)
  then have n: "?n = m + 1" using s(1) by (simp add: unat_inject_u64 [symmetric])
  have nz: "m + 1 \<noteq> 0" using m by auto
  let ?b = "peer_backed L f (m + 1)"
  have prev: "ae_prev ?b f = m" "ae_prev L f = m" using nz R(4) by (simp_all add: ae_prev_def sat_sub_1)
  have "ae_msg ?b f = msg" by (simp add: assms(4) ae_msg_def prev engine_current_term_def)
  moreover have "mark_sent ?b f = L"
    unfolding mark_sent_def prev using R(4,6) assms(3) by (simp add: peer_backed_def fun_upd_idem insert_absorb)
  ultimately show ?thesis using s(3) [of k now] unfolding n by simp
qed

lemma exchange_stuck:
  fixes L F :: "('p, 'a) RaftEngine"
  assumes "requested L f msg m" "match_index L f = Some m" "f \<in> ae_inflight L" "msg = ae_msg L f"
    "storage_wf (storage F)" "engine_node_id F = f" "engine_current_term F \<le> engine_current_term L"
    "length (ms_entries (storage F)) < unat m"
  shows "\<exists>F'. exchange_rounds clk n L F msg = Some (L, F', msg) \<and> ms_entries (storage F') = ms_entries (storage F) \<and>
    commit_index F' = commit_index F \<and> last_applied F' = last_applied F"
  using assms(5-8)
proof (induction n arbitrary: F)
  case (Suc n)
  let ?log = "ms_entries (storage L)" and ?w = "engine_node_id L" and ?t = "engine_current_term L"
  let ?pt = "log_term ?log (unat m)" and ?es = "drop (unat m) ?log"
  obtain lc where msg: "msg = AppendEntries ?t ?w m ?pt ?es lc" using requestedD(7) [OF assms(1)] by blast
  let ?a = "handle_append_entries F ?w ?t ?w m ?pt ?es lc (clk n)"
  have "m \<noteq> 0" using Suc.prems(4) by auto
  then have no: "\<not> prev_log_ok (storage F) m ?pt"
    using Suc.prems(4) by (simp add: prev_log_ok_iff [OF Suc.prems(1)])
  note A = answer_reject [OF Suc.prems(3) no, of ?w ?w ?es lc "clk n"]
  obtain k where k: "sent_to ?w (snd ?a) = Some (AppendEntriesResp ?t False k)" using A(1) by blast
  have "handle_rpc F ?w msg (clk n) = ?a" by (simp add: msg)
  then have step: "exchange_rounds clk (Suc n) L F msg = exchange_rounds clk n L (fst ?a) msg"
    using k leader_stuck [OF assms(1-4), of k "clk n"] Suc.prems(2) by (simp add: case_prod_unfold Let_def)
  have "\<exists>F'. exchange_rounds clk n L (fst ?a) msg = Some (L, F', msg) \<and>
      ms_entries (storage F') = ms_entries (storage (fst ?a)) \<and> commit_index F' = commit_index (fst ?a) \<and>
      last_applied F' = last_applied (fst ?a)"
  proof (rule Suc.IH)
    show "storage_wf (storage (fst ?a))" using A(2) Suc.prems(1) by (simp add: storage_wf_def)
    show "engine_node_id (fst ?a) = f" using Suc.prems(2) by simp
    show "engine_current_term (fst ?a) \<le> ?t" using A(5) by simp
    show "length (ms_entries (storage (fst ?a))) < unat m" using A(2) Suc.prems(4) by simp
  qed
  then show ?case unfolding step A(2-4) .
qed simp

text \<open>
  C30: A follower that has lost entries the leader knows it to hold, as one that was restarted has with the storage in
  memory, is never caught up: once \<open>next_index\<close> is \<open>match_index + 1\<close> every rejection is answered at once by the
  very request just rejected. After any number of rounds the exchange is still going on, with the same request on its
  way and the whole state of the leader as it was when it first sent it, and the follower has the same log and
  has committed and applied what it had.
\<close>

theorem lost_follower_never_caught_up:
  assumes "engine_inv L" "role L = Leader" "f \<in> set (engine_other_voters L)" "f \<notin> ae_inflight L"
    and "next_index L f = Some (m + 1)" "match_index L f = Some m"
    and "engine_inv F" "engine_node_id F = f" "engine_current_term F \<le> engine_current_term L"
    and "length (ms_entries (storage F)) < unat m"
  shows "\<exists>L1 msg. send_append_entries_to L f = (L1, Some (Send f msg)) \<and>
    (\<forall>n. \<exists>F'. exchange_rounds clk n L1 F msg = Some (L1, F', msg) \<and> ms_entries (storage F') = ms_entries (storage F) \<and>
      commit_index F' = commit_index F \<and> last_applied F' = last_applied F)"
proof -
  note inv = engine_inv_simps [OF assms(1)]
  note P = inv(6) [OF assms(2)]
  let ?L = "mark_sent L f"
  have send: "send_append_entries_to L f = (?L, Some (Send f (ae_msg L f)))"
    using send_append_entries_to_spec [OF inv(1,2) P assms(3)] assms(4) by simp
  have "m + 1 \<noteq> 0" using progress_ok_next [OF P assms(3)] assms(5) by auto
  then have "ae_prev L f = m" using assms(5) by (simp add: ae_prev_def sat_sub_1)
  then have rq: "requested ?L f (ae_msg L f) m" using requested_mark_sent [OF assms(1-3)] by simp
  have s: "match_index ?L f = Some m" "f \<in> ae_inflight ?L" "ae_msg L f = ae_msg ?L f"
      "engine_current_term F \<le> engine_current_term ?L"
    using assms(6,9) by (simp_all add: engine_current_term_def mark_sent_def ae_msg_def ae_prev_def)
  from exchange_stuck [OF rq s(1-3) engine_inv_simps(1) [OF assms(7)] assms(8) s(4) assms(10)] send show ?thesis by blast
qed

text \<open>The follower of the run above, restarted after it was caught up.\<close>

definition demo_caught :: "(unit, unit) RaftEngine" where
  "demo_caught = fst (engine_run demo_elected
     [InTick 30, InRpc 2 (AppendEntriesResp 3 True 3) 31])"

theorem lost_follower_never_caught_up_witness:
  "\<exists>L1 msg. send_append_entries_to demo_caught 2 = (L1, Some (Send 2 msg)) \<and>
     (\<forall>n. \<exists>F'. exchange_rounds (\<lambda>i. 40) n L1 demo_fresh msg = Some (L1, F', msg) \<and> ms_entries (storage F') = [])"
proof -
  have "inputs_ok demo_elected [InTick 30, InRpc 2 (AppendEntriesResp 3 True 3) 31]" by code_simp
  then have L: "engine_inv demo_caught"
    using engine_run_step [OF demo_elected_inv] unfolding demo_caught_def step_ok_def by blast
  have l: "role demo_caught = Leader" "2 \<in> set (engine_other_voters demo_caught)" "2 \<notin> ae_inflight demo_caught"
    "next_index demo_caught 2 = Some (3 + 1)" "match_index demo_caught 2 = Some 3" "engine_node_id demo_fresh = 2"
    "engine_current_term demo_fresh \<le> engine_current_term demo_caught"
    by code_simp+
  have e: "ms_entries (storage demo_fresh) = []" by code_simp
  have "length (ms_entries (storage demo_fresh)) < unat (3 :: u64)" by (simp add: e)
  from lost_follower_never_caught_up [OF L l(1-5) demo_fresh_inv l(6,7) this, of "\<lambda>i. 40"] show ?thesis
    unfolding e by blast
qed

end
