(* ===== verification/Courses.thy ===== *)
theory Courses
  imports ClusterCommit
begin

text \<open>
  Courses of events of the cluster, from any state it can get into: the events are timers firing and messages in
  flight being delivered. This theory holds what every such course keeps and the course that elects a leader: a node that
  does not lead overtakes all terms and makes everybody a follower, then the node with the most up-to-date log asks for
  votes and gets them.
\<close>

subsection \<open>Courses of events\<close>

lemma credited_trans:
  assumes "credited_reachable V b d" "credited_reachable V a b"
  shows "credited_reachable V a d"
  using assms by (induction rule: credited_reachable.induct) (auto intro: credited_reachable.step)

lemma credited_one:
  "n \<in> V \<Longrightarrow> admissible c n i \<Longrightarrow> has_room (nodes c n) i \<Longrightarrow> credited (nodes c n) i \<Longrightarrow>
    credited_reachable V c (cluster_apply c n i)"
  by (rule credited_reachable.step [OF credited_reachable.start])

definition consistent :: "NodeId set \<Rightarrow> ('p, 'a) Cluster \<Rightarrow> bool" where
  "consistent V c \<longleftrightarrow> (\<exists>tlog. full_inv V tlog c)"

lemma consistent_reached: "consistent V c \<Longrightarrow> credited_reachable V c c' \<Longrightarrow> consistent V c'"
  by (rotate_tac, induction rule: credited_reachable.induct)
    (auto simp: consistent_def intro: full_inv_apply)

lemma consistentD:
  assumes "consistent V c"
  shows "election_inv V c" "finite V" "n \<in> V \<Longrightarrow> engine_inv (nodes c n)" "n \<in> V \<Longrightarrow> cfg_node_id (config (nodes c n)) = n"
    "n \<in> V \<Longrightarrow> engine_node_id (nodes c n) = n" "n \<in> V \<Longrightarrow> set (engine_other_voters (nodes c n)) = V - {n}"
    "n \<in> V \<Longrightarrow> distinct (engine_other_voters (nodes c n))" "n \<in> V \<Longrightarrow> quorum (membership (nodes c n)) = card V div 2 + 1"
proof -
  obtain tlog where inv: "full_inv V tlog c" using assms unfolding consistent_def by blast
  show e: "election_inv V c" by (rule full_invD(1) [OF inv])
  then have s: "static_ok V c" by (simp add: election_inv_def)
  then show "finite V" by (simp add: static_ok_def)
  show "n \<in> V \<Longrightarrow> engine_inv (nodes c n)" by (rule commit_invD(1) [OF full_invD(5) [OF inv]])
  show "n \<in> V \<Longrightarrow> cfg_node_id (config (nodes c n)) = n" "n \<in> V \<Longrightarrow> engine_node_id (nodes c n) = n"
    "n \<in> V \<Longrightarrow> set (engine_other_voters (nodes c n)) = V - {n}" "n \<in> V \<Longrightarrow> distinct (engine_other_voters (nodes c n))"
    using s by (auto simp: static_ok_def engine_node_id_def engine_other_voters_def other_voters_def)
  show "quorum (membership (nodes c n)) = card V div 2 + 1" if "n \<in> V"
  proof -
    have "length (voters (membership (nodes c n))) = card V"
      using s that distinct_card by (fastforce simp: static_ok_def)
    then show ?thesis by (simp add: quorum_def)
  qed
qed

lemma finite_max:
  assumes "finite V" "V \<noteq> {}"
  shows "\<exists>m \<in> V. \<forall>v \<in> V. f v \<le> (f m :: 'b :: linorder)"
proof -
  have "Max (f ` V) \<in> f ` V" using assms by (intro Max_in) auto
  then obtain m where "m \<in> V" "f m = Max (f ` V)" by auto
  then show ?thesis using assms(1) by (intro bexI [of _ m]) auto
qed

subsection \<open>What is committed on the way is applied on the way\<close>

lemma applied_between:
  assumes "credited_reachable V c c'" "consistent V c" "n \<in> V"
    and "unat (commit_index (nodes c n)) \<le> j" "j < unat (commit_index (nodes c' n))"
  shows "\<exists>es. (n, Apply es) \<in> history c' \<and> node_log c' n ! j \<in> set es"
  using assms
proof (induction rule: credited_reachable.induct)
  case (step c1 m i)
  let ?c = "cluster_apply c1 m i"
  have con: "consistent V c1" by (rule consistent_reached [OF step.prems(1) step.hyps(1)])
  show ?case
  proof (cases "m = n")
    case False
    then have "nodes ?c n = nodes c1 n" by (simp add: cluster_apply_sel(1))
    then show ?thesis using step.IH [OF step.prems(1-3)] step.prems(4) history_step [of c1 m i] by auto
  next
    case True
    obtain tlog where inv: "full_inv V tlog c1" using con unfolding consistent_def by blast
    have "good_step V tlog c1 m i" using full_invD(1,2) [OF inv] step.hyps(2-4) by (simp add: good_step_def)
    note ok = step_engine [OF inv this]
    let ?k = "unat (commit_index (nodes c1 n))" and ?k' = "unat (commit_index (nodes ?c n))"
    let ?as = "snd (engine_apply (nodes c1 n) i)"
    have grow: "take ?k' (node_log ?c n) = take ?k (node_log c1 n) @ applied ?as"
      using ok True by (simp add: step_ok_def cluster_apply_sel(1))
    have k: "?k \<le> length (node_log c1 n)" by (rule engine_inv_simps(5) [OF consistentD(3) [OF con step.prems(2)]])
    have nth: "node_log ?c n ! j = (take ?k (node_log c1 n) @ applied ?as) ! j"
      using step.prems(4) grow by (metis nth_take)
    show ?thesis
    proof (cases "j < ?k")
      case True
      then have "node_log ?c n ! j = node_log c1 n ! j" using nth k by (simp add: nth_append)
      then show ?thesis using step.IH [OF step.prems(1-3) True] history_step [of c1 m i] by auto
    next
      case False
      have "j < length (take ?k' (node_log ?c n))"
        using step.prems(4) engine_inv_simps(5) [OF consistentD(3) [OF consistent_reached [OF con
              credited_one [OF step.hyps(2-5)]] step.prems(2)]] by simp
      then have "j - ?k < length (applied ?as)" using False k unfolding grow by simp
      moreover have "node_log ?c n ! j = applied ?as ! (j - ?k)" using nth False k by (simp add: nth_append)
      ultimately have "node_log ?c n ! j \<in> set (applied ?as)" by simp
      then obtain es where "Apply es \<in> set ?as" "node_log ?c n ! j \<in> set es"
        by (auto simp: applied_def split: Action.splits)
      then show ?thesis using True by (auto simp: cluster_apply_sel(2))
    qed
  qed
qed simp

text \<open>What is committed stays, in every course.\<close>

lemma committed_stays:
  assumes "credited_reachable V c c'" "consistent V c" "n \<in> V"
  shows "unat (commit_index (nodes c n)) \<le> unat (commit_index (nodes c' n)) \<and>
    take (unat (commit_index (nodes c n))) (node_log c' n) = take (unat (commit_index (nodes c n))) (node_log c n)"
  using assms
proof (induction rule: credited_reachable.induct)
  case (step c1 m i)
  let ?c = "cluster_apply c1 m i" and ?j = "unat (commit_index (nodes c n))"
  show ?case
  proof (cases "m = n")
    case False
    then have "nodes ?c n = nodes c1 n" by (simp add: cluster_apply_sel(1))
    then show ?thesis using step.IH [OF step.prems] by simp
  next
    case True
    have con: "consistent V c1" by (rule consistent_reached [OF step.prems(1) step.hyps(1)])
    then obtain tlog where inv: "full_inv V tlog c1" unfolding consistent_def by blast
    have "good_step V tlog c1 m i" using full_invD(1,2) [OF inv] step.hyps(2-4) by (simp add: good_step_def)
    note ok = step_engine [OF inv this]
    note IH = step.IH [OF step.prems]
    let ?k = "unat (commit_index (nodes c1 n))" and ?k' = "unat (commit_index (nodes ?c n))"
    have grow: "take ?k' (node_log ?c n) = take ?k (node_log c1 n) @ applied (snd (engine_apply (nodes c1 n) i))"
      and kk: "?k \<le> ?k'"
      using ok True by (simp_all add: step_ok_def cluster_apply_sel(1) word_le_nat_alt)
    have k: "?k \<le> length (node_log c1 n)" by (rule engine_inv_simps(5) [OF consistentD(3) [OF con step.prems(2)]])
    have "take ?j (node_log ?c n) = take ?j (take ?k' (node_log ?c n))" using IH kk by (simp add: min_def)
    also have "\<dots> = take ?j (node_log c1 n)" unfolding grow using IH k by (simp add: min_def)
    finally show ?thesis using IH kk by simp
  qed
qed simp

subsection \<open>Not everybody leads\<close>

text \<open>Whoever leads in the highest term was voted for by somebody else, who cannot lead since.\<close>

lemma some_not_leader:
  assumes "election_inv V c" "2 \<le> card V"
  shows "\<exists>x \<in> V. role (nodes c x) \<noteq> Leader"
proof (rule ccontr)
  assume "\<not> ?thesis"
  then have all: "\<And>v. v \<in> V \<Longrightarrow> role (nodes c v) = Leader" by blast
  have el: "elections_ok V c" and vt: "votes_ok c" and st: "static_ok V c"
    using assms(1) by (simp_all add: election_inv_def)
  have fin: "finite V" using st by (simp add: static_ok_def)
  have ne: "V \<noteq> {}" using assms(2) by auto
  obtain m where m: "m \<in> V" "\<forall>v \<in> V. node_term c v \<le> node_term c m"
    using finite_max [OF fin ne, of "node_term c"] by blast
  have won: "(v, BecomeLeader (node_term c v)) \<in> history c" if "v \<in> V" for v
    using el that all unfolding elections_ok_def by blast
  obtain Q where Q: "majority_of (voter_membership V) Q" "\<forall>v \<in> Q. voted c v m (node_term c m)"
    using el won [OF m(1)] unfolding elections_ok_def by blast
  have sub: "Q \<subseteq> V" and "Suc (card V div 2) \<le> card Q"
    using Q(1) fin by (simp_all add: majority_of_def voter_membership_def quorum_def)
  then have big: "2 \<le> card Q" using assms(2) by linarith
  have "\<not> Q \<subseteq> {m}" using big card_mono [of "{m}" Q] by auto
  then obtain v where v: "v \<in> Q" "v \<noteq> m" by blast
  have "hs_le \<lparr>current_term = node_term c m, voted_for = Some m\<rparr> (engine_hard (nodes c v))"
    using vt Q(2) v(1) unfolding votes_ok_def by blast
  then have "node_term c m \<le> node_term c v" by (auto simp: hs_le_def engine_current_term_def)
  moreover have "node_term c v \<le> node_term c m" using m(2) sub v(1) by blast
  ultimately have same: "node_term c v = node_term c m" by simp
  have "(v, BecomeLeader (node_term c m)) \<in> history c" using won [of v] sub v(1) unfolding same by blast
  from elected_unique [OF assms(1) this won [OF m(1)]] v(2) show False by simp
qed

subsection \<open>A candidate of a high term\<close>

text \<open>\<open>x\<close> stands for election: it has voted for itself only, and its request for votes is under way.\<close>

definition standing :: "('p, 'a) Cluster \<Rightarrow> NodeId \<Rightarrow> bool" where
  "standing c x \<longleftrightarrow> role (nodes c x) = Candidate \<and> votes (nodes c x) = {x} \<and>
     (x, Broadcast (RequestVote (node_term c x) x (fst (last_index_term (storage (nodes c x))))
        (snd (last_index_term (storage (nodes c x)))))) \<in> history c"

lemma tick_once:
  assumes "consistent V c" "x \<in> V" "role (nodes c x) \<noteq> Leader" "Suc (unat (node_term c x)) < 2 ^ 64"
  shows "\<exists>c'. credited_reachable V c c' \<and> (\<forall>n. n \<noteq> x \<longrightarrow> nodes c' n = nodes c n) \<and> standing c' x \<and>
    node_log c' x = node_log c x \<and> unat (node_term c' x) = Suc (unat (node_term c x))"
proof -
  let ?e = "nodes c x" and ?now = "election_deadline (nodes c x)"
  have t: "tick ?e ?now = (fst (start_election ?e ?now), snd (tick ?e ?now))"
    "out_actions (snd (tick ?e ?now)) = snd (start_election ?e ?now)"
    using assms(3) by (cases "role ?e"; simp add: tick_def Let_def case_prod_unfold next_deadline_def)+
  have a: "engine_apply ?e (InTick ?now) = (fst (start_election ?e ?now), snd (start_election ?e ?now))"
    using t by (metis (mono_tags, lifting) engine_apply.simps(1) case_prod_conv Let_def)
  have s: "unat (node_term c x + 1) = Suc (unat (node_term c x))" using assms(4) by (rule unat_Suc_u64_bound)
  have "node_term c x \<noteq> - 1"
    using assms(4) s by (metis add.commute add_neg_numeral_special(7) nat.simps(3) unat_0)
  then have adm: "admissible c x (InTick ?now)" by simp
  let ?c = "cluster_apply c x (InTick ?now)"
  have n: "nodes ?c m = (if m = x then fst (start_election ?e ?now) else nodes c m)" for m
    by (simp only: cluster_apply_sel(1) a fst_conv)
  have h: "(x, b) \<in> history ?c \<longleftrightarrow> (x, b) \<in> history c \<or> b \<in> set (snd (start_election ?e ?now))" for b
    by (simp only: cluster_apply_sel(2) a fst_conv snd_conv simp_thms)
  have log: "ms_entries (storage (fst (start_election ?e ?now))) = ms_entries (storage ?e)"
    by (simp add: start_election_def Let_def case_prod_unfold)
  have "last_index_term (storage (fst (start_election ?e ?now))) = last_index_term (storage ?e)"
    by (rule last_index_term_entries [OF log])
  then have "standing ?c x" using consistentD(4) [OF assms(1,2)] by (simp add: standing_def n h)
  moreover have "credited_reachable V c ?c" by (rule credited_one [OF assms(2) adm]) simp_all
  ultimately show ?thesis using s log by (intro exI [of _ ?c]) (simp add: n)
qed

lemma tick_up:
  assumes "consistent V c" "x \<in> V" "role (nodes c x) \<noteq> Leader" "unat (node_term c x) + Suc k < 2 ^ 64"
  shows "\<exists>c'. credited_reachable V c c' \<and> (\<forall>n. n \<noteq> x \<longrightarrow> nodes c' n = nodes c n) \<and> standing c' x \<and>
    node_log c' x = node_log c x \<and> unat (node_term c' x) = unat (node_term c x) + Suc k"
  using assms(4)
proof (induction k)
  case 0
  then show ?case using tick_once [OF assms(1-3)] by simp
next
  case (Suc k)
  then obtain c1 where c1: "credited_reachable V c c1" "\<forall>n. n \<noteq> x \<longrightarrow> nodes c1 n = nodes c n" "standing c1 x"
    "node_log c1 x = node_log c x" "unat (node_term c1 x) = unat (node_term c x) + Suc k"
    by auto
  have "role (nodes c1 x) \<noteq> Leader" "Suc (unat (node_term c1 x)) < 2 ^ 64"
    using c1(3,5) Suc.prems by (simp_all add: standing_def)
  from tick_once [OF consistent_reached [OF assms(1) c1(1)] assms(2) this] obtain c2 where
    c2: "credited_reachable V c1 c2" "\<forall>n. n \<noteq> x \<longrightarrow> nodes c2 n = nodes c1 n" "standing c2 x"
      "node_log c2 x = node_log c1 x" "unat (node_term c2 x) = Suc (unat (node_term c1 x))"
    by blast
  show ?case
    by (intro exI [of _ c2] conjI credited_trans [OF c2(1) c1(1)] c2(3)) (use c1 c2 in auto)
qed

subsection \<open>Its request for votes reaches the others\<close>

text \<open>What \<open>p\<close> is after the request of \<open>x\<close>: a follower in its term, and a voter for it where the log allows.\<close>

definition polled :: "('p, 'a) Cluster \<Rightarrow> ('p, 'a) Cluster \<Rightarrow> NodeId \<Rightarrow> NodeId \<Rightarrow> bool" where
  "polled c c' x p \<longleftrightarrow> role (nodes c' p) = Follower \<and> node_term c' p = node_term c' x \<and> node_log c' p = node_log c p \<and>
     (last_pos (storage (nodes c p)) \<le> last_pos (storage (nodes c x)) \<longrightarrow>
        (p, Send x (RequestVoteResp (node_term c' x) True)) \<in> history c')"

lemma poll_one:
  assumes "consistent V c" "x \<in> V" "standing c x" "p \<in> V" "p \<noteq> x" "node_term c p < node_term c x"
  shows "\<exists>c'. credited_reachable V c c' \<and> (\<forall>n. n \<noteq> p \<longrightarrow> nodes c' n = nodes c n) \<and> history c \<subseteq> history c' \<and> polled c c' x p"
proof -
  let ?e = "nodes c p" and ?li = "fst (last_index_term (storage (nodes c x)))" and ?lt = "snd (last_index_term (storage (nodes c x)))"
  let ?t = "node_term c x"
  let ?i = "InRpc x (RequestVote ?t x ?li ?lt) 0"
  let ?c = "cluster_apply c p ?i"
  have adm: "admissible c p ?i"
    using assms(3,4,5) consistentD(6) [OF assms(1,2)] by (simp add: standing_def in_flight_def)
  then have "credited_reachable V c ?c" by (intro credited_one [OF assms(4)]) simp_all
  moreover have "grants_vote ?e ?t x ?li ?lt" if "last_pos (storage ?e) \<le> last_pos (storage (nodes c x))"
    using that assms(6) by (simp add: grants_vote_def last_pos_def case_prod_unfold Let_def)
  moreover have "engine_current_term (fst (handle_request_vote ?e x ?t x ?li ?lt 0)) = ?t"
    using assms(6) by (auto simp: engine_current_term_def handle_request_vote_spec(2))
  ultimately have "polled c ?c x p"
    using assms(5,6) by (auto simp: polled_def cluster_apply_sel handle_request_vote_spec)
  then show ?thesis using \<open>credited_reachable V c ?c\<close> history_step [of c p ?i]
    by (intro exI [of _ ?c]) (auto simp: cluster_apply_sel(1))
qed

lemma standing_kept: "standing c x \<Longrightarrow> nodes c' x = nodes c x \<Longrightarrow> history c \<subseteq> history c' \<Longrightarrow> standing c' x"
  by (auto simp: standing_def)

lemma poll_all:
  assumes "consistent V c" "x \<in> V" "standing c x" "set ps \<subseteq> V - {x}" "distinct ps"
    and "\<forall>p \<in> set ps. node_term c p < node_term c x"
  shows "\<exists>c'. credited_reachable V c c' \<and> (\<forall>n. n \<notin> set ps \<longrightarrow> nodes c' n = nodes c n) \<and> history c \<subseteq> history c' \<and>
    (\<forall>p \<in> set ps. polled c c' x p)"
  using assms
proof (induction ps arbitrary: c)
  case Nil
  then show ?case by (intro exI [of _ c]) (auto intro: credited_reachable.start)
next
  case (Cons p ps)
  have p: "p \<in> V" "p \<noteq> x" "p \<notin> set ps" using Cons.prems(4,5) by auto
  have "node_term c p < node_term c x" using Cons.prems(6) by simp
  from poll_one [OF Cons.prems(1-3) p(1,2) this] obtain c1 where
    c1: "credited_reachable V c c1" "\<forall>n. n \<noteq> p \<longrightarrow> nodes c1 n = nodes c n" "history c \<subseteq> history c1" "polled c c1 x p"
    by blast
  have x: "nodes c1 x = nodes c x" using c1(2) p(2) by simp
  have old: "nodes c1 q = nodes c q" if "q \<in> set ps" for q using c1(2) that p(3) by metis
  have "\<exists>c'. credited_reachable V c1 c' \<and> (\<forall>n. n \<notin> set ps \<longrightarrow> nodes c' n = nodes c1 n) \<and> history c1 \<subseteq> history c' \<and>
      (\<forall>p \<in> set ps. polled c1 c' x p)"
    using Cons.prems(4-6) old x standing_kept [OF Cons.prems(3) x c1(3)]
    by (intro Cons.IH [OF consistent_reached [OF Cons.prems(1) c1(1)] Cons.prems(2)]) auto
  then obtain c2 where c2: "credited_reachable V c1 c2" "\<forall>n. n \<notin> set ps \<longrightarrow> nodes c2 n = nodes c1 n"
    "history c1 \<subseteq> history c2" "\<forall>p \<in> set ps. polled c1 c2 x p" by blast
  have x2: "nodes c2 x = nodes c x" using c2(2) x Cons.prems(4) by auto
  have p2: "nodes c2 p = nodes c1 p" using c2(2) p(3) by simp
  have "polled c c2 x p" using c1(4) c2(3) x x2 p2 unfolding polled_def by auto
  moreover have "polled c c2 x q" if "q \<in> set ps" for q
    using c2(4) that old [OF that] x unfolding polled_def by auto
  ultimately show ?case
    using c1(2,3) c2(2,3) by (intro exI [of _ c2] conjI credited_trans [OF c2(1) c1(1)]) auto
qed

text \<open>A node that does not lead overtakes everybody's term and asks everybody for its vote.\<close>

definition swept :: "NodeId set \<Rightarrow> ('p, 'a) Cluster \<Rightarrow> ('p, 'a) Cluster \<Rightarrow> NodeId \<Rightarrow> nat \<Rightarrow> bool" where
  "swept V c c' x t \<longleftrightarrow> credited_reachable V c c' \<and> role (nodes c' x) = Candidate \<and> votes (nodes c' x) = {x} \<and>
     node_log c' x = node_log c x \<and> unat (node_term c' x) = t \<and> (\<forall>p \<in> V - {x}. polled c c' x p)"

lemma last_pos_cong: "ms_entries s = ms_entries s' \<Longrightarrow> last_pos s = last_pos s'"
  unfolding last_pos_def by (drule last_index_term_entries) simp

lemma sweep:
  assumes "consistent V c" "x \<in> V" "role (nodes c x) \<noteq> Leader" "\<forall>n \<in> V. unat (node_term c n) \<le> k" "Suc k < 2 ^ 64"
  shows "\<exists>c'. swept V c c' x (Suc k)"
proof -
  have "unat (node_term c x) + Suc (k - unat (node_term c x)) = Suc k" using assms(2,4) by simp
  then obtain c1 where c1: "credited_reachable V c c1" "\<forall>n. n \<noteq> x \<longrightarrow> nodes c1 n = nodes c n" "standing c1 x"
    "node_log c1 x = node_log c x" "unat (node_term c1 x) = Suc k"
    using tick_up [OF assms(1-3), of "k - unat (node_term c x)"] assms(5) by auto
  let ?ps = "engine_other_voters (nodes c1 x)"
  have con: "consistent V c1" by (rule consistent_reached [OF assms(1) c1(1)])
  note ps = consistentD(6,7) [OF con assms(2)]
  have "\<forall>p \<in> set ?ps. node_term c1 p < node_term c1 x"
    using ps(1) c1(2,5) assms(4) by (auto simp: word_less_nat_alt le_imp_less_Suc)
  from poll_all [OF con assms(2) c1(3) _ ps(2) this] obtain c2 where
    c2: "credited_reachable V c1 c2" "\<forall>n. n \<notin> V - {x} \<longrightarrow> nodes c2 n = nodes c1 n" "\<forall>p \<in> V - {x}. polled c1 c2 x p"
    unfolding ps(1) by blast
  have x: "nodes c2 x = nodes c1 x" using c2(2) by simp
  have lp: "last_pos (storage (nodes c1 x)) = last_pos (storage (nodes c x))" by (rule last_pos_cong [OF c1(4)])
  have "polled c c2 x p" if "p \<in> V - {x}" for p
  proof -
    have p: "nodes c1 p = nodes c p" using c1(2) that by blast
    have "polled c1 c2 x p" using c2(3) that by blast
    then show ?thesis unfolding polled_def p lp .
  qed
  then have "swept V c c2 x (Suc k)"
    using c1(3-5) x credited_trans [OF c2(1) c1(1)] by (simp add: swept_def standing_def)
  then show ?thesis ..
qed

text \<open>Twice: first so that nobody leads, then for a node whose log is at least as up to date as any other.\<close>

lemma nominate:
  assumes "consistent V c" "2 \<le> card V" "\<forall>n \<in> V. unat (node_term c n) \<le> k" "Suc (Suc k) < 2 ^ 64"
  shows "\<exists>c' w. credited_reachable V c c' \<and> w \<in> V \<and> role (nodes c' w) = Candidate \<and> votes (nodes c' w) = {w} \<and>
    unat (node_term c' w) = Suc (Suc k) \<and> (\<forall>n \<in> V. node_log c' n = node_log c n) \<and>
    (\<forall>p \<in> V - {w}. node_term c' p = node_term c' w \<and> (p, Send w (RequestVoteResp (node_term c' w) True)) \<in> history c')"
proof -
  obtain x where x: "x \<in> V" "role (nodes c x) \<noteq> Leader"
    using some_not_leader [OF consistentD(1) [OF assms(1)] assms(2)] by blast
  have "Suc k < 2 ^ 64" using assms(4) by simp
  from sweep [OF assms(1) x assms(3) this] obtain c1 where s1: "swept V c c1 x (Suc k)" by blast
  then have con: "consistent V c1" by (intro consistent_reached [OF assms(1)]) (simp add: swept_def)
  have log1: "node_log c1 n = node_log c n" if "n \<in> V" for n
    using s1 that by (cases "n = x") (simp_all add: swept_def polled_def)
  have role1: "role (nodes c1 n) \<noteq> Leader" if "n \<in> V" for n
    using s1 that by (cases "n = x") (simp_all add: swept_def polled_def)
  have term1: "unat (node_term c1 n) \<le> Suc k" if "n \<in> V" for n
    using s1 that by (cases "n = x") (simp_all add: swept_def polled_def)
  have "V \<noteq> {}" using x by auto
  with finite_max [OF consistentD(2) [OF assms(1)], of "\<lambda>n. last_pos (storage (nodes c1 n))"] obtain w where
    w: "w \<in> V" "\<forall>v \<in> V. last_pos (storage (nodes c1 v)) \<le> last_pos (storage (nodes c1 w))" by blast
  from sweep [OF con w(1) role1 [OF w(1)] _ assms(4)] term1 obtain c2 where s2: "swept V c1 c2 w (Suc (Suc k))" by blast
  have "node_log c2 n = node_log c n" if "n \<in> V" for n
    using s2 that log1 [OF that] by (cases "n = w") (simp_all add: swept_def polled_def)
  moreover have "credited_reachable V c c2"
    using s1 s2 credited_trans by (auto simp: swept_def)
  ultimately show ?thesis
    using s2 w by (intro exI [of _ c2] exI [of _ w]) (auto simp: swept_def polled_def)
qed

subsection \<open>The votes arrive\<close>

text \<open>What a new leader knows of the others: nothing yet.\<close>

definition fresh_leader :: "NodeId set \<Rightarrow> ('p, 'a) Cluster \<Rightarrow> NodeId \<Rightarrow> bool" where
  "fresh_leader V c w \<longleftrightarrow> role (nodes c w) = Leader \<and> ae_inflight (nodes c w) = {} \<and>
     (\<forall>p \<in> V - {w}. match_index (nodes c w) p = Some 0)"

lemma collect:
  assumes "consistent V c" "w \<in> V" "role (nodes c w) = Candidate" "set ps \<subseteq> V" "distinct ps"
    and "finite (votes (nodes c w))" "set ps \<inter> votes (nodes c w) = {}"
    and "card (votes (nodes c w)) < quorum (membership (nodes c w))"
    and "quorum (membership (nodes c w)) \<le> card (votes (nodes c w)) + length ps"
    and "\<forall>p \<in> set ps. (p, Send w (RequestVoteResp (node_term c w) True)) \<in> history c"
  shows "\<exists>c'. credited_reachable V c c' \<and> (\<forall>n. n \<noteq> w \<longrightarrow> nodes c' n = nodes c n) \<and>
    storage (nodes c' w) = storage (nodes c w) \<and> fresh_leader V c' w"
  using assms
proof (induction ps arbitrary: c)
  case (Cons p ps)
  let ?e = "nodes c w" and ?t = "node_term c w"
  let ?i = "InRpc p (RequestVoteResp ?t True) 0"
  let ?c = "cluster_apply c w ?i" and ?e1 = "?e\<lparr>votes := insert p (votes ?e)\<rparr>"
  have "admissible c w ?i" using Cons.prems(10) by (simp add: in_flight_def)
  then have r: "credited_reachable V c ?c" by (intro credited_one [OF Cons.prems(2)]) simp_all
  have n: "nodes ?c m = (if m = w then fst (handle_request_vote_resp ?e p ?t True 0) else nodes c m)" for m
    by (simp add: cluster_apply_sel(1))
  have step: "fst (handle_request_vote_resp ?e p ?t True 0) =
      (if quorum (membership ?e) \<le> card (insert p (votes ?e)) then fst (become_leader ?e1 ?t 0 []) else ?e1)"
    using Cons.prems(3) by (simp add: handle_request_vote_resp_def Let_def)
  show ?case
  proof (cases "quorum (membership ?e) \<le> card (insert p (votes ?e))")
    case True
    have "set (engine_other_voters ?e1) = V - {w}"
      using consistentD(6) [OF Cons.prems(1,2)] by (simp add: engine_other_voters_def)
    then have "fresh_leader V ?c w" by (simp add: fresh_leader_def n step True)
    then show ?thesis using r by (intro exI [of _ ?c]) (simp add: n step True)
  next
    case False
    then have w: "nodes ?c w = ?e1" by (simp add: n step)
    have new: "card (insert p (votes ?e)) = Suc (card (votes ?e))"
      using Cons.prems(6,7) by (intro card_insert_disjoint) auto
    have "\<exists>c'. credited_reachable V ?c c' \<and> (\<forall>n. n \<noteq> w \<longrightarrow> nodes c' n = nodes ?c n) \<and>
        storage (nodes c' w) = storage (nodes ?c w) \<and> fresh_leader V c' w"
    proof (rule Cons.IH [OF consistent_reached [OF Cons.prems(1) r] Cons.prems(2)])
      have "node_term ?c w = ?t" unfolding w by (simp add: engine_current_term_def)
      then show "\<forall>q \<in> set ps. (q, Send w (RequestVoteResp (node_term ?c w) True)) \<in> history ?c"
        using Cons.prems(10) history_step [of c w ?i] by auto
    qed (use Cons.prems(3-9) False new in \<open>auto simp: w\<close>)
    then obtain c' where "credited_reachable V ?c c'" "\<forall>n. n \<noteq> w \<longrightarrow> nodes c' n = nodes ?c n"
        "storage (nodes c' w) = storage (nodes ?c w)" "fresh_leader V c' w"
      by blast
    moreover have "storage (nodes ?c w) = storage ?e" unfolding w by simp
    moreover have "nodes ?c n = nodes c n" if "n \<noteq> w" for n using that by (simp add: n)
    ultimately show ?thesis using credited_trans [OF _ r] by metis
  qed
qed simp

text \<open>Together: from any state on there is one with a new leader of a term above all, and no log has changed.\<close>

lemma electable:
  assumes "consistent V c" "2 \<le> card V" "\<forall>n \<in> V. unat (node_term c n) \<le> k" "Suc (Suc k) < 2 ^ 64"
  shows "\<exists>c' w. credited_reachable V c c' \<and> w \<in> V \<and> fresh_leader V c' w \<and> unat (node_term c' w) = Suc (Suc k) \<and>
    (\<forall>n \<in> V. node_log c' n = node_log c n \<and> node_term c' n = node_term c' w)"
proof -
  from nominate [OF assms] obtain c1 w where c1: "credited_reachable V c c1" "w \<in> V" "role (nodes c1 w) = Candidate"
    "votes (nodes c1 w) = {w}" "unat (node_term c1 w) = Suc (Suc k)" "\<forall>n \<in> V. node_log c1 n = node_log c n"
    "\<forall>p \<in> V - {w}. node_term c1 p = node_term c1 w \<and> (p, Send w (RequestVoteResp (node_term c1 w) True)) \<in> history c1"
    by blast
  have con: "consistent V c1" by (rule consistent_reached [OF assms(1) c1(1)])
  let ?ps = "engine_other_voters (nodes c1 w)"
  note ps = consistentD(6,7) [OF con c1(2)] and q = consistentD(8) [OF con c1(2)]
  have "length ?ps = card (V - {w})" using distinct_card [OF ps(2)] ps(1) by simp
  then have len: "length ?ps = card V - 1" using c1(2) by simp
  have "\<exists>c'. credited_reachable V c1 c' \<and> (\<forall>n. n \<noteq> w \<longrightarrow> nodes c' n = nodes c1 n) \<and>
      storage (nodes c' w) = storage (nodes c1 w) \<and> fresh_leader V c' w"
  proof (rule collect [OF con c1(2,3) _ ps(2)])
    show "card (votes (nodes c1 w)) < quorum (membership (nodes c1 w))" using assms(2) by (simp add: q c1(4))
    show "quorum (membership (nodes c1 w)) \<le> card (votes (nodes c1 w)) + length ?ps"
      using assms(2) by (simp add: q c1(4) len)
  qed (use c1(4,7) ps(1) in auto)
  then obtain c2 where c2: "credited_reachable V c1 c2" "\<forall>n. n \<noteq> w \<longrightarrow> nodes c2 n = nodes c1 n"
    "storage (nodes c2 w) = storage (nodes c1 w)" "fresh_leader V c2 w" by blast
  have tw: "node_term c2 w = node_term c1 w" using c2(3) by (simp add: engine_current_term_def)
  have "node_log c2 n = node_log c n \<and> node_term c2 n = node_term c2 w" if "n \<in> V" for n
    using c2(2,3) c1(6,7) that tw by (cases "n = w") auto
  then show ?thesis
    using c1(2,5) c2(4) tw credited_trans [OF c2(1) c1(1)] by (intro exI [of _ c2] exI [of _ w]) simp
qed

end
