(* ===== verification/Progress.thy ===== *)
theory Progress
  imports CatchUp Courses
begin

text \<open>
  Progress of the cluster: from every state it can get into, some further course of events elects a
  leader that takes a proposal, replicates and commits it, after which every node applies it. The course is built in
  phases, each a lemma about \<open>credited_reachable\<close> from the state before it; the election is in \<open>Courses\<close>.
\<close>

subsection \<open>A proposal\<close>

lemma replicate_to_last:
  assumes "storage_wf (storage e)" "log_fits e" "engine_progress e" "set ps \<subseteq> set (engine_other_voters e)"
    and "distinct ps"
  shows "last_ae (fst (replicate_to e ps)) p = (if p \<in> set ps \<and> p \<notin> ae_inflight e
     then Some (ae_prev e p, length (ms_entries (storage e)) - unat (ae_prev e p)) else last_ae e p)"
  using assms
proof (induction ps arbitrary: e)
  case (Cons q ps)
  have q: "q \<in> set (engine_other_voters e)" using Cons.prems(4) by simp
  note spec = send_append_entries_to_spec [OF Cons.prems(1-3) q]
  show ?case
  proof (cases "q \<in> ae_inflight e")
    case True
    with Cons.IH [OF Cons.prems(1-3)] Cons.prems(4,5) show ?thesis by (auto simp: spec Let_def case_prod_unfold)
  next
    case False
    have "last_ae (fst (replicate_to (mark_sent e q) ps)) p = (if p \<in> set ps \<and> p \<notin> insert q (ae_inflight e)
        then Some (ae_prev e p, length (ms_entries (storage e)) - unat (ae_prev e p)) else last_ae (mark_sent e q) p)"
      using Cons.IH [OF _ _ progress_mark_sent [OF Cons.prems(1-3) q]] Cons.prems(1,2,4,5)
      unfolding mark_sent_sel by simp
    then show ?thesis using False Cons.prems(5) by (auto simp: spec Let_def case_prod_unfold)
  qed
qed simp

text \<open>What waits for an answer of \<open>p\<close> in the cluster, with nothing known to match.\<close>

definition awaited :: "('p, 'a) Cluster \<Rightarrow> NodeId \<Rightarrow> NodeId \<Rightarrow> bool" where
  "awaited c w p \<longleftrightarrow> match_index (nodes c w) p = Some 0 \<and>
     (\<exists>msg i. requested (nodes c w) p msg i \<and> (w, Send p msg) \<in> history c)"

lemma proposal_sent:
  assumes "consistent V c" "w \<in> V" "fresh_leader V c w" "Suc (Suc (length (node_log c w))) < 2 ^ 64"
  shows "\<exists>c'. credited_reachable V c c' \<and> (\<forall>n. n \<noteq> w \<longrightarrow> nodes c' n = nodes c n) \<and>
    role (nodes c' w) = Leader \<and> node_log c' w = node_log c w @ [proposed (nodes c w) data] \<and>
    node_term c' w = node_term c w \<and> ae_inflight (nodes c' w) = V - {w} \<and> (\<forall>p \<in> V - {w}. awaited c' w p)"
proof -
  let ?e = "nodes c w" and ?i = "InPropose data"
  let ?e1 = "with_entry ?e (proposed ?e data)"
  let ?c = "cluster_apply c w ?i"
  have inv: "engine_inv ?e" and L: "role ?e = Leader"
    using consistentD(3) [OF assms(1,2)] assms(3) by (simp_all add: fresh_leader_def)
  note W = with_entry_spec [OF inv assms(4), of data]
  have i1: "engine_inv ?e1" using W(3) by (simp add: step_ok_def)
  note I = engine_inv_simps [OF i1]
  have L1: "role ?e1 = Leader" using L by simp
  note P = I(6) [OF L1]
  have n: "nodes ?c m = (if m = w then fst (replicate_actions ?e1) else nodes c m)" for m
    using L by (simp add: cluster_apply_sel(1) propose_unfold)
  have h: "(w, a) \<in> history ?c \<longleftrightarrow> (w, a) \<in> history c \<or> a \<in> set (snd (replicate_actions ?e1))" for a
    using L by (simp add: cluster_apply_sel(2) propose_unfold)
  have reach: "credited_reachable V c ?c"
    using assms(4) by (intro credited_one [OF assms(2)]) simp_all
  have ov: "set (engine_other_voters ?e1) = V - {w}" "distinct (engine_other_voters ?e1)"
    using consistentD(6,7) [OF assms(1,2)] by simp_all
  have inf: "ae_inflight ?e1 = {}" using assms(3) by (simp add: fresh_leader_def)
  have "awaited ?c w p" if p: "p \<in> V - {w}" for p
  proof -
    have po: "p \<in> set (engine_other_voters ?e1)" using p ov(1) by simp
    let ?r = "fst (replicate_actions ?e1)"
    have last: "last_ae ?r p = Some (ae_prev ?e1 p, length (engine_log ?e1) - unat (ae_prev ?e1 p))"
      using replicate_to_last [OF I(1,2) P subset_refl ov(2), of p] po inf by (simp add: replicate_actions_def)
    have "requested (mark_sent ?e1 p) p (ae_msg ?e1 p) (ae_prev ?e1 p)" by (rule requested_mark_sent [OF i1 L1 po])
    moreover have "engine_inv ?r" using replicate_step [OF i1 L1] by (simp add: step_ok_def)
    ultimately have "requested ?r p (ae_msg ?e1 p) (ae_prev ?e1 p)"
      using last L1 po by (simp add: requested_def engine_node_id_def engine_current_term_def mark_sent_def)
    moreover have "Send p (ae_msg ?e1 p) \<in> set (snd (replicate_actions ?e1))"
      using replicate_actions_spec(1) [OF I(1,2) P I(3)] inf po by simp
    moreover have "match_index ?r p = Some 0" using assms(3) p by (simp add: fresh_leader_def)
    ultimately show ?thesis unfolding awaited_def n h if_P [OF refl] by blast
  qed
  moreover have "node_log ?c w = node_log c w @ [proposed ?e data]" "role (nodes ?c w) = Leader"
    "node_term ?c w = node_term c w" "ae_inflight (nodes ?c w) = V - {w}"
    using W(1) L1 replicate_actions_spec(2) [OF I(1,2) P I(3)] inf ov(1) by (simp_all add: n engine_current_term_def)
  ultimately show ?thesis using reach by (intro exI [of _ ?c]) (simp add: n)
qed

subsection \<open>The log reaches the others\<close>

lemma same_term: "storage e' = storage e \<Longrightarrow> engine_current_term e' = engine_current_term e"
  by (simp add: engine_current_term_def)

text \<open>The exchange of \<open>catch_up\<close> as a course of the cluster; every success in it is credited with what it confirms.\<close>

lemma exchange_cluster:
  assumes "consistent V c" "w \<in> V" "p \<in> V" "p \<noteq> w" "exchanging (nodes c w) (nodes c p) p msg i m"
    and "(w, Send p msg) \<in> history c"
  shows "\<exists>c'. credited_reachable V c c' \<and> caught_up (nodes c w) p (nodes c' w) \<and> node_term c' p = node_term c w \<and>
    (\<forall>n. n \<noteq> w \<longrightarrow> n \<noteq> p \<longrightarrow> nodes c' n = nodes c n) \<and> history c \<subseteq> history c'"
  using assms(1,5,6)
proof (induction "unat i" arbitrary: c msg i rule: less_induct)
  case less
  let ?L = "nodes c w" and ?F = "nodes c p" and ?t = "node_term c w"
  let ?a = "handle_rpc ?F w msg 0"
  let ?b = "\<lambda>ok j. handle_rpc ?L p (AppendEntriesResp ?t ok j) 0"
  let ?c1 = "cluster_apply c p (InRpc w msg 0)"
  let ?c2 = "\<lambda>ok j. cluster_apply ?c1 w (InRpc p (AppendEntriesResp ?t ok j) 0)"
  have id: "engine_node_id ?L = w" by (rule consistentD(5) [OF less.prems(1) assms(2)])
  have rq: "requested ?L p msg i" using less.prems(2) by (simp add: exchanging_def)
  have "credited ?F (InRpc w msg 0)" using requestedD(7) [OF rq] by auto
  then have r1: "credited_reachable V c ?c1"
    using less.prems(3) by (intro credited_one [OF assms(3)]) (simp_all add: in_flight_def)
  have n1: "nodes ?c1 n = (if n = p then fst ?a else nodes c n)" for n by (simp add: cluster_apply_sel(1))
  have n2: "nodes (?c2 ok j) n = (if n = w then fst (?b ok j) else if n = p then fst ?a else nodes c n)" for ok j n
    using assms(4) by (simp add: cluster_apply_sel(1))
  have h: "history c \<subseteq> history (?c2 ok j)" for ok j
    by (rule subset_trans [OF history_step [of c p "InRpc w msg 0"] history_step])
  have r2: "credited_reachable V c (?c2 ok j)"
    if "sent_to w (snd ?a) = Some (AppendEntriesResp ?t ok j)" "ok \<longrightarrow> j = i + of_nat (length (engine_log ?L) - unat i)" for ok j
  proof (rule credited_trans [OF credited_one r1])
    have "(p, Send w (AppendEntriesResp ?t ok j)) \<in> history ?c1"
      using sent_to_in [OF that(1)] by (simp add: cluster_apply_sel(2))
    then show "admissible ?c1 w (InRpc p (AppendEntriesResp ?t ok j) 0)" by (simp add: in_flight_def)
    show "credited (nodes ?c1 w) (InRpc p (AppendEntriesResp ?t ok j) 0)"
      using that(2) requestedD(6) [OF rq] assms(4) by (cases ok) (simp_all add: n1)
  qed (use assms(2) in simp_all)
  show ?case
  proof (rule exchange_round [OF less.prems(2), of 0, unfolded id], goal_cases)
    case (1 j)
    then show ?case using r2 [of True j] h n2 assms(4) by (intro exI [of _ "?c2 True j"]) simp
  next
    case (2 j msg')
    note R = r2 [OF 2(1)] and s = h [of False j]
    have "i \<noteq> 0" using 2(4) by auto
    then have lt: "unat (i - 1) < unat i" using 2(4) by (simp add: unat_pred_u64)
    have ex: "exchanging (nodes (?c2 False j) w) (nodes (?c2 False j) p) p msg' (i - 1) m"
      using 2(3) assms(4) by (simp add: n2)
    have "(w, Send p msg') \<in> history (?c2 False j)"
      using sent_to_in [OF 2(2)] assms(4) by (simp add: cluster_apply_sel(2) n1)
    from less.hyps [OF lt consistent_reached [OF less.prems(1) R] ex this] obtain c' where
      c': "credited_reachable V (?c2 False j) c'" "caught_up (nodes (?c2 False j) w) p (nodes c' w)"
        "node_term c' p = node_term (?c2 False j) w"
        "\<forall>n. n \<noteq> w \<longrightarrow> n \<noteq> p \<longrightarrow> nodes c' n = nodes (?c2 False j) n" "history (?c2 False j) \<subseteq> history c'"
      by auto
    have "caught_up ?L p (nodes c' w)" using 2(5) c'(2) by (simp add: n2)
    moreover have "nodes c' n = nodes c n" if "n \<noteq> w" "n \<noteq> p" for n using c'(4) that by (simp add: n2)
    moreover have "node_term (?c2 False j) w = node_term c w"
      unfolding n2 if_P [OF refl] by (rule same_term [OF 2(6)])
    then have "node_term c' p = node_term c w" using c'(3) by simp
    ultimately show ?case using credited_trans [OF c'(1) R] s c'(5) by blast
  qed
qed

lemma requested_kept:
  assumes "caught_up L p L'" "q \<noteq> p" "requested L q msg i"
  shows "requested L' q msg i" "match_index L' q = match_index L q"
proof -
  have o: "engine_other_voters L' = engine_other_voters L"
    using assms(1) by (simp add: caught_up_def engine_other_voters_def)
  show "requested L' q msg i" "match_index L' q = match_index L q"
    using assms by (simp_all add: requested_def caught_up_def o engine_current_term_def engine_node_id_def)
qed

text \<open>One after the other, everybody gets the leader's whole log; after the last one all that can be committed is.\<close>

lemma replicated_to:
  assumes "consistent V c" "w \<in> V" "set ps \<subseteq> V - {w}" "distinct ps" "role (nodes c w) = Leader"
    and "\<forall>p \<in> set ps. awaited c w p \<and> node_term c p \<le> node_term c w"
  shows "\<exists>c'. credited_reachable V c c' \<and> role (nodes c' w) = Leader \<and> storage (nodes c' w) = storage (nodes c w) \<and>
    ae_inflight (nodes c' w) = ae_inflight (nodes c w) - set ps \<and>
    (\<forall>n. node_term c n \<le> node_term c w \<longrightarrow> node_term c' n \<le> node_term c' w) \<and>
    (\<forall>p. match_index (nodes c' w) p = (if p \<in> set ps then Some (of_nat (length (node_log c w))) else match_index (nodes c w) p)) \<and>
    (ps \<noteq> [] \<or> (\<forall>n. commitable (nodes c w) n \<longrightarrow> n \<le> commit_index (nodes c w)) \<longrightarrow>
      (\<forall>n. commitable (nodes c' w) n \<longrightarrow> n \<le> commit_index (nodes c' w)))"
  using assms
proof (induction ps arbitrary: c)
  case Nil
  then show ?case by (intro exI [of _ c]) (auto intro: credited_reachable.start)
next
  case (Cons p ps)
  have p: "p \<in> V" "p \<noteq> w" "p \<notin> set ps" using Cons.prems(3,4) by auto
  obtain msg i where m: "requested (nodes c w) p msg i" "(w, Send p msg) \<in> history c" "match_index (nodes c w) p = Some 0"
    using Cons.prems(6) by (auto simp: awaited_def)
  note F = engine_inv_simps [OF consistentD(3) [OF Cons.prems(1) p(1)]]
  have "exchanging (nodes c w) (nodes c p) p msg i 0"
    using m(1,3) F(1,4) Cons.prems(6) consistentD(5) [OF Cons.prems(1) p(1)] by (simp add: exchanging_def logs_agree_def)
  from exchange_cluster [OF Cons.prems(1,2) p(1,2) this m(2)] obtain c1 where
    c1: "credited_reachable V c c1" "caught_up (nodes c w) p (nodes c1 w)" "history c \<subseteq> history c1"
      "node_term c1 p = node_term c w" "\<forall>n. n \<noteq> w \<longrightarrow> n \<noteq> p \<longrightarrow> nodes c1 n = nodes c n"
    by blast
  have st: "storage (nodes c1 w) = storage (nodes c w)" "role (nodes c1 w) = Leader"
    "match_index (nodes c1 w) = (match_index (nodes c w))(p \<mapsto> of_nat (length (node_log c w)))"
    "\<forall>n. commitable (nodes c1 w) n \<longrightarrow> n \<le> commit_index (nodes c1 w)"
    "ae_inflight (nodes c1 w) = ae_inflight (nodes c w) - {p}"
    using c1(2) by (simp_all add: caught_up_def)
  have tw: "node_term c1 w = node_term c w" using st(1) by (simp add: engine_current_term_def)
  have tn: "node_term c1 n \<le> node_term c1 w" if "node_term c n \<le> node_term c w" for n
    using that tw c1(4,5) by (cases "n = w \<or> n = p") auto
  have "awaited c1 w q \<and> node_term c1 q \<le> node_term c1 w" if "q \<in> set ps" for q
  proof -
    have q: "q \<noteq> p" "q \<noteq> w" "awaited c w q" "node_term c q \<le> node_term c w"
      using that p(3) Cons.prems(3,6) by auto
    moreover have "nodes c1 q = nodes c q" using c1(5) q by blast
    moreover from q(3) obtain msg' i' where
      a: "requested (nodes c w) q msg' i'" "(w, Send q msg') \<in> history c" "match_index (nodes c w) q = Some 0"
      unfolding awaited_def by blast
    moreover have "awaited c1 w q"
      unfolding awaited_def using requested_kept [OF c1(2) q(1) a(1)] a(2,3) c1(3) by auto
    ultimately show ?thesis using st(1) by (simp add: engine_current_term_def)
  qed
  then have "\<exists>c'. credited_reachable V c1 c' \<and> role (nodes c' w) = Leader \<and> storage (nodes c' w) = storage (nodes c1 w) \<and>
      ae_inflight (nodes c' w) = ae_inflight (nodes c1 w) - set ps \<and>
      (\<forall>n. node_term c1 n \<le> node_term c1 w \<longrightarrow> node_term c' n \<le> node_term c' w) \<and>
      (\<forall>q. match_index (nodes c' w) q = (if q \<in> set ps then Some (of_nat (length (node_log c1 w))) else match_index (nodes c1 w) q)) \<and>
      (ps \<noteq> [] \<or> (\<forall>n. commitable (nodes c1 w) n \<longrightarrow> n \<le> commit_index (nodes c1 w)) \<longrightarrow>
        (\<forall>n. commitable (nodes c' w) n \<longrightarrow> n \<le> commit_index (nodes c' w)))"
    using Cons.prems(3,4) st(2) by (intro Cons.IH [OF consistent_reached [OF Cons.prems(1) c1(1)] Cons.prems(2)]) auto
  then obtain c2 where c2: "credited_reachable V c1 c2" "role (nodes c2 w) = Leader" "storage (nodes c2 w) = storage (nodes c1 w)"
    "ae_inflight (nodes c2 w) = ae_inflight (nodes c1 w) - set ps"
    "\<forall>n. node_term c1 n \<le> node_term c1 w \<longrightarrow> node_term c2 n \<le> node_term c2 w"
    "\<forall>q. match_index (nodes c2 w) q = (if q \<in> set ps then Some (of_nat (length (node_log c1 w))) else match_index (nodes c1 w) q)"
    "\<forall>n. commitable (nodes c2 w) n \<longrightarrow> n \<le> commit_index (nodes c2 w)"
    using st(4) by blast
  then show ?case
    using st(1,3,5) tn by (intro exI [of _ c2] conjI credited_trans [OF c2(1) c1(1)]) auto
qed

text \<open>An entry of the leader's own term that all others are known to hold can be committed.\<close>

lemma all_hold:
  assumes "consistent V c" "w \<in> V" "\<forall>p \<in> V - {w}. match_index (nodes c w) p = Some (of_nat (length (node_log c w)))"
    and "node_log c w = log @ [x]" "le_term x = node_term c w"
  shows "commitable (nodes c w) (of_nat (length (node_log c w)))"
proof -
  let ?e = "nodes c w" and ?j = "of_nat (length (node_log c w)) :: u64"
  note inv = engine_inv_simps [OF consistentD(3) [OF assms(1,2)]]
  have j: "unat ?j = length (node_log c w)" using inv(2) by (intro unat_of_nat_u64) linarith
  then have "?j \<noteq> 0" using assms(4) by auto
  then have "entry (storage ?e) ?j = Some x" using j assms(4) by (simp add: ms.entry_log [OF inv(1)])
  moreover have "filter (\<lambda>peer. (case match_index ?e peer of Some m \<Rightarrow> m | None \<Rightarrow> 0) \<ge> ?j) (engine_other_voters ?e) =
      engine_other_voters ?e"
    using assms(3) consistentD(6) [OF assms(1,2)] by (intro filter_True) simp
  moreover have "length (engine_other_voters ?e) = card V - 1"
    using distinct_card [OF consistentD(7) [OF assms(1,2)]] consistentD(6) [OF assms(1,2)] assms(2) by simp
  moreover have "card V \<noteq> 0" using assms(2) consistentD(2) [OF assms(1)] by auto
  ultimately show ?thesis
    using assms(5) consistentD(8) [OF assms(1,2)] by (simp add: commitable_def replica_count_def)
qed

subsection \<open>The others learn what is committed\<close>

text \<open>A node that is known to hold the leader's log has it as a prefix of its own.\<close>

lemma known_prefix:
  assumes "consistent V c" "w \<in> V" "role (nodes c w) = Leader" "p \<in> V" "node_term c p \<le> node_term c w"
    and "match_index (nodes c w) p = Some (of_nat (length (node_log c w)))"
    and "node_log c w = log @ [x]" "le_term x = node_term c w"
  shows "prefix (node_log c w) (node_log c p)"
proof -
  obtain tlog where f: "full_inv V tlog c" using assms(1) unfolding consistent_def by blast
  note inv = full_invD [OF f]
  let ?j = "of_nat (length (node_log c w)) :: u64"
  have j: "unat ?j = length (node_log c w)"
    using engine_inv_simps(2) [OF consistentD(3) [OF assms(1,2)]] by (intro unat_of_nat_u64) linarith
  then have "?j \<noteq> 0" using assms(7) by auto
  from commit_invD(4) [OF inv(5) assms(2,3,6) this] have s: "stored c p (node_term c w) (length (node_log c w))"
    by (simp only: j)
  have t: "node_log c w = tlog (node_term c w)" by (rule log_invD(5) [OF inv(2) assms(2,3)])
  have "own tlog (node_term c w) (length (node_log c w))" using assms(7,8) by (simp add: own_def t [symmetric])
  from ack_invD(6) [OF inv(3) assms(4) s this] show ?thesis
    using assms(5) by (auto simp: superseded_def t [symmetric])
qed

text \<open>The heartbeat that announces it, and what a node makes of it.\<close>

definition announced :: "('p, 'a) Cluster \<Rightarrow> NodeId \<Rightarrow> NodeId \<Rightarrow> Index \<Rightarrow> bool" where
  "announced c w p lc \<longleftrightarrow> (w, Send p (AppendEntries (node_term c w) w (of_nat (length (node_log c w)))
     (log_term (node_log c w) (length (node_log c w))) [] lc)) \<in> history c"

lemma announce:
  assumes "consistent V c" "w \<in> V" "role (nodes c w) = Leader" "ae_inflight (nodes c w) = {}"
    and "\<forall>p \<in> V - {w}. match_index (nodes c w) p = Some (of_nat (length (node_log c w)))"
  shows "\<exists>c'. credited_reachable V c c' \<and> (\<forall>n. n \<noteq> w \<longrightarrow> nodes c' n = nodes c n) \<and>
    storage (nodes c' w) = storage (nodes c w) \<and> commit_index (nodes c' w) = commit_index (nodes c w) \<and>
    role (nodes c' w) = Leader \<and> (\<forall>p \<in> V - {w}. announced c' w p (commit_index (nodes c w)))"
proof -
  let ?e = "nodes c w" and ?now = "heartbeat_deadline (nodes c w)"
  let ?c = "cluster_apply c w (InTick ?now)"
  note I = engine_inv_simps [OF consistentD(3) [OF assms(1,2)]]
  note P = I(6) [OF assms(3)]
  have t: "tick ?e ?now = (fst (replicate_actions ?e)\<lparr>heartbeat_deadline := ?now + cfg_heartbeat_interval (config ?e)\<rparr>,
      snd (tick ?e ?now))" "out_actions (snd (tick ?e ?now)) = snd (replicate_actions ?e)"
    using assms(3) by (simp_all add: tick_def Let_def case_prod_unfold next_deadline_def)
  have a: "engine_apply ?e (InTick ?now) =
      (fst (replicate_actions ?e)\<lparr>heartbeat_deadline := ?now + cfg_heartbeat_interval (config ?e)\<rparr>, snd (replicate_actions ?e))"
    using t by (metis (mono_tags, lifting) engine_apply.simps(1) case_prod_conv Let_def)
  have n: "nodes ?c m = (if m = w then fst (replicate_actions ?e)\<lparr>heartbeat_deadline := ?now + cfg_heartbeat_interval (config ?e)\<rparr>
      else nodes c m)" for m
    by (simp only: cluster_apply_sel(1) a fst_conv)
  have h: "(w, b) \<in> history ?c \<longleftrightarrow> (w, b) \<in> history c \<or> b \<in> set (snd (replicate_actions ?e))" for b
    by (simp only: cluster_apply_sel(2) a fst_conv snd_conv simp_thms)
  have reach: "credited_reachable V c ?c" using assms(3) by (intro credited_one [OF assms(2)]) simp_all
  have ov: "set (engine_other_voters ?e) = V - {w}" by (rule consistentD(6) [OF assms(1,2)])
  have st: "storage (nodes ?c w) = storage ?e" by (simp add: n)
  have "announced ?c w p (commit_index ?e)" if p: "p \<in> V - {w}" for p
  proof -
    have po: "p \<in> set (engine_other_voters ?e)" using p ov by simp
    obtain nx where nx: "next_index ?e p = Some nx" "unat (of_nat (length (node_log c w)) :: u64) < unat nx"
      "unat nx \<le> Suc (length (node_log c w))"
      using progress_ok_next [OF P po] assms(5) p by auto
    have len: "unat (of_nat (length (node_log c w)) :: u64) = length (node_log c w)"
      using I(2) by (intro unat_of_nat_u64) linarith
    then have "unat (ae_prev ?e p) = length (node_log c w)"
      using build_append_entries_spec(2) [OF I(1,2) P po] nx by simp
    moreover from this len have "ae_prev ?e p = of_nat (length (node_log c w))" by (simp add: unat_inject_u64 [symmetric])
    ultimately have "ae_msg ?e p = AppendEntries (node_term c w) w (of_nat (length (node_log c w)))
        (log_term (node_log c w) (length (node_log c w))) [] (commit_index ?e)"
      using consistentD(4) [OF assms(1,2)] by (simp add: ae_msg_def)
    moreover have "Send p (ae_msg ?e p) \<in> set (snd (replicate_actions ?e))"
      using replicate_actions_spec(1) [OF I(1,2) P I(3)] assms(4) po by simp
    ultimately show ?thesis using st by (simp add: announced_def h engine_current_term_def)
  qed
  then show ?thesis using reach st assms(3) by (intro exI [of _ ?c]) (simp add: n)
qed

lemma learn_one:
  assumes "consistent V c" "w \<in> V" "p \<in> V" "p \<noteq> w" "announced c w p lc" "of_nat (length (node_log c w)) \<le> lc"
    and "prefix (node_log c w) (node_log c p)" "node_term c p \<le> node_term c w"
  shows "\<exists>c'. credited_reachable V c c' \<and> (\<forall>n. n \<noteq> p \<longrightarrow> nodes c' n = nodes c n) \<and> history c \<subseteq> history c' \<and>
    of_nat (length (node_log c w)) \<le> commit_index (nodes c' p)"
proof -
  let ?e = "nodes c p" and ?j = "of_nat (length (node_log c w)) :: u64" and ?t = "node_term c w"
  let ?pt = "log_term (node_log c w) (length (node_log c w))"
  let ?i = "InRpc w (AppendEntries ?t w ?j ?pt [] lc) 0"
  let ?c = "cluster_apply c p ?i"
  note I = engine_inv_simps [OF consistentD(3) [OF assms(1,3)]]
  have j: "unat ?j = length (node_log c w)"
    using engine_inv_simps(2) [OF consistentD(3) [OF assms(1,2)]] by (intro unat_of_nat_u64) linarith
  have "logs_agree (node_log c w) (node_log c p) (unat ?j)"
    using assms(7) j by (auto simp: logs_agree_def prefix_def nth_append)
  from prev_ok_agree [OF I(1) this] have ok: "prev_log_ok (storage ?e) ?j ?pt" by (simp only: j)
  have "numbered (unat ?j) []" by simp
  note A = append_entries_accept(7) [OF I(1,4) assms(8) ok this, of w w lc 0]
  have "credited_reachable V c ?c"
    using assms(5) by (intro credited_one [OF assms(3)]) (simp_all add: in_flight_def announced_def)
  moreover have "?j \<le> commit_index (nodes ?c p)" using A assms(6) by (simp add: cluster_apply_sel(1))
  ultimately show ?thesis
    using history_step [of c p ?i] by (intro exI [of _ ?c]) (auto simp: cluster_apply_sel(1))
qed

lemma learn_all:
  assumes "consistent V c" "w \<in> V" "set ps \<subseteq> V - {w}" "distinct ps" "of_nat (length (node_log c w)) \<le> lc"
    and "\<forall>p \<in> set ps. announced c w p lc \<and> prefix (node_log c w) (node_log c p) \<and> node_term c p \<le> node_term c w"
  shows "\<exists>c'. credited_reachable V c c' \<and> (\<forall>n. n \<notin> set ps \<longrightarrow> nodes c' n = nodes c n) \<and>
    (\<forall>p \<in> set ps. of_nat (length (node_log c w)) \<le> commit_index (nodes c' p))"
  using assms
proof (induction ps arbitrary: c)
  case Nil
  then show ?case by (intro exI [of _ c]) (auto intro: credited_reachable.start)
next
  case (Cons p ps)
  have p: "p \<in> V" "p \<noteq> w" "p \<notin> set ps" "announced c w p lc" "prefix (node_log c w) (node_log c p)"
    "node_term c p \<le> node_term c w"
    using Cons.prems(3,4,6) by auto
  from learn_one [OF Cons.prems(1,2) p(1,2,4) Cons.prems(5) p(5,6)] obtain c1 where
    c1: "credited_reachable V c c1" "\<forall>n. n \<noteq> p \<longrightarrow> nodes c1 n = nodes c n" "history c \<subseteq> history c1"
      "of_nat (length (node_log c w)) \<le> commit_index (nodes c1 p)"
    by blast
  have w: "nodes c1 w = nodes c w" using c1(2) p(2) by simp
  have "announced c1 w q lc \<and> prefix (node_log c1 w) (node_log c1 q) \<and> node_term c1 q \<le> node_term c1 w"
    if "q \<in> set ps" for q
  proof -
    have "nodes c1 q = nodes c q" using c1(2) that p(3) by metis
    then show ?thesis using Cons.prems(6) that w c1(3) by (auto simp: announced_def)
  qed
  then have "\<exists>c'. credited_reachable V c1 c' \<and> (\<forall>n. n \<notin> set ps \<longrightarrow> nodes c' n = nodes c1 n) \<and>
      (\<forall>p \<in> set ps. of_nat (length (node_log c1 w)) \<le> commit_index (nodes c' p))"
    using Cons.prems(3-5) by (intro Cons.IH [OF consistent_reached [OF Cons.prems(1) c1(1)] Cons.prems(2)]) (auto simp: w)
  then obtain c2 where c2: "credited_reachable V c1 c2" "\<forall>n. n \<notin> set ps \<longrightarrow> nodes c2 n = nodes c1 n"
    "\<forall>p \<in> set ps. of_nat (length (node_log c w)) \<le> commit_index (nodes c2 p)"
    unfolding w by blast
  then show ?case
    using c1(2,4) p(3) by (intro exI [of _ c2] conjI credited_trans [OF c2(1) c1(1)]) auto
qed

subsection \<open>Progress\<close>

text \<open>From a proposal on: a leader that knows nothing of the others gets it to all of them.\<close>

lemma commit_from:
  assumes "consistent V c" "2 \<le> card V" "w \<in> V" "fresh_leader V c w" "\<forall>n \<in> V. node_term c n = node_term c w"
    and "Suc (Suc (length (node_log c w))) < 2 ^ 64"
  shows "\<exists>c'. credited_reachable V c c' \<and> role (nodes c' w) = Leader \<and>
    node_log c' w = node_log c w @ [proposed (nodes c w) data] \<and> node_term c' w = node_term c w \<and>
    ae_inflight (nodes c' w) = {} \<and> (\<forall>n \<in> V. node_term c' n \<le> node_term c' w) \<and>
    (\<forall>p \<in> V - {w}. match_index (nodes c' w) p = Some (of_nat (length (node_log c' w)))) \<and>
    of_nat (length (node_log c' w)) \<le> commit_index (nodes c' w)"
proof -
  let ?x = "proposed (nodes c w) data"
  from proposal_sent [OF assms(1,3,4,6), of data] obtain c1 where c1: "credited_reachable V c c1"
    "\<forall>n. n \<noteq> w \<longrightarrow> nodes c1 n = nodes c n" "role (nodes c1 w) = Leader" "node_log c1 w = node_log c w @ [?x]"
    "node_term c1 w = node_term c w" "ae_inflight (nodes c1 w) = V - {w}" "\<forall>p \<in> V - {w}. awaited c1 w p"
    by blast
  have con1: "consistent V c1" by (rule consistent_reached [OF assms(1) c1(1)])
  let ?ps = "engine_other_voters (nodes c1 w)"
  note ps = consistentD(6,7) [OF con1 assms(3)]
  have t1: "node_term c1 n = node_term c1 w" if "n \<in> V" for n
  proof (cases "n = w")
    case False
    then have "nodes c1 n = nodes c n" using c1(2) by blast
    with bspec [OF assms(5) that] show ?thesis unfolding c1(5) by simp
  qed simp
  have t1: "node_term c1 n \<le> node_term c1 w" if "n \<in> V" for n using t1 [OF that] by (rule eq_refl)
  have "\<forall>p \<in> set ?ps. awaited c1 w p \<and> node_term c1 p \<le> node_term c1 w" using ps(1) c1(7) t1 by auto
  moreover have "?ps \<noteq> []"
  proof
    assume "?ps = []"
    then have "V - {w} = {}" using ps(1) by simp
    then have "card V \<le> card {w}" by (intro card_mono) auto
    then show False using assms(2) by simp
  qed
  ultimately obtain c2 where c2: "credited_reachable V c1 c2" "role (nodes c2 w) = Leader"
    "storage (nodes c2 w) = storage (nodes c1 w)" "ae_inflight (nodes c2 w) = {}"
    "\<forall>n. node_term c1 n \<le> node_term c1 w \<longrightarrow> node_term c2 n \<le> node_term c2 w"
    "\<forall>p \<in> V - {w}. match_index (nodes c2 w) p = Some (of_nat (length (node_log c1 w)))"
    "\<forall>n. commitable (nodes c2 w) n \<longrightarrow> n \<le> commit_index (nodes c2 w)"
    using replicated_to [OF con1 assms(3) _ ps(2) c1(3)] unfolding ps(1) c1(6) by auto
  have con2: "consistent V c2" by (rule consistent_reached [OF con1 c2(1)])
  have log: "node_log c2 w = node_log c w @ [?x]" using c1(4) c2(3) by simp
  have t2: "node_term c2 w = node_term c w" using c1(5) c2(3) by (simp add: engine_current_term_def)
  have "commitable (nodes c2 w) (of_nat (length (node_log c2 w)))"
    using c2(3,6) t2 by (intro all_hold [OF con2 assms(3) _ log]) (simp_all add: proposed_def)
  then show ?thesis
    using c2(2-7) log t2 t1 by (intro exI [of _ c2] conjI credited_trans [OF c2(1) c1(1)]) auto
qed

text \<open>From there on: a heartbeat tells the others, and everybody commits.\<close>

lemma all_commit:
  assumes "consistent V c" "w \<in> V" "role (nodes c w) = Leader" "node_log c w = log @ [x]" "le_term x = node_term c w"
    and "ae_inflight (nodes c w) = {}" "\<forall>n \<in> V. node_term c n \<le> node_term c w"
    and "\<forall>p \<in> V - {w}. match_index (nodes c w) p = Some (of_nat (length (node_log c w)))"
    and "of_nat (length (node_log c w)) \<le> commit_index (nodes c w)"
  shows "\<exists>c'. credited_reachable V c c' \<and> role (nodes c' w) = Leader \<and> node_log c' w = node_log c w \<and>
    (\<forall>n \<in> V. of_nat (length (node_log c w)) \<le> commit_index (nodes c' n))"
proof -
  let ?j = "of_nat (length (node_log c w)) :: u64"
  have pre: "prefix (node_log c w) (node_log c p)" if "p \<in> V - {w}" for p
    using that assms(7,8) by (intro known_prefix [OF assms(1-3) _ _ _ assms(4,5)]) auto
  from announce [OF assms(1-3,6,8)] obtain c1 where c1: "credited_reachable V c c1"
    "\<forall>n. n \<noteq> w \<longrightarrow> nodes c1 n = nodes c n" "storage (nodes c1 w) = storage (nodes c w)"
    "commit_index (nodes c1 w) = commit_index (nodes c w)" "role (nodes c1 w) = Leader"
    "\<forall>p \<in> V - {w}. announced c1 w p (commit_index (nodes c w))"
    by blast
  have con1: "consistent V c1" by (rule consistent_reached [OF assms(1) c1(1)])
  let ?ps = "engine_other_voters (nodes c1 w)"
  note ps = consistentD(6,7) [OF con1 assms(2)]
  have t1: "node_term c1 w = node_term c w" using c1(3) by (simp add: engine_current_term_def)
  have "announced c1 w p (commit_index (nodes c w)) \<and> prefix (node_log c1 w) (node_log c1 p) \<and> node_term c1 p \<le> node_term c1 w"
    if mem: "p \<in> set ?ps" for p
  proof -
    have p: "p \<in> V - {w}" using mem ps(1) by simp
    then have n: "nodes c1 p = nodes c p" using c1(2) by blast
    have "announced c1 w p (commit_index (nodes c w))" using c1(6) p by blast
    moreover have "node_term c p \<le> node_term c w" using assms(7) p by blast
    ultimately show ?thesis using pre [OF p] unfolding n c1(3) t1 by blast
  qed
  then have all: "\<forall>p \<in> set ?ps. announced c1 w p (commit_index (nodes c w)) \<and>
      prefix (node_log c1 w) (node_log c1 p) \<and> node_term c1 p \<le> node_term c1 w" by blast
  have sub: "set ?ps \<subseteq> V - {w}" unfolding ps(1) by (rule subset_refl)
  have lc: "of_nat (length (node_log c1 w)) \<le> commit_index (nodes c w)" using assms(9) unfolding c1(3) .
  from learn_all [OF con1 assms(2) sub ps(2) lc all] obtain c2 where c2: "credited_reachable V c1 c2"
    "\<forall>n. n \<notin> V - {w} \<longrightarrow> nodes c2 n = nodes c1 n" "\<forall>p \<in> V - {w}. ?j \<le> commit_index (nodes c2 p)"
    unfolding ps(1) c1(3) by blast
  have "nodes c2 w = nodes c1 w" using c2(2) by blast
  then have "?j \<le> commit_index (nodes c2 n)" if "n \<in> V" for n
    using that c2(3) c1(4) assms(9) by (cases "n = w") auto
  then show ?thesis
    using \<open>nodes c2 w = nodes c1 w\<close> c1(3,5) by (intro exI [of _ c2] conjI credited_trans [OF c2(1) c1(1)]) auto
qed

text \<open>An entry of a term that nobody had reached is not committed before.\<close>

lemma newly_applied:
  assumes "consistent V c" "credited_reachable V c c'" "n \<in> V" "node_term c n < le_term x"
    and "w \<in> V" "node_log c' w = log @ [x]" "of_nat (Suc (length log)) \<le> commit_index (nodes c' w)"
    and "of_nat (Suc (length log)) \<le> commit_index (nodes c' n)"
  shows "\<exists>es. (n, Apply es) \<in> history c' \<and> x \<in> set es"
proof -
  have con: "consistent V c'" by (rule consistent_reached [OF assms(1,2)])
  then obtain tlog' where f': "full_inv V tlog' c'" unfolding consistent_def by blast
  obtain tlog where f: "full_inv V tlog c" using assms(1) unfolding consistent_def by blast
  let ?i = "of_nat (Suc (length log)) :: u64"
  have "Suc (length (node_log c' w)) < 2 ^ 64" by (rule engine_inv_simps(2) [OF consistentD(3) [OF con assms(5)]])
  then have "Suc (length log) < 2 ^ 64" by (simp add: assms(6))
  then have i: "unat ?i = Suc (length log)" by (rule unat_of_nat_u64)
  then have "?i \<noteq> 0" by (metis nat.simps(3) unat_0)
  from committed_entries_agree [OF f' assms(3,5) this assms(8,7)] have x: "node_log c' n ! length log = x"
    unfolding i by (simp add: assms(6))
  have lt: "length log < unat (commit_index (nodes c' n))" using assms(8) i by (simp add: word_le_nat_alt)
  note st = committed_stays [OF assms(2,1,3)]
  have "unat (commit_index (nodes c n)) \<le> length log"
  proof (rule ccontr)
    assume "\<not> ?thesis"
    then have l: "length log < unat (commit_index (nodes c n))" by simp
    then have "node_log c n ! length log = x" using st x by (metis nth_take)
    moreover have "length log < length (node_log c n)"
      using l engine_inv_simps(5) [OF consistentD(3) [OF assms(1,3)]] by simp
    ultimately have "le_term x \<le> node_term c n"
      using terms_uptoD [OF ack_invD(2) [OF full_invD(3) [OF f] assms(3)]] by blast
    then show False using assms(4) by simp
  qed
  from applied_between [OF assms(2,1,3) this lt] show ?thesis unfolding x .
qed

lemma progress_from:
  assumes "consistent V c" "2 \<le> card V" "\<forall>n \<in> V. unat (node_term c n) \<le> k" "Suc (Suc k) < 2 ^ 64"
    and "\<forall>n \<in> V. Suc (Suc (length (node_log c n))) < 2 ^ 64"
  shows "\<exists>c' w x. credited_reachable V c c' \<and> w \<in> V \<and> role (nodes c' w) = Leader \<and> entry_type x = Command data \<and>
    (\<forall>n \<in> V. node_term c n < le_term x \<and> (\<exists>es. (n, Apply es) \<in> history c' \<and> x \<in> set es))"
proof -
  from electable [OF assms(1-4)] obtain c1 w where c1: "credited_reachable V c c1" "w \<in> V" "fresh_leader V c1 w"
    "unat (node_term c1 w) = Suc (Suc k)" "\<forall>n \<in> V. node_log c1 n = node_log c n \<and> node_term c1 n = node_term c1 w"
    by blast
  have con1: "consistent V c1" by (rule consistent_reached [OF assms(1) c1(1)])
  let ?x = "proposed (nodes c1 w) data"
  have "Suc (Suc (length (node_log c1 w))) < 2 ^ 64" using assms(5) c1(2,5) by simp
  from commit_from [OF con1 assms(2) c1(2,3) _ this, of data] c1(5) obtain c2 where c2: "credited_reachable V c1 c2"
    "role (nodes c2 w) = Leader" "node_log c2 w = node_log c1 w @ [?x]" "node_term c2 w = node_term c1 w"
    "ae_inflight (nodes c2 w) = {}" "\<forall>n \<in> V. node_term c2 n \<le> node_term c2 w"
    "\<forall>p \<in> V - {w}. match_index (nodes c2 w) p = Some (of_nat (length (node_log c2 w)))"
    "of_nat (length (node_log c2 w)) \<le> commit_index (nodes c2 w)"
    by blast
  have con2: "consistent V c2" by (rule consistent_reached [OF con1 c2(1)])
  have xt: "le_term ?x = node_term c2 w" "unat (le_term ?x) = Suc (Suc k)" "entry_type ?x = Command data"
    using c2(4) c1(4) by (simp_all add: proposed_def)
  from all_commit [OF con2 c1(2) c2(2,3) xt(1) c2(5-8)] obtain c3 where c3: "credited_reachable V c2 c3"
    "role (nodes c3 w) = Leader" "node_log c3 w = node_log c2 w"
    "\<forall>n \<in> V. of_nat (length (node_log c2 w)) \<le> commit_index (nodes c3 n)"
    by blast
  have r: "credited_reachable V c c3" by (rule credited_trans [OF c3(1) credited_trans [OF c2(1) c1(1)]])
  have com: "\<forall>n \<in> V. of_nat (Suc (length (node_log c1 w))) \<le> commit_index (nodes c3 n)"
    using c3(4) by (simp only: c2(3) length_append_singleton)
  have log3: "node_log c3 w = node_log c1 w @ [?x]" by (simp only: c3(3) c2(3))
  have new: "node_term c n < le_term ?x" if "n \<in> V" for n
    using bspec [OF assms(3) that] xt(2) by (simp add: word_less_nat_alt)
  have "\<exists>es. (n, Apply es) \<in> history c3 \<and> ?x \<in> set es" if "n \<in> V" for n
    using com c1(2) that by (intro newly_applied [OF assms(1) r that new [OF that] c1(2) log3]) blast+
  with new r c1(2) c3(2) xt(3) show ?thesis by blast
qed

text \<open>
  C8: Progress is always possible where successes are credited to what was acknowledged: in a deployment of at least two
  voters, from every state reached by steps in which each success is credited with no more than its sender stores
  (\<open>credited_reachable\<close>), and in which terms and indices leave room for it, there is a further course of such steps, timers
  of some nodes firing and messages in flight being delivered, such that a leader of a new term takes a proposal of the
  data, replicates and commits it, and every node hands it to its application. So no such state is a dead end, whatever
  losses, reorderings and elections led to it.
\<close>

theorem progress_possible:
  assumes "deployment V hos cfgs" "2 \<le> card V" "credited_reachable V (cluster_init hos nows cfgs) c"
    and "\<forall>n \<in> V. fits_u64 (unat (node_term c n) + 2) \<and> fits_u64 (length (node_log c n) + 2)"
  shows "\<exists>c' w x. credited_reachable V c c' \<and> w \<in> V \<and> role (nodes c' w) = Leader \<and> entry_type x = Command data \<and>
    (\<forall>n \<in> V. node_term c n < le_term x \<and> (\<exists>es. (n, Apply es) \<in> history c' \<and> x \<in> set es))"
proof -
  have con: "consistent V c" using full_inv_reachable [OF assms(1,3)] by (simp add: consistent_def)
  have "V \<noteq> {}" using assms(2) by auto
  with finite_max [OF consistentD(2) [OF con], of "\<lambda>n. unat (node_term c n)"] obtain m where
    m: "m \<in> V" "\<forall>n \<in> V. unat (node_term c n) \<le> unat (node_term c m)" by blast
  have "Suc (Suc (unat (node_term c m))) < 2 ^ 64" "\<forall>n \<in> V. Suc (Suc (length (node_log c n))) < 2 ^ 64"
    using assms(4) m(1) by simp_all
  from progress_from [OF con assms(2) m(2) this, of data] show ?thesis .
qed

text \<open>From the start of a deployment of three.\<close>

theorem progress_possible_witness:
  "\<exists>c x. credited_reachable {1, 2, 3} demo_init c \<and> entry_type x = Command [7] \<and>
     (\<forall>n \<in> {1, 2, 3}. \<exists>es. (n, Apply es) \<in> history c \<and> x \<in> set es)"
proof -
  have "\<forall>n \<in> {1, 2, 3 :: NodeId}. fits_u64 (unat (node_term demo_init n) + 2) \<and> fits_u64 (length (node_log demo_init n) + 2)"
    by (simp add: demo_init_def cluster_init_def engine_new_def MemoryStorage_new_def engine_current_term_def
        hard_state_def HardState_default_def)
  moreover have "2 \<le> card {1, 2, 3 :: NodeId}" by simp
  ultimately show ?thesis
    using progress_possible [where nows = "\<lambda>_. 0" and data = "[7]",
        OF demo_deployment _ credited_reachable.start, folded demo_init_def]
    by blast
qed

end
