(* ===== verification/PeerMap.thy ===== *)
theory PeerMap
  imports RaftTypes
begin

text \<open>
  \<open>src/peer_map.rs\<close>: the translation between Raft's node ids and libp2p's peer ids, and the seed
  addresses. The three \<open>HashMap\<close>s are HOL maps. The locale \<open>address_book\<close> states what the behaviour
  relies on when it routes: the two directions agree, so that an answer goes back to the node it came
  from; the maps built from well-formed seeds provide it.
\<close>

record ('p, 'a) PeerMap =
  node_to_peer :: "NodeId \<rightharpoonup> 'p"
  peer_to_node :: "'p \<rightharpoonup> NodeId"
  pm_addrs :: "NodeId \<rightharpoonup> 'a list"

text \<open>\<open>PeerMap::default\<close>.\<close>

definition PeerMap_default :: "('p, 'a) PeerMap" where
  "PeerMap_default = \<lparr>node_to_peer = Map.empty, peer_to_node = Map.empty, pm_addrs = Map.empty\<rparr>"

definition pm_insert :: "('p, 'a) PeerMap \<Rightarrow> NodeId \<Rightarrow> 'p \<Rightarrow> 'a list \<Rightarrow> ('p, 'a) PeerMap" where
  "pm_insert m node peer as =
     m\<lparr>node_to_peer := (node_to_peer m)(node \<mapsto> peer), peer_to_node := (peer_to_node m)(peer \<mapsto> node),
       pm_addrs := (pm_addrs m)(node \<mapsto> as)\<rparr>"

definition from_seeds :: "('p, 'a) SeedPeer list \<Rightarrow> ('p, 'a) PeerMap" where
  "from_seeds seeds =
     fold (\<lambda>s m. pm_insert m (sp_node_id s) (sp_peer_id s) (sp_addrs s)) seeds PeerMap_default"

definition pm_peer_id :: "('p, 'a) PeerMap \<Rightarrow> NodeId \<Rightarrow> 'p option" where
  "pm_peer_id m node = node_to_peer m node"

definition pm_node_id :: "('p, 'a) PeerMap \<Rightarrow> 'p \<Rightarrow> NodeId option" where
  "pm_node_id m peer = peer_to_node m peer"

definition pm_addrs_of :: "('p, 'a) PeerMap \<Rightarrow> NodeId \<Rightarrow> 'a list option" where
  "pm_addrs_of m node = pm_addrs m node"

subsection \<open>Routing\<close>

locale address_book =
  fixes to_peer :: "'m \<Rightarrow> NodeId \<Rightarrow> 'p option"
    and to_node :: "'m \<Rightarrow> 'p \<Rightarrow> NodeId option"
    and book_ok :: "'m \<Rightarrow> bool"
  assumes agree: "book_ok m \<Longrightarrow> to_peer m n = Some p \<longleftrightarrow> to_node m p = Some n"
begin

text \<open>Nodes and peers correspond one to one, so a message names its sender and finds it again.\<close>

lemma one_node: "book_ok m \<Longrightarrow> to_peer m n = Some p \<Longrightarrow> to_peer m n' = Some p \<Longrightarrow> n = n'"
  by (simp add: agree)

lemma one_peer: "book_ok m \<Longrightarrow> to_node m p = Some n \<Longrightarrow> to_node m p' = Some n \<Longrightarrow> p = p'"
  using agree [of m n p] agree [of m n p'] by simp

lemma reply_route: "book_ok m \<Longrightarrow> to_node m p = Some n \<Longrightarrow> to_peer m n = Some p"
  by (simp add: agree)

end

definition peer_map_ok :: "('p, 'a) PeerMap \<Rightarrow> bool" where
  "peer_map_ok m \<longleftrightarrow> (\<forall>n p. node_to_peer m n = Some p \<longleftrightarrow> peer_to_node m p = Some n) \<and>
     dom (pm_addrs m) = dom (node_to_peer m)"

interpretation pm: address_book pm_peer_id pm_node_id peer_map_ok
  by unfold_locales (simp add: peer_map_ok_def pm_peer_id_def pm_node_id_def)

text \<open>\<open>insert\<close> keeps the directions in agreement when neither the node nor the peer is known yet.\<close>

lemma pm_insert_ok:
  "peer_map_ok m \<Longrightarrow> node_to_peer m n = None \<Longrightarrow> peer_to_node m p = None \<Longrightarrow> peer_map_ok (pm_insert m n p as)"
  by (auto simp: peer_map_ok_def pm_insert_def)

definition seeds_distinct :: "('p, 'a) SeedPeer list \<Rightarrow> bool" where
  "seeds_distinct seeds \<longleftrightarrow> distinct (map sp_node_id seeds) \<and> distinct (map sp_peer_id seeds)"

lemma from_seeds_fold:
  assumes "peer_map_ok m" "seeds_distinct seeds"
    and "\<And>s. s \<in> set seeds \<Longrightarrow> node_to_peer m (sp_node_id s) = None \<and> peer_to_node m (sp_peer_id s) = None"
  defines "m' \<equiv> fold (\<lambda>s m. pm_insert m (sp_node_id s) (sp_peer_id s) (sp_addrs s)) seeds m"
  shows "peer_map_ok m' \<and>
    (\<forall>n. node_to_peer m' n = (case find (\<lambda>s. sp_node_id s = n) seeds of
       Some s \<Rightarrow> Some (sp_peer_id s) | None \<Rightarrow> node_to_peer m n)) \<and>
    (\<forall>n. pm_addrs m' n = (case find (\<lambda>s. sp_node_id s = n) seeds of
       Some s \<Rightarrow> Some (sp_addrs s) | None \<Rightarrow> pm_addrs m n))"
  using assms(1-3) unfolding m'_def
proof (induction seeds arbitrary: m)
  case (Cons s seeds)
  let ?m = "pm_insert m (sp_node_id s) (sp_peer_id s) (sp_addrs s)"
  have ok: "peer_map_ok ?m" using Cons.prems(1,3) by (intro pm_insert_ok) auto
  have d: "seeds_distinct seeds" "sp_node_id s \<notin> sp_node_id ` set seeds" "sp_peer_id s \<notin> sp_peer_id ` set seeds"
    using Cons.prems(2) by (auto simp: seeds_distinct_def)
  have new: "node_to_peer ?m (sp_node_id r) = None \<and> peer_to_node ?m (sp_peer_id r) = None" if "r \<in> set seeds" for r
    using that Cons.prems(3) [of r] d(2,3) by (auto simp: pm_insert_def image_iff)
  have nf: "find (\<lambda>r. sp_node_id r = sp_node_id s) seeds = None"
    using d(2) unfolding find_None_iff by (metis imageI)
  show ?case
    using Cons.IH [OF ok d(1) new] nf
    by (auto simp: pm_insert_def split: option.split)
qed simp

text \<open>
  The peer map built from seeds with pairwise distinct node ids and peer ids knows exactly the seeds:
  each seed's node resolves to its peer id and addresses, its peer id resolves back to its node, and
  no other node or peer resolves.
\<close>

lemma from_seeds_lookup:
  fixes seeds :: "('p, 'a) SeedPeer list"
  assumes "seeds_distinct seeds"
  shows "(pm_peer_id (from_seeds seeds) n = Some p \<longleftrightarrow>
      (\<exists>s \<in> set seeds. sp_node_id s = n \<and> sp_peer_id s = p)) \<and>
    (pm_node_id (from_seeds seeds) p = Some n \<longleftrightarrow>
      (\<exists>s \<in> set seeds. sp_node_id s = n \<and> sp_peer_id s = p)) \<and>
    (pm_addrs_of (from_seeds seeds) n = Some as \<longleftrightarrow>
      (\<exists>s \<in> set seeds. sp_node_id s = n \<and> sp_addrs s = as)) \<and> peer_map_ok (from_seeds seeds)"
proof -
  have e: "peer_map_ok (PeerMap_default :: ('p, 'a) PeerMap)"
    by (simp add: peer_map_ok_def PeerMap_default_def)
  have d: "node_to_peer (PeerMap_default :: ('p, 'a) PeerMap) n = None \<and>
      peer_to_node (PeerMap_default :: ('p, 'a) PeerMap) q = None"
    "pm_addrs (PeerMap_default :: ('p, 'a) PeerMap) n = None" for n q
    by (simp_all add: PeerMap_default_def)
  note f = from_seeds_fold [OF e assms d(1), folded from_seeds_def]
  have uniq: "find (\<lambda>s. sp_node_id s = n) seeds = Some s \<longleftrightarrow> s \<in> set seeds \<and> sp_node_id s = n" for s
    using assms by (induction seeds) (auto simp: seeds_distinct_def image_iff)
  have none: "find (\<lambda>s. sp_node_id s = n) seeds = None \<longleftrightarrow> (\<forall>s \<in> set seeds. sp_node_id s \<noteq> n)"
    by (auto simp: find_None_iff)
  have ok: "peer_map_ok (from_seeds seeds)"
    and np: "node_to_peer (from_seeds seeds) n = map_option sp_peer_id (find (\<lambda>s. sp_node_id s = n) seeds)"
    and ad: "pm_addrs (from_seeds seeds) n = map_option sp_addrs (find (\<lambda>s. sp_node_id s = n) seeds)"
    using f d by (auto split: option.split)
  have peer: "pm_peer_id (from_seeds seeds) n = Some p \<longleftrightarrow> (\<exists>s \<in> set seeds. sp_node_id s = n \<and> sp_peer_id s = p)"
    using uniq by (auto simp: pm_peer_id_def np)
  moreover have "pm_addrs_of (from_seeds seeds) n = Some as \<longleftrightarrow> (\<exists>s \<in> set seeds. sp_node_id s = n \<and> sp_addrs s = as)"
    using uniq by (auto simp: pm_addrs_of_def ad)
  ultimately show ?thesis using ok pm.agree [OF ok, of n p] by simp
qed

definition demo_seed :: "NodeId \<Rightarrow> (nat, nat) SeedPeer" where
  "demo_seed n = \<lparr>sp_node_id = n, sp_peer_id = 100 + unat n, sp_addrs = [4000 + unat n]\<rparr>"

text \<open>
  Inserting a known node under a new peer id leaves the reverse entry of the old peer id in place: the
  old peer still resolves to the node although the node resolves to the new peer, and the two
  directions of the map disagree.
\<close>

lemma reinsert_leaves_stale_peer:
  assumes "p \<noteq> q"
  shows "pm_peer_id (pm_insert (pm_insert m n p as) n q bs) n = Some q \<and>
    pm_node_id (pm_insert (pm_insert m n p as) n q bs) p = Some n \<and>
    pm_node_id (pm_insert (pm_insert m n p as) n q bs) q = Some n \<and>
    \<not> peer_map_ok (pm_insert (pm_insert m n p as) n q bs)"
proof -
  let ?m = "pm_insert (pm_insert m n p as) n q bs"
  have l: "pm_peer_id ?m n = Some q" "pm_node_id ?m p = Some n" "pm_node_id ?m q = Some n"
    using assms by (simp_all add: pm_peer_id_def pm_node_id_def pm_insert_def)
  have "\<not> peer_map_ok ?m"
  proof
    assume "peer_map_ok ?m"
    from pm.one_peer [OF this l(2,3)] assms show False by simp
  qed
  with l show ?thesis by simp
qed

end
