(* ===== verification/Codec.thy ===== *)
theory Codec
  imports RaftTypes
begin

text \<open>
  \<open>src/protocol/codec.rs\<close>, the frame functions of \<open>src/handler.rs\<close> and the messages of \<open>src/error.rs\<close>: a
  frame is a four-byte big-endian length followed by the bincode image of a wire envelope. The bincode
  crate is not part of the repository: its two functions are the parameters \<open>ser\<close> and \<open>deser\<close>, and what
  the code relies on (deserialising what was serialised gives it back) is \<open>bincode_law\<close>. A substream is
  the list of bytes it will deliver before it ends; \<open>io\<close> is the text of the I/O error at its end.
\<close>

subsection \<open>src/error.rs: what the errors print\<close>

fun show_raft_error :: "RaftError \<Rightarrow> string" where
  "show_raft_error NotLeader = ''not leader''"
| "show_raft_error MembershipPending = ''membership change pending''"
| "show_raft_error InvalidMembership = ''invalid membership change''"

fun show_storage_error :: "StorageError \<Rightarrow> string" where
  "show_storage_error (Msg m) = ''storage: '' @ m"

fun show_error :: "Error \<Rightarrow> string" where
  "show_error (Raft e) = show_raft_error e"
| "show_error (StorageFailure e) = show_storage_error e"
| "show_error (Codec m) = ''codec: '' @ m"
| "show_error (UnknownNode n) = ''unknown node '' @ show_nat (unat n)"
| "show_error (Rpc m) = ''rpc failed: '' @ m"

subsection \<open>Big-endian lengths\<close>

definition u32_be :: "u32 \<Rightarrow> u8 list" where
  "u32_be x = [ucast (drop_bit 24 x), ucast (drop_bit 16 x), ucast (drop_bit 8 x), ucast x]"

definition u32_from_be :: "u8 \<Rightarrow> u8 \<Rightarrow> u8 \<Rightarrow> u8 \<Rightarrow> u32" where
  "u32_from_be a b c d = or (or (or (push_bit 24 (ucast a)) (push_bit 16 (ucast b))) (push_bit 8 (ucast c))) (ucast d)"

text \<open>\<open>Cursor::read_u32\<close>: the number and the position after it, or the end of the input.\<close>

fun read_u32 :: "u8 list \<Rightarrow> (u32 \<times> nat) option" where
  "read_u32 (a # b # c # d # rest) = Some (u32_from_be a b c d, 4)"
| "read_u32 _ = None"

lemma u32_from_be_be [simp]:
  "u32_from_be (ucast (drop_bit 24 x)) (ucast (drop_bit 16 x)) (ucast (drop_bit 8 x)) (ucast x) = x"
proof (rule bit_word_eqI)
  fix n assume "n < LENGTH(32)"
  then have n: "n < 32" by simp
  have "n < 8 \<or> 8 \<le> n \<and> n < 16 \<or> 16 \<le> n \<and> n < 24 \<or> 24 \<le> n" by linarith
  with n show "bit (u32_from_be (ucast (drop_bit 24 x)) (ucast (drop_bit 16 x)) (ucast (drop_bit 8 x)) (ucast x)) n = bit x n"
    by (auto simp: u32_from_be_def bit_simps)
qed

lemma length_u32_be [simp]: "length (u32_be x) = 4"
  by (simp add: u32_be_def)

lemma read_u32_be [simp]: "read_u32 (u32_be x @ rest) = Some (x, 4)" "read_u32 (u32_be x) = Some (x, 4)"
  by (simp_all add: u32_be_def)

lemma u32_be_nth [simp]: "u32_from_be (u32_be x ! 0) (u32_be x ! Suc 0) (u32_be x ! 2) (u32_be x ! 3) = x"
  by (simp add: u32_be_def)

lemma read_u32_short: "read_u32 bs = None \<longleftrightarrow> length bs < 4"
  by (cases bs rule: read_u32.cases) auto

subsection \<open>encode_envelope, decode_envelope\<close>

definition encode_envelope :: "(WireEnvelope \<Rightarrow> string + u8 list) \<Rightarrow> WireEnvelope \<Rightarrow> Error + u8 list" where
  "encode_envelope ser env =
     (case ser env of
        Inl e \<Rightarrow> Inl (Codec e)
      | Inr payload \<Rightarrow> Inr (u32_be (of_nat (length payload)) @ payload))"

definition decode_envelope :: "(u8 list \<Rightarrow> string + WireEnvelope) \<Rightarrow> u8 list \<Rightarrow> Error + WireEnvelope" where
  "decode_envelope deser bytes =
     (case read_u32 bytes of
        None \<Rightarrow> Inl (Codec ''failed to fill whole buffer'')
      | Some (n, start) \<Rightarrow>
          let stop = start + unat n in
          if length bytes < stop then Inl (Codec ''truncated'')
          else (case deser (take (stop - start) (drop start bytes)) of
                  Inl e \<Rightarrow> Inl (Codec e) | Inr env \<Rightarrow> Inr env))"

definition bincode_law :: "(WireEnvelope \<Rightarrow> string + u8 list) \<Rightarrow> (u8 list \<Rightarrow> string + WireEnvelope) \<Rightarrow> bool" where
  "bincode_law ser deser \<longleftrightarrow> (\<forall>env bs. ser env = Inr bs \<longrightarrow> deser bs = Inr env)"

subsection \<open>src/handler.rs: frames on a substream\<close>

definition MAX_FRAME_BYTES :: u32 where
  "MAX_FRAME_BYTES = 4 * 1024 * 1024"

text \<open>
  \<open>write_frame\<close>: the results of \<open>write_all\<close> and \<open>flush\<close> are the parameters \<open>w\<close> and \<open>fl\<close>; on success the bytes
  put on the substream are returned.
\<close>

definition write_frame ::
  "(WireEnvelope \<Rightarrow> string + u8 list) \<Rightarrow> string + unit \<Rightarrow> string + unit \<Rightarrow> WireEnvelope \<Rightarrow> string + u8 list" where
  "write_frame ser w fl env =
     (case encode_envelope ser env of
        Inl e \<Rightarrow> Inl (show_error e)
      | Inr bytes \<Rightarrow>
          if int (length bytes) > uint MAX_FRAME_BYTES + 4 then Inl ''encoded frame too large''
          else (case w of
                  Inl e \<Rightarrow> Inl (''write: '' @ e)
                | Inr _ \<Rightarrow> (case fl of Inl e \<Rightarrow> Inl (''flush: '' @ e) | Inr _ \<Rightarrow> Inr bytes)))"

definition read_exact :: "string \<Rightarrow> nat \<Rightarrow> u8 list \<Rightarrow> string + u8 list \<times> u8 list" where
  "read_exact io n bytes = (if length bytes < n then Inl io else Inr (take n bytes, drop n bytes))"

definition read_frame :: "(u8 list \<Rightarrow> string + WireEnvelope) \<Rightarrow> string \<Rightarrow> u8 list \<Rightarrow> string + WireEnvelope" where
  "read_frame deser io bytes =
     (case read_exact io 4 bytes of
        Inl e \<Rightarrow> Inl (''read len: '' @ e)
      | Inr (len_buf, rest) \<Rightarrow>
          let n = u32_from_be (len_buf ! 0) (len_buf ! 1) (len_buf ! 2) (len_buf ! 3) in
          if n > MAX_FRAME_BYTES then Inl (''frame too large: '' @ show_nat (unat n))
          else (case read_exact io (unat n) rest of
                  Inl e \<Rightarrow> Inl (''read payload: '' @ e)
                | Inr (payload, _) \<Rightarrow>
                    (case decode_envelope deser (len_buf @ payload) of
                       Inl e \<Rightarrow> Inl (show_error e) | Inr env \<Rightarrow> Inr env)))"

subsection \<open>Properties\<close>

lemma encode_Inr:
  "encode_envelope ser env = Inr bs \<longleftrightarrow> (\<exists>payload. ser env = Inr payload \<and> bs = u32_be (of_nat (length payload)) @ payload)"
  by (auto simp: encode_envelope_def split: sum.splits)

lemma unat_of_nat_u32: "n < 2 ^ 32 \<Longrightarrow> unat (of_nat n :: u32) = n"
  by (simp add: unat_of_nat take_bit_nat_eq_self)

lemma decode_encoded:
  assumes "bincode_law ser deser" "encode_envelope ser env = Inr bs" "length bs < 2 ^ 32"
  shows "decode_envelope deser (bs @ rest) = Inr env \<and>
    (\<forall>k. k < length bs \<longrightarrow> (\<exists>e. decode_envelope deser (take k bs) = Inl (Codec e)))"
proof -
  obtain payload where p: "ser env = Inr payload" "bs = u32_be (of_nat (length payload)) @ payload"
    using assms(2) by (auto simp: encode_Inr)
  then have n: "unat (of_nat (length payload) :: u32) = length payload"
    using assms(3) by (intro unat_of_nat_u32) simp
  have d: "deser payload = Inr env" using assms(1) p(1) by (simp add: bincode_law_def)
  have "\<exists>e. decode_envelope deser (take k bs) = Inl (Codec e)" if k: "k < length bs" for k
  proof (cases "k < 4")
    case True
    then have "read_u32 (take k bs) = None" using k by (simp add: read_u32_short)
    then show ?thesis by (simp add: decode_envelope_def)
  next
    case False
    then have "take k bs = u32_be (of_nat (length payload)) @ take (k - 4) payload" by (simp add: p(2))
    moreover have "k < 4 + length payload" using k by (simp add: p(2))
    ultimately show ?thesis using False by (simp add: decode_envelope_def n)
  qed
  then show ?thesis using d by (simp add: p(2) decode_envelope_def n)
qed

text \<open>
  C23: Decoding an encoded envelope gives it back, whatever bytes follow it, and every proper prefix of
  the encoding is reported as an error, never as a message. (The payload must be shorter than \<open>2^32\<close>
  bytes: the length is written as \<open>u32\<close>.)
\<close>

theorem codec_roundtrip:
  assumes "bincode_law ser deser" "encode_envelope ser env = Inr bs" "length bs < 2 ^ 32"
  shows "decode_envelope deser (bs @ rest) = Inr env \<and>
    (\<forall>k. k < length bs \<longrightarrow> (\<exists>e. decode_envelope deser (take k bs) = Inl (Codec e)))"
  using assms by (rule decode_encoded)

text \<open>A serialiser for one envelope, for the witnesses.\<close>

definition demo_env :: WireEnvelope where
  "demo_env = \<lparr>correlation_id = 42, env_msg = RequestVote 1 7 0 0\<rparr>"

definition demo_ser :: "WireEnvelope \<Rightarrow> string + u8 list" where
  "demo_ser env = (if env = demo_env then Inr [42, 1, 7] else Inl ''unsupported'')"

definition demo_deser :: "u8 list \<Rightarrow> string + WireEnvelope" where
  "demo_deser bs = (if bs = [42, 1, 7] then Inr demo_env else Inl ''unsupported'')"

lemma demo_bincode: "bincode_law demo_ser demo_deser"
  by (auto simp: bincode_law_def demo_ser_def demo_deser_def)

theorem codec_roundtrip_witness:
  "decode_envelope demo_deser [0, 0, 0, 3, 42, 1, 7, 99] = Inr demo_env"
proof -
  have "encode_envelope demo_ser demo_env = Inr [0, 0, 0, 3, 42, 1, 7]"
    by (simp add: encode_envelope_def demo_ser_def u32_be_def)
  from codec_roundtrip [OF demo_bincode this, of "[99]"] show ?thesis by simp
qed

text \<open>A frame that is written is read.\<close>

lemma frame_written:
  assumes "bincode_law ser deser" "write_frame ser w fl env = Inr bs"
  shows "read_frame deser io (bs @ rest) = Inr env \<and> length bs \<le> 4194308"
proof -
  have e: "encode_envelope ser env = Inr bs" and l: "int (length bs) \<le> uint MAX_FRAME_BYTES + 4"
    using assms(2) by (auto simp: write_frame_def split: sum.splits if_splits)
  from l have b: "length bs \<le> 4194308" by (simp add: MAX_FRAME_BYTES_def)
  obtain payload where p: "ser env = Inr payload" "bs = u32_be (of_nat (length payload)) @ payload"
    using e by (auto simp: encode_Inr)
  have pl: "length payload \<le> 4194304" using b by (simp add: p(2))
  then have n: "unat (of_nat (length payload) :: u32) = length payload" by (intro unat_of_nat_u32) simp
  then have m: "\<not> MAX_FRAME_BYTES < of_nat (length payload)"
    using pl by (simp add: word_less_nat_alt MAX_FRAME_BYTES_def)
  have "decode_envelope deser bs = Inr env"
    using decode_encoded [OF assms(1) e, of "[]"] b by simp
  then show ?thesis
    using b m unfolding p(2)
    by (simp add: read_frame_def read_exact_def n)
qed

lemma frame_read:
  "bincode_law ser deser \<Longrightarrow> write_frame ser w fl env = Inr bs \<Longrightarrow> read_frame deser io (bs @ rest) = Inr env"
  using frame_written by blast

text \<open>A frame, or what has arrived of it, with anything behind it: nothing but its envelope can be read from it.\<close>

lemma frame_start:
  assumes law: "bincode_law ser deser" and w: "write_frame ser (Inr ()) (Inr ()) env = Inr bs"
    and r: "read_frame deser io (take k (bs @ rest)) = Inr env'"
  shows "env' = env"
proof (cases "length bs \<le> k")
  case True
  then have "take k (bs @ rest) = bs @ take (k - length bs) rest" by simp
  with r frame_read [OF law w, of io "take (k - length bs) rest"] show ?thesis by simp
next
  case False
  obtain payload where p: "bs = u32_be (of_nat (length payload)) @ payload" and l: "length bs \<le> 4194308"
    using w by (auto simp: write_frame_def encode_Inr MAX_FRAME_BYTES_def split: sum.splits if_splits)
  have n: "unat (of_nat (length payload) :: u32) = length payload"
    using l by (intro unat_of_nat_u32) (simp add: p)
  have t: "take k (bs @ rest) = take k bs" using False by simp
  have "\<exists>e. read_frame deser io (take k bs) = Inl e"
  proof (cases "k < 4")
    case True
    then show ?thesis using False by (simp add: read_frame_def read_exact_def)
  next
    case ge: False
    then have "take k bs = u32_be (of_nat (length payload)) @ take (k - 4) payload" by (simp add: p)
    moreover have "k - 4 < length payload" using False ge by (simp add: p)
    ultimately show ?thesis by (simp add: read_frame_def read_exact_def Let_def n)
  qed
  moreover have "read_frame deser io (take k bs) = Inr env'" using r unfolding t .
  ultimately show ?thesis by simp
qed



text \<open>
  An envelope whose bincode image is longer than 4 MiB is never written: \<open>write_frame\<close> returns
  an error before touching the substream, whatever the substream would do. (The engine puts the
  whole missing suffix of the log into one AppendEntries, so a peer that is that far behind is never
  caught up.)
\<close>

lemma oversized_frame_refused:
  assumes "ser env = Inr payload" "4194304 < length payload"
  shows "write_frame ser w fl env = Inl ''encoded frame too large''"
  using assms by (simp add: write_frame_def encode_envelope_def MAX_FRAME_BYTES_def)

lemma oversized_frame_refused_witness:
  "write_frame (\<lambda>_. Inr (replicate 4194305 0)) (Inr ()) (Inr ()) demo_env = Inl ''encoded frame too large''"
  by (rule oversized_frame_refused [of _ _ "replicate 4194305 0"]) simp_all

end
