(* ===== verification/Handler.thy ===== *)
theory Handler
  imports Codec
begin

text \<open>
  \<open>src/handler.rs\<close>: one connection's unary RPCs. The handler's state is modelled field by field; a boxed
  future of \<open>inflight\<close> is the \<open>Task\<close> it runs, and its result is computed from what the substream does
  (\<open>wr s env\<close>: the result of writing the frame of \<open>env\<close> to the substream \<open>s\<close>; \<open>rd s\<close>: the result of reading
  a frame from it). A oneshot channel is a slot of \<open>oneshots\<close>: the sender half sits in \<open>response_txs\<close>,
  the receiver half in the task that writes the answer. In which order \<open>FuturesUnordered\<close> yields finished
  tasks is up to the runtime: \<open>poll\<close> takes the positions it yields as the parameter \<open>picks\<close>.
  Substreams are opaque values of libp2p, the type parameter \<open>'s\<close>.
\<close>

subsection \<open>The messages between behaviour and handler\<close>

datatype FromBehaviour =
    SendRequest u64 RaftMessage
  | SendResponse u64 u64 RaftMessage
    \<comment> \<open>\<open>channel_id\<close>, \<open>correlation_id\<close>, \<open>msg\<close>\<close>

datatype ToBehaviour =
    Request u64 RaftMessage u64
    \<comment> \<open>\<open>correlation_id\<close>, \<open>msg\<close>, \<open>channel_id\<close>\<close>
  | Response u64 RaftMessage
  | Failure "u64 option" string

record OutboundInfo =
  oi_correlation_id :: u64
  oi_msg :: RaftMessage

datatype 's IoOutcome =
    OutboundDone u64 RaftMessage
  | InboundRead u64 's WireEnvelope
  | InboundWritten u64
  | Failed "u64 option" string

subsection \<open>Tasks and oneshot channels\<close>

datatype Oneshot = Open | Sent u64 RaftMessage | Dropped

datatype 's Task =
    OutboundIo 's u64 WireEnvelope
  | InboundReadIo 's u64
  | InboundWriteIo 's u64 u64 nat
    \<comment> \<open>substream, \<open>channel_id\<close>, \<open>request_correlation_id\<close>, \<open>rx\<close>\<close>

record 's RaftHandler =
  inbound_channel_id :: u64
  h_pending_events :: "ToBehaviour list"
  pending_outbound :: "OutboundInfo list"
  inflight :: "'s Task list"
  response_txs :: "u64 \<rightharpoonup> nat"
  outbound_in_flight :: nat
  oneshots :: "Oneshot list"

definition RaftHandler_new :: "'s RaftHandler" where
  "RaftHandler_new =
     \<lparr>inbound_channel_id = 1, h_pending_events = [], pending_outbound = [], inflight = [],
      response_txs = Map.empty, outbound_in_flight = 0, oneshots = []\<rparr>"

text \<open>
  \<open>src/protocol/upgrade.rs\<close> and \<open>listen_protocol\<close>: every substream is negotiated under one protocol name. The
  constructors of libp2p (\<open>StreamProtocol::new\<close>, \<open>ReadyUpgrade::new\<close>, \<open>SubstreamProtocol::new\<close>) are arguments.
\<close>

definition PROTOCOL_NAME :: string where
  "PROTOCOL_NAME = ''/libp2p-raft/1.0.0''"

definition raft_protocol :: "(string \<Rightarrow> 'sp) \<Rightarrow> 'sp" where
  "raft_protocol stream_protocol = stream_protocol PROTOCOL_NAME"

definition raft_ready_upgrade :: "(string \<Rightarrow> 'sp) \<Rightarrow> ('sp \<Rightarrow> 'up) \<Rightarrow> 'up" where
  "raft_ready_upgrade stream_protocol ready_upgrade = ready_upgrade (raft_protocol stream_protocol)"

definition listen_protocol ::
  "(string \<Rightarrow> 'sp) \<Rightarrow> ('sp \<Rightarrow> 'up) \<Rightarrow> ('up \<Rightarrow> unit \<Rightarrow> 'sub) \<Rightarrow> 's RaftHandler \<Rightarrow> 'sub" where
  "listen_protocol stream_protocol ready_upgrade substream h =
     substream (raft_ready_upgrade stream_protocol ready_upgrade) ()"

definition connection_keep_alive :: "'s RaftHandler \<Rightarrow> bool" where
  "connection_keep_alive h = True"

definition alloc_channel_id :: "'s RaftHandler \<Rightarrow> 's RaftHandler \<times> u64" where
  "alloc_channel_id h = (h\<lparr>inbound_channel_id := inbound_channel_id h + 1\<rparr>, inbound_channel_id h)"

definition push_outbound_io :: "'s RaftHandler \<Rightarrow> 's \<Rightarrow> OutboundInfo \<Rightarrow> 's RaftHandler" where
  "push_outbound_io h stream info =
     h\<lparr>outbound_in_flight := outbound_in_flight h + 1,
       inflight := inflight h @ [OutboundIo stream (oi_correlation_id info)
         \<lparr>correlation_id = oi_correlation_id info, env_msg = oi_msg info\<rparr>]\<rparr>"

definition push_inbound_read :: "'s RaftHandler \<Rightarrow> 's \<Rightarrow> 's RaftHandler" where
  "push_inbound_read h stream =
     (let (h1, channel_id) = alloc_channel_id h
      in h1\<lparr>inflight := inflight h1 @ [InboundReadIo stream channel_id]\<rparr>)"

definition push_inbound_write :: "'s RaftHandler \<Rightarrow> 's \<Rightarrow> u64 \<Rightarrow> u64 \<Rightarrow> nat \<Rightarrow> 's RaftHandler" where
  "push_inbound_write h stream channel_id request_correlation_id rx =
     h\<lparr>inflight := inflight h @ [InboundWriteIo stream channel_id request_correlation_id rx]\<rparr>"

text \<open>Removing an entry of \<open>response_txs\<close> without sending drops the sender: the receiver is cancelled.\<close>

definition drop_tx :: "'s RaftHandler \<Rightarrow> u64 \<Rightarrow> 's RaftHandler" where
  "drop_tx h channel_id =
     (case response_txs h channel_id of
        None \<Rightarrow> h
      | Some i \<Rightarrow> h\<lparr>response_txs := (response_txs h)(channel_id := None),
                    oneshots := (oneshots h)[i := Dropped]\<rparr>)"

text \<open>The bodies of the three futures. An answer task whose sender is still open is not finished.\<close>

fun task_outcome ::
  "('s \<Rightarrow> WireEnvelope \<Rightarrow> string + unit) \<Rightarrow> ('s \<Rightarrow> string + WireEnvelope) \<Rightarrow> Oneshot list \<Rightarrow> 's Task \<Rightarrow>
    's IoOutcome option" where
  "task_outcome wr rd os (OutboundIo stream cid req) =
     (case wr stream req of
        Inl e \<Rightarrow> Some (Failed (Some cid) e)
      | Inr _ \<Rightarrow> (case rd stream of
          Inr env \<Rightarrow> Some (OutboundDone (correlation_id env) (env_msg env))
        | Inl e \<Rightarrow> Some (Failed (Some cid) e)))"
| "task_outcome wr rd os (InboundReadIo stream channel_id) =
     (case rd stream of
        Inr env \<Rightarrow> Some (InboundRead channel_id stream env)
      | Inl e \<Rightarrow> Some (Failed None e))"
| "task_outcome wr rd os (InboundWriteIo stream channel_id request_cid rx) =
     (case os ! rx of
        Open \<Rightarrow> None
      | Dropped \<Rightarrow> Some (Failed (Some request_cid) ''inbound response cancelled'')
      | Sent cid resp \<Rightarrow>
          (case wr stream \<lparr>correlation_id = cid, env_msg = resp\<rparr> of
             Inr _ \<Rightarrow> Some (InboundWritten channel_id)
           | Inl e \<Rightarrow> Some (Failed (Some request_cid) e)))"

subsection \<open>on_behaviour_event\<close>

fun on_behaviour_event :: "'s RaftHandler \<Rightarrow> FromBehaviour \<Rightarrow> 's RaftHandler" where
  "on_behaviour_event h (SendRequest cid msg) =
     h\<lparr>pending_outbound := pending_outbound h @ [\<lparr>oi_correlation_id = cid, oi_msg = msg\<rparr>]\<rparr>"
| "on_behaviour_event h (SendResponse channel_id cid msg) =
     (case response_txs h channel_id of
        Some i \<Rightarrow> h\<lparr>response_txs := (response_txs h)(channel_id := None),
                    oneshots := (oneshots h)[i := Sent cid msg]\<rparr>
      | None \<Rightarrow> h\<lparr>h_pending_events := h_pending_events h @
          [Failure (Some cid) (''unknown inbound channel_id '' @ show_nat (unat channel_id))]\<rparr>)"

subsection \<open>on_connection_event\<close>

datatype StreamUpgradeError = UpTimeout | UpApply | UpNegotiationFailed | UpIo string

datatype 's ConnectionEvent =
    FullyNegotiatedInbound 's
  | FullyNegotiatedOutbound 's OutboundInfo
  | DialUpgradeError OutboundInfo StreamUpgradeError
  | OtherConnectionEvent

fun upgrade_error_text :: "StreamUpgradeError \<Rightarrow> string" where
  "upgrade_error_text UpTimeout = ''outbound upgrade timeout''"
| "upgrade_error_text UpApply = ''outbound upgrade apply error''"
| "upgrade_error_text UpNegotiationFailed = ''outbound protocol negotiation failed''"
| "upgrade_error_text (UpIo e) = ''outbound upgrade io: '' @ e"

fun on_connection_event :: "'s RaftHandler \<Rightarrow> 's ConnectionEvent \<Rightarrow> 's RaftHandler" where
  "on_connection_event h (FullyNegotiatedInbound stream) = push_inbound_read h stream"
| "on_connection_event h (FullyNegotiatedOutbound stream info) = push_outbound_io h stream info"
| "on_connection_event h (DialUpgradeError info error) =
     h\<lparr>h_pending_events := h_pending_events h @
         [Failure (Some (oi_correlation_id info)) (upgrade_error_text error)]\<rparr>"
| "on_connection_event h OtherConnectionEvent = h"

subsection \<open>poll\<close>

datatype HandlerPoll =
    NotifyBehaviour ToBehaviour
  | OutboundSubstreamRequest OutboundInfo
  | HandlerPending

text \<open>The inner \<open>match\<close> on a finished task.\<close>

fun on_outcome :: "'s RaftHandler \<Rightarrow> 's IoOutcome \<Rightarrow> 's RaftHandler" where
  "on_outcome h (OutboundDone cid msg) =
     h\<lparr>outbound_in_flight := outbound_in_flight h - 1,
       h_pending_events := h_pending_events h @ [Response cid msg]\<rparr>"
| "on_outcome h (InboundRead channel_id stream env) =
     (let h1 = drop_tx h channel_id;
          i = length (oneshots h1);
          h2 = h1\<lparr>oneshots := oneshots h1 @ [Open], response_txs := (response_txs h1)(channel_id \<mapsto> i)\<rparr>;
          h3 = push_inbound_write h2 stream channel_id (correlation_id env) i
      in h3\<lparr>h_pending_events := h_pending_events h3 @ [Request (correlation_id env) (env_msg env) channel_id]\<rparr>)"
| "on_outcome h (InboundWritten channel_id) = drop_tx h channel_id"
| "on_outcome h (Failed cid error) =
     (let h1 = (if cid \<noteq> None then h\<lparr>outbound_in_flight := outbound_in_flight h - 1\<rparr> else h)
      in h1\<lparr>h_pending_events := h_pending_events h1 @ [Failure cid error]\<rparr>)"

definition remove_nth :: "nat \<Rightarrow> 'x list \<Rightarrow> 'x list" where
  "remove_nth k xs = take k xs @ drop (Suc k) xs"

fun handler_poll ::
  "('s \<Rightarrow> WireEnvelope \<Rightarrow> string + unit) \<Rightarrow> ('s \<Rightarrow> string + WireEnvelope) \<Rightarrow> nat list \<Rightarrow> 's RaftHandler \<Rightarrow>
    's RaftHandler \<times> HandlerPoll" where
  "handler_poll wr rd picks h =
     (case h_pending_events h of
        ev # evs \<Rightarrow> (h\<lparr>h_pending_events := evs\<rparr>, NotifyBehaviour ev)
      | [] \<Rightarrow>
     (case pending_outbound h of
        info # infos \<Rightarrow> (h\<lparr>pending_outbound := infos\<rparr>, OutboundSubstreamRequest info)
      | [] \<Rightarrow>
     (case picks of
        [] \<Rightarrow> (h, HandlerPending)
      | k # ks \<Rightarrow>
          if k < length (inflight h) then
            (case task_outcome wr rd (oneshots h) (inflight h ! k) of
               None \<Rightarrow> (h, HandlerPending)
             | Some out \<Rightarrow>
                 handler_poll wr rd ks (on_outcome (h\<lparr>inflight := remove_nth k (inflight h)\<rparr>) out))
          else (h, HandlerPending))))"

declare handler_poll.simps [simp del]

subsection \<open>Which substream an answer goes to\<close>

fun rx_of :: "'s Task \<Rightarrow> nat list" where
  "rx_of (InboundWriteIo stream channel_id cid rx) = [rx]"
| "rx_of _ = []"

text \<open>
  Every sender in \<open>response_txs\<close> is open and belongs to a waiting answer task of the same channel; the
  receivers of the tasks are pairwise different.
\<close>

definition handler_inv :: "'s RaftHandler \<Rightarrow> bool" where
  "handler_inv h \<longleftrightarrow>
     distinct (concat (map rx_of (inflight h))) \<and>
     (\<forall>i \<in> set (concat (map rx_of (inflight h))). i < length (oneshots h)) \<and>
     (\<forall>ch i. response_txs h ch = Some i \<longrightarrow> i < length (oneshots h) \<and> oneshots h ! i = Open \<and>
        (\<exists>s cid. InboundWriteIo s ch cid i \<in> set (inflight h)))"

datatype 's HandlerInput =
    FromBeh FromBehaviour
  | FromConn "'s ConnectionEvent"
  | Poll "'s \<Rightarrow> WireEnvelope \<Rightarrow> string + unit" "'s \<Rightarrow> string + WireEnvelope" "nat list"

fun handler_step :: "'s RaftHandler \<Rightarrow> 's HandlerInput \<Rightarrow> 's RaftHandler" where
  "handler_step h (FromBeh ev) = on_behaviour_event h ev"
| "handler_step h (FromConn ev) = on_connection_event h ev"
| "handler_step h (Poll wr rd picks) = fst (handler_poll wr rd picks h)"

lemma handler_inv_new: "handler_inv RaftHandler_new"
  by (simp add: handler_inv_def RaftHandler_new_def)

text \<open>The invariant only looks at the tasks, the senders and the channels.\<close>

lemma handler_inv_cong:
  "handler_inv h \<Longrightarrow> inflight h' = inflight h \<Longrightarrow> response_txs h' = response_txs h \<Longrightarrow> oneshots h' = oneshots h \<Longrightarrow>
    handler_inv h'"
  by (simp add: handler_inv_def)

lemma handler_inv_unique:
  assumes "handler_inv h" "InboundWriteIo s ch c i \<in> set (inflight h)" "InboundWriteIo s' ch' c' i \<in> set (inflight h)"
  shows "s = s' \<and> ch = ch' \<and> c = c'"
proof -
  have d: "distinct (concat (map rx_of ts)) \<Longrightarrow> t \<in> set ts \<Longrightarrow> u \<in> set ts \<Longrightarrow> i \<in> set (rx_of t) \<Longrightarrow>
      i \<in> set (rx_of u) \<Longrightarrow> t = u" for ts and t u :: "'a Task"
    by (induction ts) auto
  from d [OF _ assms(2,3)] assms(1) show ?thesis by (auto simp: handler_inv_def)
qed

text \<open>Taking a sender out of \<open>response_txs\<close>, by sending or by dropping it.\<close>

lemma handler_inv_take:
  assumes "handler_inv h" "response_txs h ch = Some i"
  shows "handler_inv (h\<lparr>response_txs := (response_txs h)(ch := None), oneshots := (oneshots h)[i := v]\<rparr>)"
proof -
  have "j \<noteq> i" if "response_txs h ch' = Some j" "ch' \<noteq> ch" for ch' j
  proof
    assume "j = i"
    with that assms obtain s c s' c' where
      "InboundWriteIo s ch c i \<in> set (inflight h)" "InboundWriteIo s' ch' c' i \<in> set (inflight h)"
      unfolding handler_inv_def by blast
    from handler_inv_unique [OF assms(1) this] that(2) show False by simp
  qed
  then have "(oneshots h)[i := v] ! j = oneshots h ! j" if "response_txs h ch' = Some j" "ch' \<noteq> ch" for ch' j
    using that by (metis nth_list_update_neq)
  with assms(1) show ?thesis unfolding handler_inv_def by (auto split: if_splits)
qed

lemma handler_inv_drop: "handler_inv h \<Longrightarrow> handler_inv (drop_tx h ch)"
  by (auto simp: drop_tx_def handler_inv_take split: option.split)

lemma handler_inv_push:
  "handler_inv h \<Longrightarrow> rx_of t = [] \<Longrightarrow> handler_inv (h\<lparr>inflight := inflight h @ [t]\<rparr>)"
  by (simp add: handler_inv_def) blast

lemma handler_inv_behaviour: "handler_inv h \<Longrightarrow> handler_inv (on_behaviour_event h ev)"
  by (cases ev) (auto simp: handler_inv_take intro: handler_inv_cong split: option.split)

lemma handler_inv_connection:
  assumes "handler_inv h"
  shows "handler_inv (on_connection_event h ev)"
proof (cases ev)
  case (FullyNegotiatedInbound s)
  have "handler_inv (h\<lparr>inflight := inflight h @ [InboundReadIo s (inbound_channel_id h)]\<rparr>)"
    using assms by (rule handler_inv_push) simp
  then show ?thesis using FullyNegotiatedInbound
    by (auto simp: push_inbound_read_def alloc_channel_id_def elim: handler_inv_cong)
next
  case (FullyNegotiatedOutbound s info)
  have "handler_inv (h\<lparr>inflight := inflight h @ [OutboundIo s (oi_correlation_id info)
      \<lparr>correlation_id = oi_correlation_id info, env_msg = oi_msg info\<rparr>]\<rparr>)"
    using assms by (rule handler_inv_push) simp
  then show ?thesis using FullyNegotiatedOutbound by (auto simp: push_outbound_io_def elim: handler_inv_cong)
qed (use assms in \<open>auto elim: handler_inv_cong\<close>)

text \<open>A finished task leaves the list: if it was an answer task, its sender is gone already.\<close>

lemma set_remove_nth: "k < length xs \<Longrightarrow> set xs = insert (xs ! k) (set (remove_nth k xs))"
proof -
  assume k: "k < length xs"
  then have "xs = take k xs @ xs ! k # drop (Suc k) xs" by (rule id_take_nth_drop)
  then have "set xs = set (take k xs @ xs ! k # drop (Suc k) xs)" by simp
  then show ?thesis unfolding remove_nth_def by auto
qed

lemma distinct_remove_nth:
  assumes "distinct (concat (map f xs))" "k < length xs"
  shows "distinct (concat (map f (remove_nth k xs)))"
proof -
  have "concat (map f xs) = concat (map f (take k xs)) @ f (xs ! k) @ concat (map f (drop (Suc k) xs))"
    by (subst id_take_nth_drop [OF assms(2)]) simp
  with assms(1) show ?thesis by (auto simp: remove_nth_def)
qed

lemma handler_inv_finish:
  assumes "handler_inv h" "k < length (inflight h)" "task_outcome wr rd (oneshots h) (inflight h ! k) = Some out"
  shows "handler_inv (h\<lparr>inflight := remove_nth k (inflight h)\<rparr>)"
proof -
  have "InboundWriteIo s ch c i \<in> set (remove_nth k (inflight h))"
    if "InboundWriteIo s ch c i \<in> set (inflight h)" "oneshots h ! i = Open" for s ch c i
  proof -
    have "inflight h ! k \<noteq> InboundWriteIo s ch c i" using assms(3) that(2) by auto
    with that(1) set_remove_nth [OF assms(2)] show ?thesis by auto
  qed
  moreover have "set (remove_nth k (inflight h)) \<subseteq> set (inflight h)"
    using set_remove_nth [OF assms(2)] by auto
  moreover have "distinct (concat (map rx_of (remove_nth k (inflight h))))"
    using assms(1,2) by (intro distinct_remove_nth) (auto simp: handler_inv_def)
  ultimately show ?thesis using assms(1) unfolding handler_inv_def by simp blast
qed

lemma handler_inv_outcome:
  assumes "handler_inv h"
  shows "handler_inv (on_outcome h out)"
proof (cases out)
  case (InboundRead ch s env)
  let ?h = "drop_tx h ch" and ?i = "length (oneshots (drop_tx h ch))"
  have inv: "handler_inv ?h" using assms by (rule handler_inv_drop)
  then have "?i \<notin> set (concat (map rx_of (inflight ?h)))" unfolding handler_inv_def by blast
  moreover have "response_txs ?h ch' \<noteq> Some ?i" for ch' using inv unfolding handler_inv_def by blast
  ultimately show ?thesis using inv InboundRead
    by (auto simp: handler_inv_def Let_def push_inbound_write_def nth_append less_Suc_eq)
next
  case (Failed c e)
  then show ?thesis using assms by (auto simp: Let_def elim!: handler_inv_cong)
qed (use assms in \<open>auto simp: handler_inv_drop elim: handler_inv_cong\<close>)

lemma handler_inv_poll: "handler_inv h \<Longrightarrow> handler_inv (fst (handler_poll wr rd picks h))"
proof (induction wr rd picks h rule: handler_poll.induct)
  case (1 wr rd picks h)
  note IH = 1
  show ?case
  proof (cases "h_pending_events h = [] \<and> pending_outbound h = []")
    case False
    then show ?thesis using IH(2)
      by (subst handler_poll.simps) (auto elim: handler_inv_cong split: list.splits)
  next
    case True
    show ?thesis
    proof (cases picks)
      case Nil
      then show ?thesis using True IH(2) by (simp add: handler_poll.simps)
    next
      case (Cons k ks)
      show ?thesis
      proof (cases "k < length (inflight h)")
        case k: True
        show ?thesis
        proof (cases "task_outcome wr rd (oneshots h) (inflight h ! k)")
          case None
          then show ?thesis using True Cons k IH(2) by (simp add: handler_poll.simps)
        next
          case (Some out)
          have "handler_inv (on_outcome (h\<lparr>inflight := remove_nth k (inflight h)\<rparr>) out)"
            by (rule handler_inv_outcome [OF handler_inv_finish [OF IH(2) k Some]])
          then show ?thesis using IH(1) True Cons k Some by (simp add: handler_poll.simps [of _ _ _ h])
        qed
      qed (use True Cons IH(2) in \<open>simp add: handler_poll.simps\<close>)
    qed
  qed
qed

lemma handler_inv_step: "handler_inv h \<Longrightarrow> handler_inv (handler_step h i)"
  by (cases i) (auto intro: handler_inv_behaviour handler_inv_connection handler_inv_poll)

lemma handler_inv_run: "handler_inv h \<Longrightarrow> handler_inv (fold (\<lambda>i h. handler_step h i) is h)"
  by (rule fold_preserves) (auto intro: handler_inv_step)

subsection \<open>Properties of the handler\<close>

lemma answer_routed:
  assumes "response_txs h ch = Some i" and inv: "handler_inv h"
  shows "\<exists>s cid. InboundWriteIo s ch cid i \<in> set (inflight h) \<and>
      inflight (on_behaviour_event h (SendResponse ch rc m)) = inflight h \<and>
      response_txs (on_behaviour_event h (SendResponse ch rc m)) ch = None \<and>
      task_outcome wr rd (oneshots (on_behaviour_event h (SendResponse ch rc m))) (InboundWriteIo s ch cid i) =
        (case wr s \<lparr>correlation_id = rc, env_msg = m\<rparr> of
           Inr _ \<Rightarrow> Some (InboundWritten ch) | Inl e \<Rightarrow> Some (Failed (Some cid) e)) \<and>
      (\<forall>t \<in> set (inflight h). t = InboundWriteIo s ch cid i \<or>
         task_outcome wr rd (oneshots (on_behaviour_event h (SendResponse ch rc m))) t =
         task_outcome wr rd (oneshots h) t)"
proof -
  obtain s cid where t: "InboundWriteIo s ch cid i \<in> set (inflight h)" "i < length (oneshots h)"
    using assms unfolding handler_inv_def by blast
  have other: "task_outcome wr rd ((oneshots h)[i := Sent rc m]) u = task_outcome wr rd (oneshots h) u"
    if "u \<in> set (inflight h)" "u \<noteq> InboundWriteIo s ch cid i" for u
  proof (cases u)
    case (InboundWriteIo s' ch' c' j)
    have "j \<noteq> i"
    proof
      assume "j = i"
      then have "InboundWriteIo s' ch' c' i \<in> set (inflight h)" using that(1) InboundWriteIo by simp
      from handler_inv_unique [OF inv t(1) this] \<open>j = i\<close> that(2) InboundWriteIo show False by simp
    qed
    then show ?thesis using InboundWriteIo by simp
  qed simp_all
  have e: "on_behaviour_event h (SendResponse ch rc m) =
      h\<lparr>response_txs := (response_txs h)(ch := None), oneshots := (oneshots h)[i := Sent rc m]\<rparr>"
    using assms(1) by simp
  have "task_outcome wr rd (oneshots (on_behaviour_event h (SendResponse ch rc m))) (InboundWriteIo s ch cid i) =
      (case wr s \<lparr>correlation_id = rc, env_msg = m\<rparr> of
         Inr _ \<Rightarrow> Some (InboundWritten ch) | Inl e \<Rightarrow> Some (Failed (Some cid) e))"
    unfolding e using t(2) by simp
  moreover have "\<forall>t \<in> set (inflight h). t = InboundWriteIo s ch cid i \<or>
      task_outcome wr rd (oneshots (on_behaviour_event h (SendResponse ch rc m))) t =
      task_outcome wr rd (oneshots h) t"
    using other unfolding e by auto
  moreover have "inflight (on_behaviour_event h (SendResponse ch rc m)) = inflight h"
    "response_txs (on_behaviour_event h (SendResponse ch rc m)) ch = None"
    unfolding e by simp_all
  ultimately show ?thesis using t(1) by blast
qed

text \<open>
  C22: Answers go to the substream they answer: in every state a handler can get into, the sender stored
  for a channel belongs to exactly one waiting task, that of the request which opened the channel;
  handing the handler a response for the channel makes this task write it to its own substream,
  affects no other task, and uses the sender up.
\<close>

theorem response_reaches_requester:
  fixes "is" :: "'s HandlerInput list"
  assumes "response_txs (fold (\<lambda>i h. handler_step h i) is RaftHandler_new) ch = Some i"
  shows "let h = fold (\<lambda>i h. handler_step h i) is RaftHandler_new;
      h' = on_behaviour_event h (SendResponse ch rc m)
    in \<exists>s cid. InboundWriteIo s ch cid i \<in> set (inflight h) \<and> inflight h' = inflight h \<and>
      response_txs h' ch = None \<and>
      task_outcome wr rd (oneshots h') (InboundWriteIo s ch cid i) =
        (case wr s \<lparr>correlation_id = rc, env_msg = m\<rparr> of
           Inr _ \<Rightarrow> Some (InboundWritten ch) | Inl e \<Rightarrow> Some (Failed (Some cid) e)) \<and>
      (\<forall>t \<in> set (inflight h). t = InboundWriteIo s ch cid i \<or>
         task_outcome wr rd (oneshots h') t = task_outcome wr rd (oneshots h) t)"
  using assms handler_inv_run [OF handler_inv_new, of "is"] unfolding Let_def
  by (rule answer_routed)

definition ok_write :: "nat \<Rightarrow> WireEnvelope \<Rightarrow> string + unit" where
  "ok_write s env = Inr ()"

definition demo_read :: "nat \<Rightarrow> string + WireEnvelope" where
  "demo_read s = Inr \<lparr>correlation_id = of_nat s, env_msg = RequestVote 1 2 0 0\<rparr>"

text \<open>Two requests arrive on the substreams 10 and 11; both are read.\<close>

definition demo_handler_inputs :: "nat HandlerInput list" where
  "demo_handler_inputs = [FromConn (FullyNegotiatedInbound 10), FromConn (FullyNegotiatedInbound 11),
     Poll ok_write demo_read [0], Poll ok_write demo_read [0]]"

theorem response_reaches_requester_witness:
  "\<exists>s cid. InboundWriteIo s 2 cid 1 \<in> set (inflight (fold (\<lambda>i h. handler_step h i) demo_handler_inputs RaftHandler_new))"
proof -
  have "response_txs (fold (\<lambda>i h. handler_step h i) demo_handler_inputs RaftHandler_new) 2 = Some 1"
    by code_simp
  from response_reaches_requester [OF this, of 11 "RequestVoteResp 1 True" ok_write demo_read] show ?thesis
    unfolding Let_def by blast
qed

text \<open>The channel a task is about.\<close>

fun task_channel :: "'s Task \<Rightarrow> u64 option" where
  "task_channel (OutboundIo s c e) = None"
| "task_channel (InboundReadIo s ch) = Some ch"
| "task_channel (InboundWriteIo s ch c rx) = Some ch"

definition waits :: "'s RaftHandler \<Rightarrow> u64 \<Rightarrow> 's Task \<Rightarrow> bool" where
  "waits h ch t \<longleftrightarrow> (\<exists>s c i. t = InboundWriteIo s ch c i \<and> response_txs h ch = Some i \<and>
     filter (\<lambda>u. task_channel u = Some ch) (inflight h) = [t])"

text \<open>A run in which nobody answers the channel and its number is not given out again.\<close>

fun unanswered :: "u64 \<Rightarrow> 's RaftHandler \<Rightarrow> 's HandlerInput list \<Rightarrow> bool" where
  "unanswered ch h [] = True"
| "unanswered ch h (i # is) =
     ((case i of
         FromBeh ev \<Rightarrow> (case ev of SendResponse ch' _ _ \<Rightarrow> ch' \<noteq> ch | _ \<Rightarrow> True)
       | FromConn ev \<Rightarrow> (case ev of FullyNegotiatedInbound _ \<Rightarrow> inbound_channel_id h \<noteq> ch | _ \<Rightarrow> True)
       | _ \<Rightarrow> True) \<and> unanswered ch (handler_step h i) is)"

lemma waits_cong:
  "waits h ch t \<Longrightarrow> response_txs h' ch = response_txs h ch \<Longrightarrow>
    filter (\<lambda>u. task_channel u = Some ch) (inflight h') = filter (\<lambda>u. task_channel u = Some ch) (inflight h) \<Longrightarrow>
    waits h' ch t"
  by (simp add: waits_def)

lemma waits_drop: "waits h ch t \<Longrightarrow> ch' \<noteq> ch \<Longrightarrow> waits (drop_tx h ch') ch t"
  by (auto simp: drop_tx_def elim!: waits_cong split: option.split)

lemma filter_remove_nth:
  "k < length xs \<Longrightarrow> \<not> P (xs ! k) \<Longrightarrow> filter P (remove_nth k xs) = filter P xs"
  by (subst (3) id_take_nth_drop) (auto simp: remove_nth_def)

lemma waits_finish:
  assumes "handler_inv h" "waits h ch t" "k < length (inflight h)"
    "task_outcome wr rd (oneshots h) (inflight h ! k) = Some out"
  shows "waits (h\<lparr>inflight := remove_nth k (inflight h)\<rparr>) ch t"
    and "case out of InboundRead ch' _ _ \<Rightarrow> ch' \<noteq> ch | InboundWritten ch' \<Rightarrow> ch' \<noteq> ch | _ \<Rightarrow> True"
proof -
  obtain s c i where t: "t = InboundWriteIo s ch c i" "response_txs h ch = Some i"
      "filter (\<lambda>u. task_channel u = Some ch) (inflight h) = [t]"
    using assms(2) by (auto simp: waits_def)
  have "oneshots h ! i = Open" using assms(1) t(2) by (simp add: handler_inv_def)
  with assms(4) t(1) have "inflight h ! k \<noteq> t" by auto
  moreover have "inflight h ! k \<in> set (filter (\<lambda>u. task_channel u = Some ch) (inflight h)) \<longleftrightarrow>
      task_channel (inflight h ! k) = Some ch"
    using assms(3) by simp
  ultimately have nch: "task_channel (inflight h ! k) \<noteq> Some ch" unfolding t(3) by auto
  then show "waits (h\<lparr>inflight := remove_nth k (inflight h)\<rparr>) ch t"
    using assms(2,3) by (auto elim!: waits_cong simp: filter_remove_nth)
  show "case out of InboundRead ch' _ _ \<Rightarrow> ch' \<noteq> ch | InboundWritten ch' \<Rightarrow> ch' \<noteq> ch | _ \<Rightarrow> True"
    using assms(4) nch by (cases "inflight h ! k") (auto split: sum.splits Oneshot.splits)
qed

lemma waits_outcome:
  assumes "waits h ch t"
    and "case out of InboundRead ch' _ _ \<Rightarrow> ch' \<noteq> ch | InboundWritten ch' \<Rightarrow> ch' \<noteq> ch | _ \<Rightarrow> True"
  shows "waits (on_outcome h out) ch t"
proof (cases out)
  case (InboundRead ch' s env)
  with assms have "waits (drop_tx h ch') ch t" by (intro waits_drop) auto
  then show ?thesis using InboundRead assms(2)
    by (auto simp: Let_def push_inbound_write_def elim!: waits_cong)
qed (use assms in \<open>auto simp: waits_drop Let_def elim!: waits_cong\<close>)

lemma waits_poll:
  "handler_inv h \<Longrightarrow> waits h ch t \<Longrightarrow> waits (fst (handler_poll wr rd picks h)) ch t"
proof (induction wr rd picks h rule: handler_poll.induct)
  case (1 wr rd picks h)
  consider (queue) "h_pending_events h \<noteq> [] \<or> pending_outbound h \<noteq> []"
    | (stop) "h_pending_events h = []" "pending_outbound h = []" "picks = [] \<or>
        (\<exists>k ks. picks = k # ks \<and> (k < length (inflight h) \<longrightarrow> task_outcome wr rd (oneshots h) (inflight h ! k) = None))"
    | (go) k ks out where "h_pending_events h = []" "pending_outbound h = []" "picks = k # ks"
        "k < length (inflight h)" "task_outcome wr rd (oneshots h) (inflight h ! k) = Some out"
    by (cases picks) fastforce+
  then show ?case
  proof cases
    case queue
    then show ?thesis using 1(3)
      by (subst handler_poll.simps) (auto elim: waits_cong split: list.splits)
  next
    case stop
    then show ?thesis using 1(3) by (subst handler_poll.simps) auto
  next
    case go
    note fin = waits_finish [OF 1(2,3) go(4,5)]
    have "handler_inv (on_outcome (h\<lparr>inflight := remove_nth k (inflight h)\<rparr>) out)"
      by (rule handler_inv_outcome [OF handler_inv_finish [OF 1(2) go(4,5)]])
    then show ?thesis using 1(1) [OF go] waits_outcome [OF fin] go
      by (simp add: handler_poll.simps [of _ _ _ h])
  qed
qed

lemma waits_step:
  assumes "handler_inv h" "waits h ch t" "unanswered ch h [i]"
  shows "waits (handler_step h i) ch t"
proof (cases i)
  case (FromBeh ev)
  with assms show ?thesis by (cases ev) (auto elim!: waits_cong split: option.split)
next
  case (FromConn ev)
  with assms show ?thesis
    by (cases ev) (auto simp: push_inbound_read_def alloc_channel_id_def push_outbound_io_def elim!: waits_cong)
qed (use assms in \<open>auto intro: waits_poll\<close>)

text \<open>
  C34: A request the behaviour does not answer is never let go: the task that waits for the answer, with
  the substream it holds and its entry in \<open>response_txs\<close>, stays in the handler through every later
  event and poll, as long as no response for its channel arrives and the channel number is not given
  out again.
\<close>

theorem unanswered_request_stays:
  assumes "handler_inv h" "waits h ch t" "unanswered ch h is"
  shows "t \<in> set (inflight (fold (\<lambda>i h. handler_step h i) is h)) \<and>
    ch \<in> dom (response_txs (fold (\<lambda>i h. handler_step h i) is h))"
proof -
  have "waits (fold (\<lambda>i h. handler_step h i) is h) ch t"
    using assms
  proof (induction "is" arbitrary: h)
    case (Cons i "is")
    then show ?case using handler_inv_step [of h i] waits_step [of h ch t i] by simp
  qed simp
  then obtain i where "response_txs (fold (\<lambda>i h. handler_step h i) is h) ch = Some i"
      "filter (\<lambda>u. task_channel u = Some ch) (inflight (fold (\<lambda>i h. handler_step h i) is h)) = [t]"
    by (auto simp: waits_def)
  then have "t \<in> set (filter (\<lambda>u. task_channel u = Some ch) (inflight (fold (\<lambda>i h. handler_step h i) is h)))"
    by simp
  then show ?thesis using \<open>response_txs _ ch = Some i\<close> by auto
qed

theorem unanswered_request_stays_witness:
  "InboundWriteIo 10 1 10 0 \<in> set (inflight (fold (\<lambda>i h. handler_step h i)
     [FromBeh (SendResponse 2 11 (RequestVoteResp 1 True)), Poll ok_write demo_read [0, 0], Poll ok_write demo_read [0]]
     (fold (\<lambda>i h. handler_step h i) demo_handler_inputs RaftHandler_new)))"
proof -
  let ?h = "fold (\<lambda>i h. handler_step h i) demo_handler_inputs RaftHandler_new"
  have inv: "handler_inv ?h" by (rule handler_inv_run [OF handler_inv_new])
  have "response_txs ?h 1 = Some 0"
    "filter (\<lambda>u. task_channel u = Some 1) (inflight ?h) = [InboundWriteIo 10 1 10 0]"
    by code_simp+
  then have w: "waits ?h 1 (InboundWriteIo 10 1 10 0)" by (simp add: waits_def)
  have "unanswered 1 ?h [FromBeh (SendResponse 2 11 (RequestVoteResp 1 True)), Poll ok_write demo_read [0, 0],
      Poll ok_write demo_read [0]]"
    by code_simp
  from unanswered_request_stays [OF inv w this] show ?thesis by blast
qed

end
