(* ===== verification/Behaviour.thy ===== *)
theory Behaviour
  imports EngineProps PeerMap Handler "HOL-Library.AList"
begin

text \<open>
  \<open>src/behaviour.rs\<close>: the swarm behaviour that owns the engine, the peer map, the pending requests, the
  dialling state and the sleep timer. Every method is one definition; the state record has the fields
  of \<open>RaftBehaviour\<close> and, at its end, the world it reads: the successive readings of the clock, the
  random peer ids, and whether the sleep is ready when it is polled, each indexed by the number of
  readings so far. \<open>pending\<close> is an association list; where the code iterates over it, the order is
  the parameter \<open>ho\<close>. Connection ids are the type parameter \<open>'c\<close>.
\<close>

subsection \<open>Events and state\<close>

datatype 'p Event =
    RoleChanged Role Term "NodeId option"
  | Committed "LogEntry list"
  | PeerMapped 'p NodeId
  | RpcFailed 'p Error

datatype 'c NotifyTarget = One 'c | Any

datatype ('p, 'a, 'c) ToSwarm =
    GenerateEvent "'p Event"
  | Dial 'p "'a list"
  | NotifyHandler 'p "'c NotifyTarget" FromBehaviour

record 'p PendingRequest =
  pr_correlation_id :: u64
  pr_to :: NodeId
  pr_peer :: 'p
  pr_kind :: RpcKind
  pr_sent_at :: Instant
  pr_msg :: RaftMessage

record ('p, 'c) InboundChannel =
  ic_peer :: 'p
  ic_conn :: 'c
  ic_correlation_id :: u64

record ('p, 'a, 'c) RaftBehaviour =
  engine :: "('p, 'a) RaftEngine"
  b_config :: "('p, 'a) RaftConfig"
  peer_map :: "('p, 'a) PeerMap"
  connected :: "'p \<rightharpoonup> 'c set"
  dialing :: "'p set"
  dial_backoff_until :: "'p \<rightharpoonup> Instant"
  pending_events :: "('p, 'a, 'c) ToSwarm list"
  next_correlation_id :: u64
  pending :: "(u64 \<times> 'p PendingRequest) list"
  inbound_channels :: "u64 \<rightharpoonup> ('p, 'c) InboundChannel"
  sleep :: Duration
  waker :: bool
  clock :: "nat \<Rightarrow> Instant"
  random_peer :: "nat \<Rightarrow> 'p"
  sleep_ready :: "nat \<Rightarrow> bool"
  readings :: nat

text \<open>\<open>Instant::now()\<close>.\<close>

definition read_now :: "('p, 'a, 'c) RaftBehaviour \<Rightarrow> ('p, 'a, 'c) RaftBehaviour \<times> Instant" where
  "read_now b = (b\<lparr>readings := Suc (readings b)\<rparr>, clock b (readings b))"

definition push_event :: "('p, 'a, 'c) RaftBehaviour \<Rightarrow> ('p, 'a, 'c) ToSwarm \<Rightarrow> ('p, 'a, 'c) RaftBehaviour" where
  "push_event b ev = b\<lparr>pending_events := pending_events b @ [ev]\<rparr>"

definition arm_sleep :: "('p, 'a, 'c) RaftBehaviour \<Rightarrow> Instant \<Rightarrow> ('p, 'a, 'c) RaftBehaviour" where
  "arm_sleep b deadline = (let (b1, now) = read_now b in b1\<lparr>sleep := deadline - now\<rparr>)"

definition earliest_wake :: "('p, 'a, 'c) RaftBehaviour \<Rightarrow> Instant" where
  "earliest_wake b =
     fold (\<lambda>(id, p) wake. let t = pr_sent_at p + cfg_rpc_timeout (b_config b) in if t < wake then t else wake)
       (pending b) (next_deadline (engine b))"

definition RaftBehaviour_new ::
  "(NodeId set \<Rightarrow> NodeId list) \<Rightarrow> (nat \<Rightarrow> Instant) \<Rightarrow> (nat \<Rightarrow> 'p) \<Rightarrow> (nat \<Rightarrow> bool) \<Rightarrow>
    ('p, 'a) RaftConfig \<Rightarrow> MemoryStorage \<Rightarrow> ('p, 'a, 'c) RaftBehaviour" where
  "RaftBehaviour_new hov clk rnd rdy cfg st =
     (let pm = from_seeds (cfg_seed_peers cfg);
          eng = engine_new hov (clk 0) cfg st;
          evs = map (\<lambda>seed. GenerateEvent (PeerMapped (sp_peer_id seed) (sp_node_id seed))) (cfg_seed_peers cfg);
          next = next_deadline eng;
          b = \<lparr>engine = eng, b_config = cfg, peer_map = pm, connected = Map.empty, dialing = {},
               dial_backoff_until = Map.empty, pending_events = evs, next_correlation_id = 1, pending = [],
               inbound_channels = Map.empty, sleep = 0, waker = False, clock = clk, random_peer = rnd,
               sleep_ready = rdy, readings = 1\<rparr>
      in arm_sleep b next)"

text \<open>What the application reads of the behaviour, and the handler of a new connection.\<close>

definition behaviour_role :: "('p, 'a, 'c) RaftBehaviour \<Rightarrow> Role" where
  "behaviour_role b = role (engine b)"

definition behaviour_current_term :: "('p, 'a, 'c) RaftBehaviour \<Rightarrow> Term" where
  "behaviour_current_term b = engine_current_term (engine b)"

definition behaviour_leader :: "('p, 'a, 'c) RaftBehaviour \<Rightarrow> NodeId option" where
  "behaviour_leader b = leader (engine b)"

definition behaviour_commit_index :: "('p, 'a, 'c) RaftBehaviour \<Rightarrow> Index" where
  "behaviour_commit_index b = commit_index (engine b)"

definition handle_established_inbound_connection :: "('p, 'a, 'c) RaftBehaviour \<Rightarrow> 'c \<Rightarrow> 'p \<Rightarrow> 's RaftHandler" where
  "handle_established_inbound_connection b conn peer = RaftHandler_new"

definition handle_established_outbound_connection :: "('p, 'a, 'c) RaftBehaviour \<Rightarrow> 'c \<Rightarrow> 'p \<Rightarrow> 's RaftHandler" where
  "handle_established_outbound_connection b conn peer = RaftHandler_new"

lemmas behaviour_getters [simp] =
  behaviour_role_def behaviour_current_term_def behaviour_leader_def behaviour_commit_index_def

subsection \<open>Dialling\<close>

definition is_connected :: "('p, 'a, 'c) RaftBehaviour \<Rightarrow> 'p \<Rightarrow> bool" where
  "is_connected b peer = (case connected b peer of Some cs \<Rightarrow> cs \<noteq> {} | None \<Rightarrow> False)"

text \<open>\<open>str::contains\<close>.\<close>

fun str_contains :: "string \<Rightarrow> string \<Rightarrow> bool" where
  "str_contains s pat = (take (length pat) s = pat \<or> (case s of [] \<Rightarrow> False | _ # s' \<Rightarrow> str_contains s' pat))"

declare str_contains.simps [simp del]

definition is_benign_dial_error :: "string \<Rightarrow> bool" where
  "is_benign_dial_error error =
     (str_contains error ''DialPeerConditionFalse'' \<or> str_contains error ''DisconnectedAndNotDialing'' \<or>
      str_contains error ''Timeout'' \<or> str_contains error ''HostUnreachable'' \<or>
      str_contains error ''ConnectionRefused'' \<or> str_contains error ''No route to host'')"

definition dial_backoff_jitter_ms :: "('p, 'a, 'c) RaftBehaviour \<Rightarrow> 'p \<Rightarrow> u64" where
  "dial_backoff_jitter_ms b peer =
     (let target = (case pm_node_id (peer_map b) peer of Some n \<Rightarrow> n | None \<Rightarrow> 0)
      in (cfg_node_id (b_config b) * 137 + target * 89 + 31) mod 500)"

definition dial_backoff :: "('p, 'a, 'c) RaftBehaviour \<Rightarrow> 'p \<Rightarrow> ('p, 'a, 'c) RaftBehaviour" where
  "dial_backoff b peer =
     (let jitter_ms = dial_backoff_jitter_ms b peer; (b1, now) = read_now b
      in b1\<lparr>dial_backoff_until := (dial_backoff_until b1)
             (peer \<mapsto> now + 5 * 1000000000 + unat jitter_ms * 1000000)\<rparr>)"

definition dial_seed :: "('p, 'a, 'c) RaftBehaviour \<Rightarrow> 'p \<Rightarrow> ('p, 'a, 'c) RaftBehaviour" where
  "dial_seed b peer =
     (if is_connected b peer \<or> peer \<in> dialing b then b
      else
        let (b1, blocked) =
              (case dial_backoff_until b peer of
                 None \<Rightarrow> (b, False)
               | Some until \<Rightarrow> (let (b1, now) = read_now b in (b1, now < until)))
        in if blocked then b1
        else
          (case pm_node_id (peer_map b1) peer of
             None \<Rightarrow> b1
           | Some node \<Rightarrow>
               (case pm_addrs_of (peer_map b1) node of
                  None \<Rightarrow> b1
                | Some as \<Rightarrow>
                    if as = [] then b1
                    else push_event (b1\<lparr>dialing := insert peer (dialing b1)\<rparr>) (Dial peer as))))"

subsection \<open>Sending and executing actions\<close>

fun rpc_kind :: "RaftMessage \<Rightarrow> RpcKind" where
  "rpc_kind (RequestVote t c li lt) = KRequestVote"
| "rpc_kind (RequestVoteResp t g) = KRequestVote"
| "rpc_kind (AppendEntries t l pi pt es lc) = KAppendEntries"
| "rpc_kind (AppendEntriesResp t ok m) = KAppendEntries"
| "rpc_kind (InstallSnapshot t l i lt off d dn) = KInstallSnapshot"
| "rpc_kind (InstallSnapshotResp t) = KInstallSnapshot"

definition send_rpc :: "('p, 'a, 'c) RaftBehaviour \<Rightarrow> NodeId \<Rightarrow> RaftMessage \<Rightarrow> ('p, 'a, 'c) RaftBehaviour" where
  "send_rpc b dst msg =
     (let kind = rpc_kind msg in
      case pm_peer_id (peer_map b) dst of
        None \<Rightarrow>
          (let b1 = b\<lparr>engine := fst (handle_rpc_failure (engine b) dst kind)\<rparr>
           in push_event (b1\<lparr>readings := Suc (readings b1)\<rparr>)
                (GenerateEvent (RpcFailed (random_peer b1 (readings b1)) (UnknownNode dst))))
      | Some peer \<Rightarrow>
          if \<not> is_connected b peer then
            dial_seed (b\<lparr>engine := fst (handle_rpc_failure (engine b) dst kind)\<rparr>) peer
          else
            let cid = next_correlation_id b;
                b1 = b\<lparr>next_correlation_id := next_correlation_id b + 1\<rparr>;
                (b2, now) = read_now b1;
                b3 = b2\<lparr>pending := AList.update cid
                       \<lparr>pr_correlation_id = cid, pr_to = dst, pr_peer = peer, pr_kind = kind,
                        pr_sent_at = now, pr_msg = msg\<rparr> (pending b2)\<rparr>
            in push_event b3 (NotifyHandler peer Any (SendRequest cid msg)))"

fun execute_action ::
  "(NodeId \<times> u64) option \<Rightarrow> Action \<Rightarrow> ('p, 'a, 'c) RaftBehaviour \<Rightarrow> ('p, 'a, 'c) RaftBehaviour" where
  "execute_action inbound_from (Send dst msg) b =
     (case inbound_from of
        Some (src, channel_id) \<Rightarrow>
          if dst = src then
            (case inbound_channels b channel_id of
               Some ch \<Rightarrow>
                 push_event (b\<lparr>inbound_channels := (inbound_channels b)(channel_id := None)\<rparr>)
                   (NotifyHandler (ic_peer ch) (One (ic_conn ch))
                     (SendResponse channel_id (ic_correlation_id ch) msg))
             | None \<Rightarrow> send_rpc b dst msg)
          else send_rpc b dst msg
      | None \<Rightarrow> send_rpc b dst msg)"
| "execute_action inbound_from (Broadcast msg) b =
     fold (\<lambda>voter b. send_rpc b voter msg) (engine_other_voters (engine b)) b"
| "execute_action inbound_from (BecomeLeader t) b =
     push_event b (GenerateEvent (RoleChanged Leader t (Some (engine_node_id (engine b)))))"
| "execute_action inbound_from (BecomeFollower t l) b = push_event b (GenerateEvent (RoleChanged Follower t l))"
| "execute_action inbound_from (BecomeCandidate t) b = push_event b (GenerateEvent (RoleChanged Candidate t None))"
| "execute_action inbound_from (Apply es) b = push_event b (GenerateEvent (Committed es))"
| "execute_action inbound_from (SnapshotInstallComplete i) b = b"

definition execute_actions ::
  "('p, 'a, 'c) RaftBehaviour \<Rightarrow> Action list \<Rightarrow> (NodeId \<times> u64) option \<Rightarrow> ('p, 'a, 'c) RaftBehaviour" where
  "execute_actions b actions inbound_from = fold (execute_action inbound_from) actions b"

definition behaviour_propose ::
  "('p, 'a, 'c) RaftBehaviour \<Rightarrow> u8 list \<Rightarrow> ('p, 'a, 'c) RaftBehaviour \<times> (Error + Index)" where
  "behaviour_propose b data =
     (case propose (engine b) data of
        (e, Inl err) \<Rightarrow> (b\<lparr>engine := e\<rparr>, Inl (Raft err))
      | (e, Inr (index, actions)) \<Rightarrow>
          (let b1 = execute_actions (b\<lparr>engine := e\<rparr>) actions None;
               b2 = arm_sleep b1 (earliest_wake b1)
           in (b2\<lparr>waker := False\<rparr>, Inr index)))"

subsection \<open>Failing requests\<close>

definition fail_pending ::
  "('p, 'a, 'c) RaftBehaviour \<Rightarrow> u64 \<Rightarrow> string \<Rightarrow> bool \<Rightarrow> ('p, 'a, 'c) RaftBehaviour" where
  "fail_pending b cid error emit_event =
     (case map_of (pending b) cid of
        None \<Rightarrow> b
      | Some p \<Rightarrow>
          (let b1 = b\<lparr>pending := AList.delete cid (pending b)\<rparr>;
               (e, actions) = handle_rpc_failure (engine b1) (pr_to p) (pr_kind p);
               b2 = execute_actions (b1\<lparr>engine := e\<rparr>) actions None
           in if emit_event then push_event b2 (GenerateEvent (RpcFailed (pr_peer p) (Rpc error))) else b2))"

definition pending_ids :: "(u64 set \<Rightarrow> u64 list) \<Rightarrow> ('p PendingRequest \<Rightarrow> bool) \<Rightarrow> ('p, 'a, 'c) RaftBehaviour \<Rightarrow> u64 list" where
  "pending_ids ho P b =
     filter (\<lambda>id. case map_of (pending b) id of Some p \<Rightarrow> P p | None \<Rightarrow> False) (ho (set (map fst (pending b))))"

definition fail_peer_pending ::
  "(u64 set \<Rightarrow> u64 list) \<Rightarrow> ('p, 'a, 'c) RaftBehaviour \<Rightarrow> 'p \<Rightarrow> string \<Rightarrow> bool \<Rightarrow> ('p, 'a, 'c) RaftBehaviour" where
  "fail_peer_pending ho b peer error emit_event =
     fold (\<lambda>id b. fail_pending b id error emit_event) (pending_ids ho (\<lambda>p. pr_peer p = peer) b) b"

subsection \<open>NetworkBehaviour: swarm and handler events\<close>

definition handle_pending_outbound_connection :: "('p, 'a, 'c) RaftBehaviour \<Rightarrow> 'p option \<Rightarrow> 'a list" where
  "handle_pending_outbound_connection b maybe_peer =
     (case maybe_peer of
        None \<Rightarrow> []
      | Some peer \<Rightarrow>
          (case pm_node_id (peer_map b) peer of
             None \<Rightarrow> []
           | Some node \<Rightarrow> (case pm_addrs_of (peer_map b) node of Some as \<Rightarrow> as | None \<Rightarrow> [])))"

text \<open>The swarm events the code handles; \<open>DialFailure\<close> carries the debug text of its error.\<close>

datatype ('p, 'c) FromSwarm =
    ConnectionEstablished 'p 'c
  | ConnectionClosed 'p 'c
  | DialFailure "'p option" string
  | OtherSwarmEvent

fun on_swarm_event ::
  "(u64 set \<Rightarrow> u64 list) \<Rightarrow> ('p, 'a, 'c) RaftBehaviour \<Rightarrow> ('p, 'c) FromSwarm \<Rightarrow> ('p, 'a, 'c) RaftBehaviour" where
  "on_swarm_event ho b (ConnectionEstablished peer conn) =
     b\<lparr>dialing := dialing b - {peer}, dial_backoff_until := (dial_backoff_until b)(peer := None),
       connected := (connected b)(peer \<mapsto>
         insert conn (case connected b peer of Some cs \<Rightarrow> cs | None \<Rightarrow> {}))\<rparr>"
| "on_swarm_event ho b (ConnectionClosed peer conn) =
     (let b1 = (case connected b peer of
                  None \<Rightarrow> b
                | Some cs \<Rightarrow> (let cs' = cs - {conn} in
                    b\<lparr>connected := (connected b)(peer := (if cs' = {} then None else Some cs'))\<rparr>));
          b2 = b1\<lparr>dialing := dialing b1 - {peer}\<rparr>
      in if \<not> is_connected b2 peer then fail_peer_pending ho b2 peer ''connection closed'' False else b2)"
| "on_swarm_event ho b (DialFailure maybe_peer err) =
     (case maybe_peer of
        None \<Rightarrow> b
      | Some peer \<Rightarrow>
          (let b1 = b\<lparr>dialing := dialing b - {peer}\<rparr>;
               benign = is_benign_dial_error err;
               b2 = (if benign then dial_backoff b1 peer else b1);
               b3 = fail_peer_pending ho b2 peer (''dial failure: '' @ err) (\<not> benign)
           in if \<not> benign
              then push_event b3 (GenerateEvent (RpcFailed peer (Rpc (''dial failure: '' @ err))))
              else b3))"
| "on_swarm_event ho b OtherSwarmEvent = b"

definition on_connection_handler_event ::
  "('p, 'a, 'c) RaftBehaviour \<Rightarrow> 'p \<Rightarrow> 'c \<Rightarrow> ToBehaviour \<Rightarrow> ('p, 'a, 'c) RaftBehaviour" where
  "on_connection_handler_event b0 peer conn event =
     (let (b, now) = read_now b0 in
      case event of
        Request cid msg channel_id \<Rightarrow>
          (case pm_node_id (peer_map b) peer of
             None \<Rightarrow> push_event b (GenerateEvent (RpcFailed peer (Rpc ''unknown peer mapping'')))
           | Some src \<Rightarrow>
               (let b1 = b\<lparr>inbound_channels := (inbound_channels b)
                      (channel_id \<mapsto> \<lparr>ic_peer = peer, ic_conn = conn, ic_correlation_id = cid\<rparr>)\<rparr>;
                    (e, actions) = handle_rpc (engine b1) src msg now;
                    b2 = execute_actions (b1\<lparr>engine := e\<rparr>) actions (Some (src, channel_id));
                    b3 = b2\<lparr>inbound_channels := (inbound_channels b2)(channel_id := None)\<rparr>
                in arm_sleep b3 (earliest_wake b3)))
      | Response cid msg \<Rightarrow>
          (case map_of (pending b) cid of
             None \<Rightarrow> b
           | Some p \<Rightarrow>
               (let b1 = b\<lparr>pending := AList.delete cid (pending b)\<rparr>;
                    (e, actions) = handle_rpc (engine b1) (pr_to p) msg now;
                    b2 = execute_actions (b1\<lparr>engine := e\<rparr>) actions None
                in arm_sleep b2 (earliest_wake b2)))
      | Failure maybe_cid error \<Rightarrow>
          (let b1 = (case maybe_cid of
                       Some cid \<Rightarrow> fail_pending b cid error True
                     | None \<Rightarrow> push_event b (GenerateEvent (RpcFailed peer (Rpc error))))
           in arm_sleep b1 (earliest_wake b1)))"

subsection \<open>poll\<close>

text \<open>
  One pass of the loop in \<open>poll\<close>: it returns an event, reports that it is pending, or goes round again
  (the timer had fired).
\<close>

datatype ('p, 'a, 'c) PollPass = PollReady "('p, 'a, 'c) ToSwarm" | PollPending | PollAgain

definition pop_event :: "('p, 'a, 'c) RaftBehaviour \<Rightarrow> (('p, 'a, 'c) RaftBehaviour \<times> ('p, 'a, 'c) ToSwarm) option" where
  "pop_event b =
     (case pending_events b of [] \<Rightarrow> None | ev # evs \<Rightarrow> Some (b\<lparr>pending_events := evs\<rparr>, ev))"

definition expire_pending :: "(u64 set \<Rightarrow> u64 list) \<Rightarrow> ('p, 'a, 'c) RaftBehaviour \<Rightarrow> Instant \<Rightarrow> ('p, 'a, 'c) RaftBehaviour" where
  "expire_pending ho b now =
     fold (\<lambda>id b. fail_pending b id ''rpc timeout'' False)
       (pending_ids ho (\<lambda>p. now - pr_sent_at p \<ge> cfg_rpc_timeout (b_config b)) b) b"

definition tick_if_due :: "('p, 'a, 'c) RaftBehaviour \<Rightarrow> Instant \<Rightarrow> ('p, 'a, 'c) RaftBehaviour" where
  "tick_if_due b now =
     (let (e, out) = tick (engine b) now;
          b1 = execute_actions (b\<lparr>engine := e\<rparr>) (out_actions out) None
      in arm_sleep b1 (earliest_wake b1))"

definition poll_sleep :: "('p, 'a, 'c) RaftBehaviour \<Rightarrow> ('p, 'a, 'c) RaftBehaviour \<times> ('p, 'a, 'c) PollPass" where
  "poll_sleep b =
     (let b1 = b\<lparr>readings := Suc (readings b)\<rparr> in
      if sleep_ready b (readings b) then (arm_sleep b1 (earliest_wake b1), PollAgain) else (b1, PollPending))"

definition poll_pass ::
  "(u64 set \<Rightarrow> u64 list) \<Rightarrow> ('p, 'a, 'c) RaftBehaviour \<Rightarrow> ('p, 'a, 'c) RaftBehaviour \<times> ('p, 'a, 'c) PollPass" where
  "poll_pass ho b =
     (case pop_event b of
        Some (b1, ev) \<Rightarrow> (b1, PollReady ev)
      | None \<Rightarrow>
          (let (b1, now) = read_now b;
               b2 = expire_pending ho b1 now
           in case pop_event b2 of
                Some (b3, ev) \<Rightarrow> (arm_sleep b3 (earliest_wake b3), PollReady ev)
              | None \<Rightarrow>
                  if now \<ge> next_deadline (engine b2) then
                    (let b3 = tick_if_due b2 now in
                     case pop_event b3 of
                       Some (b4, ev) \<Rightarrow> (b4, PollReady ev)
                     | None \<Rightarrow> poll_sleep b3)
                  else poll_sleep b2))"

text \<open>The loop with fuel: \<open>None\<close> is a call that has not returned after that many passes.\<close>

fun poll_loop ::
  "(u64 set \<Rightarrow> u64 list) \<Rightarrow> nat \<Rightarrow> ('p, 'a, 'c) RaftBehaviour \<Rightarrow>
    (('p, 'a, 'c) RaftBehaviour \<times> ('p, 'a, 'c) ToSwarm option) option" where
  "poll_loop ho 0 b = None"
| "poll_loop ho (Suc fuel) b =
     (case poll_pass ho b of
        (b1, PollReady ev) \<Rightarrow> Some (b1, Some ev)
      | (b1, PollPending) \<Rightarrow> Some (b1, None)
      | (b1, PollAgain) \<Rightarrow> poll_loop ho fuel b1)"

definition behaviour_poll ::
  "(u64 set \<Rightarrow> u64 list) \<Rightarrow> nat \<Rightarrow> ('p, 'a, 'c) RaftBehaviour \<Rightarrow>
    (('p, 'a, 'c) RaftBehaviour \<times> ('p, 'a, 'c) ToSwarm option) option" where
  "behaviour_poll ho fuel b = poll_loop ho fuel (b\<lparr>waker := True\<rparr>)"

text \<open>The definitions by which a concrete run of the behaviour is evaluated, like \<open>engine_eval\<close>.\<close>

lemmas behaviour_eval = engine_eval RaftBehaviour_new_def arm_sleep_def read_now_def push_event_def
  from_seeds_def pm_insert_def PeerMap_default_def pm_peer_id_def pm_node_id_def pm_addrs_of_def
  poll_pass_def pop_event_def expire_pending_def pending_ids_def tick_if_due_def poll_sleep_def earliest_wake_def
  execute_actions_def send_rpc_def dial_seed_def is_connected_def fail_pending_def fail_peer_pending_def
  on_connection_handler_event_def behaviour_propose_def

end
