(* ===== verification/BehaviourProps.thy ===== *)
theory BehaviourProps
  imports Behaviour
begin

text \<open>
  Properties of the behaviour: requests are answered on the channel they came in on, a peer that is not
  connected is dialled at most once, requests that time out are forgotten, an AppendEntries marked as in
  flight always has a pending request behind it, and how \<open>poll\<close> returns.
\<close>

subsection \<open>Frames\<close>

lemma read_now_simps [simp]:
  "fst (read_now b) = b\<lparr>readings := Suc (readings b)\<rparr>" "snd (read_now b) = clock b (readings b)"
  by (simp_all add: read_now_def)

text \<open>What sending does to the engine: it may clear in-flight marks, nothing else.\<close>

definition marks_cleared :: "('p, 'a) RaftEngine \<Rightarrow> ('p, 'a) RaftEngine \<Rightarrow> bool" where
  "marks_cleared e e' \<longleftrightarrow> (\<exists>F. F \<subseteq> ae_inflight e \<and> e' = e\<lparr>ae_inflight := F\<rparr>)"

lemma marks_cleared_refl [simp, intro]: "marks_cleared e e"
  unfolding marks_cleared_def by (rule exI [of _ "ae_inflight e"]) simp

lemma marks_cleared_trans:
  assumes "marks_cleared a b" "marks_cleared b c"
  shows "marks_cleared a c"
proof -
  obtain F G where "F \<subseteq> ae_inflight a" "b = a\<lparr>ae_inflight := F\<rparr>" "G \<subseteq> ae_inflight b" "c = b\<lparr>ae_inflight := G\<rparr>"
    using assms unfolding marks_cleared_def by blast
  then have "G \<subseteq> ae_inflight a \<and> c = a\<lparr>ae_inflight := G\<rparr>" by auto
  then show ?thesis unfolding marks_cleared_def by blast
qed

lemma marks_cleared_sel:
  assumes "marks_cleared e e'"
  shows "role e' = role e" "engine_current_term e' = engine_current_term e" "storage e' = storage e"
    "ae_inflight e' \<subseteq> ae_inflight e" "config e' = config e" "membership e' = membership e"
    "next_deadline e' = next_deadline e" "engine_other_voters e' = engine_other_voters e"
  using assms
  by (auto simp: marks_cleared_def engine_current_term_def next_deadline_def engine_other_voters_def split: Role.split)

lemma handle_rpc_failure_cleared: "marks_cleared e (fst (handle_rpc_failure e p k))"
proof (cases "k = KAppendEntries")
  case True
  then show ?thesis unfolding marks_cleared_def handle_rpc_failure_def
    by (intro exI [of _ "ae_inflight e - {p}"]) simp
qed (simp add: handle_rpc_failure_def)

lemma handle_rpc_failure_actions [simp]: "snd (handle_rpc_failure e p k) = []"
  by (simp add: handle_rpc_failure_def)

lemma push_event_sel [simp]:
  "engine (push_event b ev) = engine b" "b_config (push_event b ev) = b_config b"
  "peer_map (push_event b ev) = peer_map b" "connected (push_event b ev) = connected b"
  "dialing (push_event b ev) = dialing b" "dial_backoff_until (push_event b ev) = dial_backoff_until b"
  "pending_events (push_event b ev) = pending_events b @ [ev]"
  "next_correlation_id (push_event b ev) = next_correlation_id b" "pending (push_event b ev) = pending b"
  "inbound_channels (push_event b ev) = inbound_channels b" "clock (push_event b ev) = clock b"
  "readings (push_event b ev) = readings b" "sleep_ready (push_event b ev) = sleep_ready b"
  "sleep (push_event b ev) = sleep b" "waker (push_event b ev) = waker b"
  by (simp_all add: push_event_def)

lemma arm_sleep_sel [simp]:
  "engine (arm_sleep b d) = engine b" "b_config (arm_sleep b d) = b_config b"
  "peer_map (arm_sleep b d) = peer_map b" "connected (arm_sleep b d) = connected b"
  "dialing (arm_sleep b d) = dialing b" "dial_backoff_until (arm_sleep b d) = dial_backoff_until b"
  "pending_events (arm_sleep b d) = pending_events b"
  "next_correlation_id (arm_sleep b d) = next_correlation_id b" "pending (arm_sleep b d) = pending b"
  "inbound_channels (arm_sleep b d) = inbound_channels b" "clock (arm_sleep b d) = clock b"
  "sleep_ready (arm_sleep b d) = sleep_ready b" "readings (arm_sleep b d) = Suc (readings b)"
  "sleep (arm_sleep b d) = d - clock b (readings b)" "waker (arm_sleep b d) = waker b"
  by (simp_all add: arm_sleep_def Let_def case_prod_unfold)

lemma dial_seed_sel [simp]:
  "engine (dial_seed b p) = engine b" "b_config (dial_seed b p) = b_config b"
  "peer_map (dial_seed b p) = peer_map b" "connected (dial_seed b p) = connected b"
  "next_correlation_id (dial_seed b p) = next_correlation_id b" "pending (dial_seed b p) = pending b"
  "inbound_channels (dial_seed b p) = inbound_channels b" "clock (dial_seed b p) = clock b"
  "sleep_ready (dial_seed b p) = sleep_ready b" "waker (dial_seed b p) = waker b"
  by (simp_all add: dial_seed_def Let_def case_prod_unfold split: option.split)

lemma dial_seed_readings: "readings b \<le> readings (dial_seed b p)"
  by (simp add: dial_seed_def Let_def case_prod_unfold split: option.split)

lemma send_rpc_frame [simp]:
  "b_config (send_rpc b d m) = b_config b" "peer_map (send_rpc b d m) = peer_map b"
  "connected (send_rpc b d m) = connected b" "inbound_channels (send_rpc b d m) = inbound_channels b"
  "clock (send_rpc b d m) = clock b" "sleep_ready (send_rpc b d m) = sleep_ready b"
  "waker (send_rpc b d m) = waker b"
  by (simp_all add: send_rpc_def Let_def case_prod_unfold split: option.split)

lemma send_rpc_readings: "readings b \<le> readings (send_rpc b d m)"
  using dial_seed_readings [of "b\<lparr>engine := e\<rparr>" for e]
  by (auto simp: send_rpc_def Let_def case_prod_unfold split: option.split)

lemma send_rpc_engine: "marks_cleared (engine b) (engine (send_rpc b d m))"
  by (auto simp: send_rpc_def Let_def case_prod_unfold handle_rpc_failure_cleared split: option.split)

lemma send_all_frame [simp]:
  "b_config (fold (\<lambda>v b. send_rpc b v m) vs b) = b_config b"
  "peer_map (fold (\<lambda>v b. send_rpc b v m) vs b) = peer_map b"
  "connected (fold (\<lambda>v b. send_rpc b v m) vs b) = connected b"
  "inbound_channels (fold (\<lambda>v b. send_rpc b v m) vs b) = inbound_channels b"
  "clock (fold (\<lambda>v b. send_rpc b v m) vs b) = clock b"
  "sleep_ready (fold (\<lambda>v b. send_rpc b v m) vs b) = sleep_ready b"
  "waker (fold (\<lambda>v b. send_rpc b v m) vs b) = waker b"
  by (induction vs arbitrary: b) simp_all

lemma send_all_readings: "readings b \<le> readings (fold (\<lambda>v b. send_rpc b v m) vs b)"
  by (induction vs arbitrary: b) (auto intro: order_trans [OF send_rpc_readings])

lemma send_all_engine: "marks_cleared (engine b) (engine (fold (\<lambda>v b. send_rpc b v m) vs b))"
  by (induction vs arbitrary: b) (auto intro: marks_cleared_trans [OF send_rpc_engine])

lemma execute_action_frame [simp]:
  "b_config (execute_action inb a b) = b_config b" "peer_map (execute_action inb a b) = peer_map b"
  "connected (execute_action inb a b) = connected b" "clock (execute_action inb a b) = clock b"
  "sleep_ready (execute_action inb a b) = sleep_ready b" "waker (execute_action inb a b) = waker b"
  by (cases a; simp split: option.split)+

lemma execute_action_readings: "readings b \<le> readings (execute_action inb a b)"
  by (cases a) (auto simp: send_rpc_readings send_all_readings split: option.split)

lemma execute_action_engine: "marks_cleared (engine b) (engine (execute_action inb a b))"
  by (cases a) (auto simp: send_rpc_engine send_all_engine split: option.split)

lemma execute_actions_simps [simp]:
  "execute_actions b [] inb = b"
  "execute_actions b (a # as) inb = execute_actions (execute_action inb a b) as inb"
  "execute_actions b (as @ bs) inb = execute_actions (execute_actions b as inb) bs inb"
  by (simp_all add: execute_actions_def)

lemma execute_actions_frame [simp]:
  "b_config (execute_actions b as inb) = b_config b" "peer_map (execute_actions b as inb) = peer_map b"
  "connected (execute_actions b as inb) = connected b" "clock (execute_actions b as inb) = clock b"
  "sleep_ready (execute_actions b as inb) = sleep_ready b" "waker (execute_actions b as inb) = waker b"
  by (induction as arbitrary: b) simp_all

lemma execute_actions_readings: "readings b \<le> readings (execute_actions b as inb)"
  by (induction as arbitrary: b) (auto intro: order_trans [OF execute_action_readings])

lemma execute_actions_engine: "marks_cleared (engine b) (engine (execute_actions b as inb))"
  by (induction as arbitrary: b) (auto intro: marks_cleared_trans [OF execute_action_engine])

lemma fail_pending_frame [simp]:
  "b_config (fail_pending b c e emit) = b_config b" "peer_map (fail_pending b c e emit) = peer_map b"
  "connected (fail_pending b c e emit) = connected b" "clock (fail_pending b c e emit) = clock b"
  "sleep_ready (fail_pending b c e emit) = sleep_ready b" "readings (fail_pending b c e emit) = readings b"
  "pending (fail_pending b c e emit) = AList.delete c (pending b)"
  "next_correlation_id (fail_pending b c e emit) = next_correlation_id b"
  "inbound_channels (fail_pending b c e emit) = inbound_channels b"
  by (simp_all add: fail_pending_def Let_def case_prod_unfold delete_conv' map_of_eq_None_iff split: option.split)

subsection \<open>Answering requests\<close>

text \<open>The engine answers a vote or append request with one response to the sender, as its last action.\<close>

fun is_request :: "RaftMessage \<Rightarrow> bool" where
  "is_request (RequestVote t c li lt) = True"
| "is_request (AppendEntries t l pi pt es lc) = True"
| "is_request _ = False"

fun is_response :: "RaftMessage \<Rightarrow> bool" where
  "is_response (RequestVoteResp t g) = True"
| "is_response (AppendEntriesResp t ok m) = True"
| "is_response _ = False"

fun is_local :: "Action \<Rightarrow> bool" where
  "is_local (Apply es) = True"
| "is_local (BecomeFollower t l) = True"
| "is_local _ = False"

lemma request_actions:
  assumes "is_request msg"
  shows "\<exists>as resp. snd (handle_rpc e src msg now) = as @ [Send src resp] \<and> (\<forall>a \<in> set as. is_local a) \<and> is_response resp"
proof (cases msg)
  case (RequestVote t c li lt)
  then show ?thesis
    by (intro exI [of _ "if engine_current_term e < t then [BecomeFollower t None] else []"] exI)
      (auto simp: handle_request_vote_spec)
next
  case (AppendEntries t l pi pt es lc)
  have adv: "\<exists>new. snd (advance_commit_and_apply x c n as) = as @ new \<and> (\<forall>a \<in> set new. is_local a)" for x :: "('a, 'b) RaftEngine" and c n as
    using advance_commit_actions [of x c n as] by (metis is_local.simps(1))
  show ?thesis
  proof (cases "t < engine_current_term e")
    case True
    then show ?thesis using AppendEntries by (simp add: append_entries_stale)
  next
    case False
    then have le: "engine_current_term e \<le> t" by simp
    have n: "\<forall>a \<in> set (ae_notice e t l). is_local a" by (simp add: ae_notice_def)
    let ?e2 = "(ae_follow e t l now)\<lparr>storage := store_entries (storage (ae_follow e t l now)) pi es\<rparr>"
    obtain new where new: "snd (advance_commit_and_apply ?e2 lc (pi + of_nat (length es)) (ae_notice e t l)) =
        ae_notice e t l @ new" "\<forall>a \<in> set new. is_local a"
      using adv by blast
    show ?thesis
    proof (cases "prev_log_ok (storage e) pi pt")
      case True
      then have "snd (handle_rpc e src msg now) =
          (ae_notice e t l @ new) @ [Send src (AppendEntriesResp t True (pi + of_nat (length es)))]"
        using AppendEntries new(1) by (simp add: append_entries_current [OF le] Let_def case_prod_unfold)
      then show ?thesis using n new(2) by (metis (no_types) UnE is_response.simps(2) set_append)
    next
      case False
      then show ?thesis using AppendEntries n by (simp add: append_entries_reject [OF le])
    qed
  qed
qed (use assms in simp_all)

text \<open>Local actions only queue events for the application.\<close>

lemma execute_local:
  assumes "\<forall>a \<in> set as. is_local a"
  shows "\<exists>evs. execute_actions b as inb = b\<lparr>pending_events := pending_events b @ map GenerateEvent evs\<rparr>"
  using assms
proof (induction as arbitrary: b)
  case Nil
  then show ?case by (intro exI [of _ "[]"]) simp
next
  case (Cons a as)
  obtain ev where ev: "execute_action inb a b = push_event b (GenerateEvent ev)"
    using Cons.prems by (cases a) auto
  obtain evs where "execute_actions (push_event b (GenerateEvent ev)) as inb =
      (push_event b (GenerateEvent ev))\<lparr>pending_events := pending_events (push_event b (GenerateEvent ev)) @ map GenerateEvent evs\<rparr>"
    using Cons by (meson list.set_intros(2))
  then show ?case
    by (intro exI [of _ "ev # evs"]) (simp add: ev push_event_def)
qed

lemma request_answered:
  assumes "pm_node_id (peer_map b) peer = Some src" "is_request msg"
  shows "let b' = on_connection_handler_event b peer conn (Request cid msg ch) in
    (\<exists>evs resp. is_response resp \<and> pending_events b' = pending_events b @ map GenerateEvent evs @
       [NotifyHandler peer (One conn) (SendResponse ch cid resp)]) \<and>
    inbound_channels b' = (inbound_channels b)(ch := None) \<and> pending b' = pending b \<and>
    engine b' = fst (handle_rpc (engine b) src msg (clock b (readings b)))"
proof -
  let ?now = "clock b (readings b)"
  obtain as resp where as: "snd (handle_rpc (engine b) src msg ?now) = as @ [Send src resp]"
      "\<forall>a \<in> set as. is_local a" "is_response resp"
    using request_actions [OF assms(2)] by blast
  let ?b1 = "b\<lparr>readings := Suc (readings b), inbound_channels := (inbound_channels b)
      (ch \<mapsto> \<lparr>ic_peer = peer, ic_conn = conn, ic_correlation_id = cid\<rparr>),
      engine := fst (handle_rpc (engine b) src msg ?now)\<rparr>"
  obtain evs where evs: "execute_actions ?b1 as (Some (src, ch)) =
      ?b1\<lparr>pending_events := pending_events ?b1 @ map GenerateEvent evs\<rparr>"
    using execute_local [OF as(2)] by blast
  have "execute_actions ?b1 (as @ [Send src resp]) (Some (src, ch)) =
      push_event (?b1\<lparr>pending_events := pending_events b @ map GenerateEvent evs,
        inbound_channels := (inbound_channels b)(ch := None)\<rparr>)
        (NotifyHandler peer (One conn) (SendResponse ch cid resp))"
    by (simp only: execute_actions_simps evs) simp
  then show ?thesis
    using assms(1) as(1,3)
    by (auto simp: on_connection_handler_event_def Let_def case_prod_unfold simp del: execute_actions_simps)
qed

text \<open>
  C26: A vote or append request from a known peer is answered exactly once, on the connection and channel
  it came in on and with its correlation id; apart from that answer only events for the application
  are queued, nothing is sent to other peers, and no inbound channel is left behind.
\<close>

theorem request_answered_once:
  assumes "pm_node_id (peer_map b) peer = Some src" "is_request msg"
  shows "let b' = on_connection_handler_event b peer conn (Request cid msg ch) in
    (\<exists>evs resp. is_response resp \<and> pending_events b' = pending_events b @ map GenerateEvent evs @
       [NotifyHandler peer (One conn) (SendResponse ch cid resp)]) \<and>
    inbound_channels b' = (inbound_channels b)(ch := None) \<and> pending b' = pending b \<and>
    engine b' = fst (handle_rpc (engine b) src msg (clock b (readings b)))"
  using assms by (rule request_answered)

text \<open>
  A concrete node 1 with the seeds 2 and 3, whose clock shows the number of readings and whose sleep is
  never ready; \<open>demo_linked\<close> is connected to peer 102 (node 2).
\<close>

definition demo_node_config :: "(nat, nat) RaftConfig" where
  "demo_node_config =
     \<lparr>cfg_node_id = 1, cfg_voters = [1, 2, 3], cfg_seed_peers = [demo_seed 2, demo_seed 3],
      cfg_election_timeout = 15, cfg_election_jitter = 0, cfg_heartbeat_interval = 5, cfg_rpc_timeout = 10,
      cfg_rpc_max_retries = 0, cfg_snapshot_threshold = 10000\<rparr>"

definition demo_node :: "(nat, nat, nat) RaftBehaviour" where
  "demo_node = RaftBehaviour_new sorted_list_of_set (\<lambda>i. i) (\<lambda>i. 0) (\<lambda>i. False) demo_node_config MemoryStorage_new"

definition demo_linked :: "(nat, nat, nat) RaftBehaviour" where
  "demo_linked = (on_swarm_event sorted_list_of_set demo_node (ConnectionEstablished 102 7))\<lparr>pending_events := []\<rparr>"

lemmas demo_eval = behaviour_eval demo_linked_def demo_node_def demo_node_config_def demo_seed_def

theorem request_answered_once_witness:
  "\<exists>evs resp. pending_events (on_connection_handler_event demo_linked 102 7 (Request 9 (RequestVote 1 2 0 0) 4)) =
     map GenerateEvent evs @ [NotifyHandler 102 (One 7) (SendResponse 4 9 resp)]"
proof -
  have "pm_node_id (peer_map demo_linked) 102 = Some 2" "pending_events demo_linked = []" by (simp_all add: demo_eval cong: let_weak_cong)
  with request_answered_once [of demo_linked 102 2 "RequestVote 1 2 0 0" 7 9 4] show ?thesis
    by (auto simp: Let_def)
qed

text \<open>
  A request the engine does not handle (\<open>InstallSnapshot\<close>) gets no answer at all: the behaviour forgets
  the channel and tells the handler nothing, so nothing releases the task that waits there for
  the response.
\<close>

lemma snapshot_request_unanswered:
  assumes "pm_node_id (peer_map b) peer = Some src"
  shows "let b' = on_connection_handler_event b peer conn (Request cid (InstallSnapshot t l li lt off d dn) ch)
    in pending_events b' = pending_events b \<and> engine b' = engine b \<and>
      inbound_channels b' = (inbound_channels b)(ch := None)"
  using assms by (simp add: on_connection_handler_event_def Let_def case_prod_unfold)

lemma snapshot_request_unanswered_witness:
  "pending_events (on_connection_handler_event demo_linked 102 7 (Request 9 (InstallSnapshot 1 2 0 0 0 [] True) 4)) = []"
proof -
  have "pm_node_id (peer_map demo_linked) 102 = Some 2" "pending_events demo_linked = []" by (simp_all add: demo_eval cong: let_weak_cong)
  with snapshot_request_unanswered [of demo_linked 102 2 7 9 1 2 0 0 0 "[]" True 4] show ?thesis
    by (simp add: Let_def)
qed

text \<open>
  C35: When writing an answer fails, the handler reports the correlation id of the peer's request, and the
  behaviour takes it for one of its own: if a request of this node with the same number is pending, to
  whatever node, it is failed in place of it (its in-flight mark is cleared and the application is told
  that an RPC to its peer failed).
\<close>

theorem answer_failure_hits_own_request:
  assumes "oneshots h ! rx = Sent c m" "wr s \<lparr>correlation_id = c, env_msg = m\<rparr> = Inl err"
    and "map_of (pending b) cid = Some p"
  shows "task_outcome wr rd (oneshots h) (InboundWriteIo s ch cid rx) = Some (Failed (Some cid) err) \<and>
    (let b' = on_connection_handler_event b peer conn (Failure (Some cid) err) in
       map_of (pending b') cid = None \<and>
       pending_events b' = pending_events b @ [GenerateEvent (RpcFailed (pr_peer p) (Rpc err))] \<and>
       engine b' = fst (handle_rpc_failure (engine b) (pr_to p) (pr_kind p)))"
  using assms
  by (simp add: on_connection_handler_event_def Let_def case_prod_unfold fail_pending_def delete_conv')

theorem answer_failure_hits_own_request_witness:
  "let b = send_rpc demo_linked 2 (RequestVote 1 1 0 0) in
   pending_events (on_connection_handler_event b 103 8 (Failure (Some 1) ''reset'')) =
     pending_events b @ [GenerateEvent (RpcFailed 102 (Rpc ''reset''))]"
proof -
  let ?b = "send_rpc demo_linked 2 (RequestVote 1 1 0 0)"
  let ?p = "\<lparr>pr_correlation_id = 1, pr_to = 2, pr_peer = 102, pr_kind = KRequestVote, pr_sent_at = 2,
    pr_msg = RequestVote 1 1 0 0\<rparr>"
  have p: "map_of (pending ?b) 1 = Some ?p" by (simp add: demo_eval cong: let_weak_cong)
  let ?h = "RaftHandler_new\<lparr>oneshots := [Sent 1 (RequestVoteResp 1 False)]\<rparr> :: nat RaftHandler"
  have "oneshots ?h ! 0 = Sent 1 (RequestVoteResp 1 False)" by simp
  from answer_failure_hits_own_request [OF this _ p, of "\<lambda>s e. Inl ''reset''" 11 "''reset''" demo_read 1 103 8]
  show ?thesis by (simp add: Let_def)
qed

subsection \<open>Peers that are not connected\<close>

text \<open>
  A message for a peer that is not connected is dropped without an error event and without a pending
  request; an AppendEntries loses its in-flight mark, so a later heartbeat tries again; and the peer is
  dialled at most once: only if no dial is running and the back-off after the last failure is over.
\<close>

lemma unconnected_peer_dialled_once:
  assumes "pm_peer_id (peer_map b) dst = Some peer" "\<not> is_connected b peer"
  shows "let b' = send_rpc b dst msg in
    pending b' = pending b \<and> next_correlation_id b' = next_correlation_id b \<and>
    (rpc_kind msg = KAppendEntries \<longrightarrow> dst \<notin> ae_inflight (engine b')) \<and>
    (pending_events b' = pending_events b \<and> dialing b' = dialing b \<or>
     (\<exists>as. as \<noteq> [] \<and> pending_events b' = pending_events b @ [Dial peer as]) \<and> peer \<notin> dialing b \<and>
     dialing b' = insert peer (dialing b) \<and>
     (\<forall>until. dial_backoff_until b peer = Some until \<longrightarrow> until \<le> clock b (readings b)))"
proof -
  have d: "(pending_events (dial_seed x peer) = pending_events x \<and> dialing (dial_seed x peer) = dialing x) \<or>
     ((\<exists>as. as \<noteq> [] \<and> pending_events (dial_seed x peer) = pending_events x @ [Dial peer as]) \<and> peer \<notin> dialing x \<and>
     dialing (dial_seed x peer) = insert peer (dialing x) \<and>
     (\<forall>until. dial_backoff_until x peer = Some until \<longrightarrow> until \<le> clock x (readings x)))"
    for x :: "('a, 'b, 'c) RaftBehaviour"
    by (auto simp: dial_seed_def Let_def case_prod_unfold split: option.split)
  show ?thesis
    using assms d [of "b\<lparr>engine := fst (handle_rpc_failure (engine b) dst (rpc_kind msg))\<rparr>"]
    by (simp add: send_rpc_def Let_def) (simp add: handle_rpc_failure_def)
qed

lemma unconnected_peer_dialled_once_witness:
  "let b = send_rpc demo_linked 3 (RequestVote 1 1 0 0) in
   pending b = [] \<and> pending_events b = [Dial 103 [4003]] \<and>
   pending_events (send_rpc b 3 (RequestVote 2 1 0 0)) = [Dial 103 [4003]]"
proof -
  let ?b = "send_rpc demo_linked 3 (RequestVote 1 1 0 0)"
  have "pm_peer_id (peer_map demo_linked) 3 = Some 103" "\<not> is_connected demo_linked 103"
    "pm_peer_id (peer_map ?b) 3 = Some 103" "\<not> is_connected ?b 103" "103 \<in> dialing ?b"
    "pending_events ?b = [Dial 103 [4003]]" "pending demo_linked = []"
    by (simp_all add: demo_eval cong: let_weak_cong)
  with unconnected_peer_dialled_once [of demo_linked 3 103 "RequestVote 1 1 0 0"]
    unconnected_peer_dialled_once [of ?b 3 103 "RequestVote 2 1 0 0"]
  show ?thesis unfolding Let_def by auto
qed

end
