(* ===== verification/BehaviourInv.thy ===== *)
theory BehaviourInv
  imports BehaviourProps
begin

text \<open>
  The pipeline marks of a leader and the pending requests of its behaviour: every AppendEntries the engine
  believes to be in flight is a pending request, in every state the behaviour reaches. With the expiry of
  pending requests this bounds how long a mark can block a peer.
\<close>

subsection \<open>The engine's marks\<close>

abbreviation sends_ae :: "Action list \<Rightarrow> NodeId \<Rightarrow> Term \<Rightarrow> bool" where
  "sends_ae as p t \<equiv> \<exists>l pi pt es lc. Send p (AppendEntries t l pi pt es lc) \<in> set as"

abbreviation marks_known :: "('p, 'a) RaftEngine \<Rightarrow> bool" where
  "marks_known e \<equiv> ae_inflight e \<subseteq> dom (last_ae e)"

lemma send_marks:
  assumes "p \<in> ae_inflight (fst (send_append_entries_to e q))"
  shows "p \<in> ae_inflight e \<or>
    (\<exists>l pi pt es lc. snd (send_append_entries_to e q) = Some (Send p (AppendEntries (engine_current_term e) l pi pt es lc)))"
proof (cases "q \<in> ae_inflight e \<or> build_append_entries e q = None")
  case True
  then show ?thesis using assms by (auto simp: send_append_entries_to_def)
next
  case False
  then obtain msg prev n where b: "build_append_entries e q = Some (msg, prev, n)" "q \<notin> ae_inflight e" by auto
  from build_append_entries_Some [OF b(1)] assms b show ?thesis by (auto simp: send_append_entries_to_def)
qed

lemma send_marks_known: "marks_known e \<Longrightarrow> marks_known (fst (send_append_entries_to e q))"
  by (auto simp: send_append_entries_to_def split: option.split)

lemma replicate_marks:
  "p \<in> ae_inflight (fst (replicate_to e ps)) \<Longrightarrow>
    p \<in> ae_inflight e \<or> sends_ae (snd (replicate_to e ps)) p (engine_current_term e)"
proof (induction ps arbitrary: e)
  case (Cons q ps)
  let ?e = "fst (send_append_entries_to e q)"
  have t: "engine_current_term ?e = engine_current_term e" by (simp add: engine_current_term_def)
  from Cons.prems have "p \<in> ae_inflight (fst (replicate_to ?e ps))" by (simp add: Let_def case_prod_unfold)
  from Cons.IH [OF this] show ?case
  proof
    assume "p \<in> ae_inflight ?e"
    from send_marks [OF this] show ?thesis
    proof (elim disjE exE)
      fix l pi pt es lc
      assume "snd (send_append_entries_to e q) = Some (Send p (AppendEntries (engine_current_term e) l pi pt es lc))"
      then have "Send p (AppendEntries (engine_current_term e) l pi pt es lc) \<in> set (snd (replicate_to e (q # ps)))"
        by (simp add: Let_def case_prod_unfold)
      then show ?thesis by blast
    qed simp
  next
    assume "sends_ae (snd (replicate_to ?e ps)) p (engine_current_term ?e)"
    then show ?thesis unfolding t by (auto simp: Let_def case_prod_unfold split: option.split)
  qed
qed simp

lemma replicate_marks_known: "marks_known e \<Longrightarrow> marks_known (fst (replicate_to e ps))"
  by (induction ps arbitrary: e) (simp_all add: Let_def case_prod_unfold send_marks_known)

text \<open>
  One call of the engine: a mark a leader has afterwards was there before, in the same term, or comes
  with an AppendEntries among the actions; an answer in the current term from a marked peer leaves a mark
  only together with a new AppendEntries.
\<close>

definition marks_step :: "('p, 'a) RaftEngine \<Rightarrow> ('p, 'a) RaftEngine \<Rightarrow> Action list \<Rightarrow> bool" where
  "marks_step e e' as \<longleftrightarrow> (role e' = Leader \<longrightarrow>
     ((role e = Leader \<longrightarrow> marks_known e) \<longrightarrow> marks_known e') \<and>
     (\<forall>p \<in> ae_inflight e'. p \<in> ae_inflight e \<and> role e = Leader \<and> engine_current_term e' = engine_current_term e \<or>
        sends_ae as p (engine_current_term e')))"

lemma marks_step_refl [simp]: "marks_step e e as"
  by (simp add: marks_step_def)

lemma marks_step_follower: "role e' \<noteq> Leader \<Longrightarrow> marks_step e e' as"
  by (simp add: marks_step_def)

lemma marks_step_replicate:
  assumes "role e = Leader" "ae_inflight e = ae_inflight e0" "last_ae e = last_ae e0" "role e0 = Leader"
    "engine_current_term e = engine_current_term e0"
  shows "marks_step e0 (fst (replicate_actions e)\<lparr>heartbeat_deadline := d\<rparr>) (snd (replicate_actions e))"
    and "marks_step e0 (fst (replicate_actions e)) (snd (replicate_actions e))"
proof -
  have t: "engine_current_term (fst (replicate_actions e)) = engine_current_term e"
    by (simp add: engine_current_term_def)
  then have t': "engine_current_term (fst (replicate_actions e)\<lparr>heartbeat_deadline := d\<rparr>) = engine_current_term e"
    by (simp add: engine_current_term_def)
  show "marks_step e0 (fst (replicate_actions e)\<lparr>heartbeat_deadline := d\<rparr>) (snd (replicate_actions e))"
    "marks_step e0 (fst (replicate_actions e)) (snd (replicate_actions e))"
    using assms replicate_marks [of _ e "engine_other_voters e"] replicate_marks_known [of e "engine_other_voters e"]
    unfolding marks_step_def t t' by (auto simp: replicate_actions_def)
qed

lemma tick_marks: "marks_step e (fst (tick e now)) (out_actions (snd (tick e now)))"
proof (cases "role e")
  case Leader
  then show ?thesis using marks_step_replicate(1) [OF Leader refl refl Leader refl]
    by (auto simp: tick_def Let_def case_prod_unfold)
qed (auto simp: tick_def Let_def case_prod_unfold intro: marks_step_follower)

lemma propose_marks:
  "marks_step e (fst (propose e d)) (case snd (propose e d) of Inr (_, as) \<Rightarrow> as | Inl _ \<Rightarrow> [])"
proof (cases "role e = Leader")
  case True
  have "marks_step e (fst (replicate_actions (with_entry e (proposed e d)))) (snd (replicate_actions (with_entry e (proposed e d))))"
    using True by (intro marks_step_replicate(2)) simp_all
  with True show ?thesis by (simp add: propose_unfold)
qed (simp add: propose_unfold)

lemma request_vote_resp_marks:
  "marks_step e (fst (handle_request_vote_resp e s t g now)) (snd (handle_request_vote_resp e s t g now))"
  by (auto simp: handle_request_vote_resp_def Let_def marks_step_def)

lemma append_entries_resp_marks:
  fixes e :: "('p, 'a) RaftEngine"
  shows "marks_step e (fst (handle_append_entries_resp e s t ok m now)) (snd (handle_append_entries_resp e s t ok m now))"
    and "role (fst (handle_append_entries_resp e s t ok m now)) = Leader \<Longrightarrow> engine_current_term e \<le> t \<Longrightarrow>
      marks_known e \<Longrightarrow> s \<in> ae_inflight (fst (handle_append_entries_resp e s t ok m now)) \<Longrightarrow>
      sends_ae (snd (handle_append_entries_resp e s t ok m now)) s (engine_current_term e)"
proof -
  let ?r = "handle_append_entries_resp e s t ok m now"
  have sent: "marks_step e (fst (send_append_entries_to x s)) (push_opt as (snd (send_append_entries_to x s))) \<and>
      (s \<in> ae_inflight (fst (send_append_entries_to x s)) \<longrightarrow>
        sends_ae (push_opt as (snd (send_append_entries_to x s))) s (engine_current_term e))"
    if x: "role e = Leader" "ae_inflight x = ae_inflight e - {s}" "last_ae x = last_ae e" "storage x = storage e"
    for x :: "('p, 'a) RaftEngine" and as
  proof -
    have t: "engine_current_term x = engine_current_term e" using x(4) by (simp add: engine_current_term_def)
    have t': "engine_current_term (fst (send_append_entries_to x s)) = engine_current_term e"
      using x(4) by (simp add: engine_current_term_def)
    have known: "marks_known e \<Longrightarrow> marks_known (fst (send_append_entries_to x s))"
      using x(2,3) by (intro send_marks_known) auto
    have marks: "p \<in> ae_inflight e - {s} \<or> sends_ae (push_opt as (snd (send_append_entries_to x s))) p (engine_current_term e)"
      if "p \<in> ae_inflight (fst (send_append_entries_to x s))" for p
      using send_marks [OF that] x(2) unfolding t
    proof (elim disjE exE)
      fix l pi pt es lc
      assume "snd (send_append_entries_to x s) = Some (Send p (AppendEntries (engine_current_term e) l pi pt es lc))"
      then have "Send p (AppendEntries (engine_current_term e) l pi pt es lc) \<in>
          set (push_opt as (snd (send_append_entries_to x s)))"
        by simp
      then show ?thesis by blast
    qed simp
    show ?thesis unfolding marks_step_def t' using x(1) known marks by blast
  qed
  have plain: "marks_step e x as \<and> s \<notin> ae_inflight x"
    if "role e = Leader" "ae_inflight x = ae_inflight e - {s}" "last_ae x = last_ae e" "storage x = storage e"
    for x :: "('p, 'a) RaftEngine" and as
    using that by (auto simp: marks_step_def engine_current_term_def)
  have both: "marks_step e (fst ?r) (snd ?r) \<and>
      (role (fst ?r) = Leader \<longrightarrow> engine_current_term e \<le> t \<longrightarrow> marks_known e \<longrightarrow> s \<in> ae_inflight (fst ?r) \<longrightarrow>
        sends_ae (snd ?r) s (engine_current_term e))"
  proof (cases "role e = Leader \<and> t = engine_current_term e \<and> last_ae e s \<noteq> None")
    case False
    then consider (new) "engine_current_term e < t"
      | (drop) "t \<le> engine_current_term e" "role e \<noteq> Leader \<or> t \<noteq> engine_current_term e"
      | (none) "t = engine_current_term e" "role e = Leader" "last_ae e s = None"
      by fastforce
    then show ?thesis
    proof cases
      case new
      then have "role (fst ?r) = Follower" by (rule append_entries_resp_role)
      then show ?thesis by (simp add: marks_step_def)
    next
      case drop
      then have "?r = (e, [])" by (auto simp: handle_append_entries_resp_def Let_def)
      then show ?thesis using drop by auto
    next
      case none
      then have "?r = (e, [])" by (simp add: handle_append_entries_resp_def Let_def)
      then show ?thesis using none(3) by auto
    qed
  next
    case True
    then obtain i k where l: "role e = Leader" "t = engine_current_term e" "last_ae e s = Some (i, k)" by auto
    have unfolded: "\<exists>x as. ?r = (x, as) \<and> ae_inflight x = ae_inflight e - {s} \<and> last_ae x = last_ae e \<and> storage x = storage e \<or>
        ?r = (fst (send_append_entries_to x s), push_opt as (snd (send_append_entries_to x s))) \<and>
        ae_inflight x = ae_inflight e - {s} \<and> last_ae x = last_ae e \<and> storage x = storage e"
    proof (cases ok)
      case True
      let ?e3 = "maybe_commit (e\<lparr>ae_inflight := ae_inflight e - {s},
          match_index := (match_index e)(s \<mapsto> max (case match_index e s of Some m \<Rightarrow> m | None \<Rightarrow> 0) (i + of_nat k)),
          next_index := (next_index e)(s \<mapsto> i + of_nat k + 1)\<rparr>) []"
      show ?thesis using True l
        by (intro exI [of _ "fst ?e3"] exI [of _ "snd ?e3"])
          (simp add: handle_append_entries_resp_def Let_def case_prod_unfold)
    next
      case False
      let ?n = "case next_index e s of Some n \<Rightarrow> n | None \<Rightarrow> 1"
      show ?thesis
      proof (cases "?n = i + 1")
        case True
        let ?e2 = "e\<lparr>ae_inflight := ae_inflight e - {s}, next_index := (next_index e)(s \<mapsto>
            max (max (sat_sub ?n 1) ((case match_index e s of Some m \<Rightarrow> m | None \<Rightarrow> 0) + 1)) 1)\<rparr>"
        show ?thesis using True False l
          by (intro exI [of _ ?e2] exI [of _ "[]"])
            (simp add: handle_append_entries_resp_def Let_def case_prod_unfold)
      next
        case ne: False
        show ?thesis using ne False l
          by (intro exI [of _ "e\<lparr>ae_inflight := ae_inflight e - {s}\<rparr>"] exI [of _ "[]"])
            (simp add: handle_append_entries_resp_def Let_def case_prod_unfold)
      qed
    qed
    then show ?thesis using sent [OF l(1)] plain [OF l(1)] by (elim exE disjE conjE) auto
  qed
  then show "marks_step e (fst ?r) (snd ?r)" by blast
  from both show "role (fst ?r) = Leader \<Longrightarrow> engine_current_term e \<le> t \<Longrightarrow> marks_known e \<Longrightarrow>
      s \<in> ae_inflight (fst ?r) \<Longrightarrow> sends_ae (snd ?r) s (engine_current_term e)"
    by blast
qed

lemma handle_rpc_marks: "marks_step e (fst (handle_rpc e s m now)) (snd (handle_rpc e s m now))"
proof (cases m)
  case (RequestVote t c li lt)
  have "handle_request_vote e s t c li lt now = (fst (handle_request_vote e s t c li lt now),
      snd (handle_request_vote e s t c li lt now))" by simp
  show ?thesis
  proof (cases "grants_vote e t c li lt \<or> engine_current_term e < t")
    case True
    then show ?thesis using RequestVote by (intro marks_step_follower) (auto simp: handle_request_vote_spec)
  next
    case False
    then have "fst (handle_request_vote e s t c li lt now) = e"
      by (auto simp: handle_request_vote_def Let_def grants_vote_def log_is_up_to_date_iff engine_current_term_def)
    then show ?thesis using RequestVote by simp
  qed
next
  case (AppendEntries t l pi pt es lc)
  then show ?thesis
    by (cases "t < engine_current_term e")
      (auto simp: append_entries_stale append_entries_role intro: marks_step_follower)
qed (simp_all add: request_vote_resp_marks append_entries_resp_marks(1))

subsection \<open>Marks and pending requests\<close>

definition covered :: "('p, 'a, 'c) RaftBehaviour \<Rightarrow> NodeId \<Rightarrow> Term \<Rightarrow> bool" where
  "covered b p t \<longleftrightarrow> (\<exists>id r. map_of (pending b) id = Some r \<and> pr_to r = p \<and> pr_kind r = KAppendEntries \<and>
     (\<exists>l pi pt es lc. pr_msg r = AppendEntries t l pi pt es lc))"

lemma coveredI:
  "map_of (pending b) k = Some r \<Longrightarrow> pr_to r = p \<Longrightarrow> pr_kind r = KAppendEntries \<Longrightarrow>
    pr_msg r = AppendEntries t l pi pt es lc \<Longrightarrow> covered b p t"
  unfolding covered_def by blast

lemma covered_engine [simp]: "covered (b\<lparr>engine := e\<rparr>) p t = covered b p t"
  by (simp add: covered_def)

text \<open>Every mark of a leader has a pending request, or an AppendEntries among the actions still to be executed.\<close>

definition tracked :: "('p, 'a, 'c) RaftBehaviour \<Rightarrow> Action list \<Rightarrow> bool" where
  "tracked b as \<longleftrightarrow> (role (engine b) = Leader \<longrightarrow> marks_known (engine b) \<and>
     (\<forall>p \<in> ae_inflight (engine b). covered b p (engine_current_term (engine b)) \<or>
        sends_ae as p (engine_current_term (engine b))))"

text \<open>The correlation ids in use are below the next one, and \<open>n\<close> more fit before the counter wraps.\<close>

definition ids_ok :: "('p, 'a, 'c) RaftBehaviour \<Rightarrow> nat \<Rightarrow> bool" where
  "ids_ok b n \<longleftrightarrow> (\<forall>id \<in> fst ` set (pending b). id < next_correlation_id b) \<and>
     unat (next_correlation_id b) + n < 2 ^ 64"

lemma ids_ok_le: "ids_ok b n \<Longrightarrow> m \<le> n \<Longrightarrow> ids_ok b m"
  by (simp add: ids_ok_def)

lemma ids_ok_cong:
  "ids_ok b n \<Longrightarrow> pending b' = pending b \<Longrightarrow> next_correlation_id b' = next_correlation_id b \<Longrightarrow> ids_ok b' n"
  by (simp add: ids_ok_def)

lemma send_rpc_pending:
  obtains "pending (send_rpc b d m) = pending b" "next_correlation_id (send_rpc b d m) = next_correlation_id b"
      "rpc_kind m = KAppendEntries \<Longrightarrow> d \<notin> ae_inflight (engine (send_rpc b d m))"
  | r where "pending (send_rpc b d m) = AList.update (next_correlation_id b) r (pending b)"
      "next_correlation_id (send_rpc b d m) = next_correlation_id b + 1"
      "pr_to r = d" "pr_kind r = rpc_kind m" "pr_msg r = m"
proof (cases "pm_peer_id (peer_map b) d")
  case None
  then show ?thesis by (intro that(1)) (simp_all add: send_rpc_def Let_def handle_rpc_failure_def)
next
  case (Some peer)
  show ?thesis
  proof (cases "is_connected b peer")
    case True
    then show ?thesis using Some
      by (intro that(2) [of "\<lparr>pr_correlation_id = next_correlation_id b, pr_to = d, pr_peer = peer,
          pr_kind = rpc_kind m, pr_sent_at = clock b (readings b), pr_msg = m\<rparr>"])
        (simp_all add: send_rpc_def Let_def case_prod_unfold)
  next
    case False
    then show ?thesis using Some by (intro that(1)) (simp_all add: send_rpc_def Let_def handle_rpc_failure_def)
  qed
qed

lemma send_rpc_ids:
  assumes "ids_ok b (Suc n)"
  shows "ids_ok (send_rpc b d m) n"
    and "map_of (pending b) cid = Some r \<Longrightarrow> map_of (pending (send_rpc b d m)) cid = Some r"
proof -
  let ?c = "next_correlation_id b"
  have un: "unat (?c + 1) = Suc (unat ?c)" using assms by (intro unat_Suc_u64_bound) (simp add: ids_ok_def)
  have "cid < ?c + 1" if "cid \<in> insert ?c (fst ` set (pending b))" for cid
  proof -
    have "cid \<le> ?c" using that assms by (auto simp: ids_ok_def)
    then show ?thesis by (simp add: word_less_nat_alt word_le_nat_alt un)
  qed
  then show "ids_ok (send_rpc b d m) n"
    using assms un
    by (cases rule: send_rpc_pending [of b d m]) (simp_all add: ids_ok_def dom_update image_Un)
  show "map_of (pending (send_rpc b d m)) cid = Some r" if r: "map_of (pending b) cid = Some r"
  proof -
    have "cid \<in> fst ` set (pending b)" using r by (metis map_of_SomeD fst_conv image_eqI)
    then have "cid \<noteq> ?c" using assms by (auto simp: ids_ok_def)
    then show ?thesis using r by (cases rule: send_rpc_pending [of b d m]) (simp_all add: update_conv')
  qed
qed

lemma covered_send: "ids_ok b (Suc n) \<Longrightarrow> covered b p t \<Longrightarrow> covered (send_rpc b d m) p t"
  unfolding covered_def using send_rpc_ids(2) by blast

text \<open>Sending the AppendEntries itself: afterwards the mark is covered, or it is gone.\<close>

lemma send_ae_covered:
  assumes "p \<in> ae_inflight (engine (send_rpc b p (AppendEntries t l pi pt es lc)))"
  shows "covered (send_rpc b p (AppendEntries t l pi pt es lc)) p t"
proof (cases rule: send_rpc_pending [of b p "AppendEntries t l pi pt es lc"])
  case 1
  with assms show ?thesis by simp
next
  case (2 r)
  then have "map_of (pending (send_rpc b p (AppendEntries t l pi pt es lc))) (next_correlation_id b) = Some r"
    by (simp add: update_conv')
  with 2(3-5) show ?thesis unfolding covered_def
    by (intro exI [of _ "next_correlation_id b"] exI [of _ r]) simp
qed

lemma tracked_send:
  assumes "ids_ok b (Suc n)" "tracked b (Send d m # as)"
  shows "tracked (send_rpc b d m) as"
  unfolding tracked_def
proof (intro impI conjI ballI)
  let ?b = "send_rpc b d m"
  note same = marks_cleared_sel [OF send_rpc_engine [of b d m]]
  assume L: "role (engine ?b) = Leader"
  then have known: "marks_known (engine b)" using assms(2) by (simp add: tracked_def same)
  have "last_ae (engine ?b) = last_ae (engine b)" using send_rpc_engine [of b d m] by (auto simp: marks_cleared_def)
  with known show "marks_known (engine ?b)" using same(4) by auto
  fix p assume p: "p \<in> ae_inflight (engine ?b)"
  then have "p \<in> ae_inflight (engine b)" using same(4) by blast
  then have "covered b p (engine_current_term (engine b)) \<or>
      sends_ae (Send d m # as) p (engine_current_term (engine b))"
    using assms(2) L by (simp add: tracked_def same)
  then show "covered ?b p (engine_current_term (engine ?b)) \<or> sends_ae as p (engine_current_term (engine ?b))"
    unfolding same(2) using covered_send [OF assms(1)] send_ae_covered [of p b] p by auto
qed

text \<open>Actions without an AppendEntries, executed in any way, keep the marks tracked.\<close>

fun action_cost :: "nat \<Rightarrow> Action \<Rightarrow> nat" where
  "action_cost n (Send p m) = 1"
| "action_cost n (Broadcast m) = n"
| "action_cost n _ = 0"

abbreviation other_count :: "('p, 'a, 'c) RaftBehaviour \<Rightarrow> nat" where
  "other_count b \<equiv> length (engine_other_voters (engine b))"

lemma tracked_cons:
  "tracked b (a # as) \<Longrightarrow> (\<And>p t l pi pt es lc. a \<noteq> Send p (AppendEntries t l pi pt es lc)) \<Longrightarrow> tracked b as"
  unfolding tracked_def list.set(2) insert_iff by metis

lemma tracked_mono: "tracked b as \<Longrightarrow> set as \<subseteq> set as' \<Longrightarrow> tracked b as'"
  unfolding tracked_def by blast

lemma tracked_send_all:
  "ids_ok b (length vs + n) \<Longrightarrow> tracked b as \<Longrightarrow>
    tracked (fold (\<lambda>v b. send_rpc b v m) vs b) as \<and> ids_ok (fold (\<lambda>v b. send_rpc b v m) vs b) n"
proof (induction vs arbitrary: b)
  case (Cons v vs)
  then have "tracked (send_rpc b v m) as" "ids_ok (send_rpc b v m) (length vs + n)"
    using tracked_send [of b "length vs + n" v m as] tracked_mono [of b as "Send v m # as"]
      send_rpc_ids(1) [of b "length vs + n"] by (auto simp: set_subset_Cons)
  with Cons.IH show ?case by simp
qed simp

lemma tracked_cong:
  "tracked b as \<Longrightarrow> engine b' = engine b \<Longrightarrow> pending b' = pending b \<Longrightarrow> tracked b' as"
  by (simp add: tracked_def covered_def)

lemma tracked_execute_action:
  assumes "ids_ok b (action_cost (other_count b) a + n)" "tracked b (a # as)"
  shows "tracked (execute_action None a b) as" "ids_ok (execute_action None a b) n"
proof -
  have "tracked (execute_action None a b) as \<and> ids_ok (execute_action None a b) n"
  proof (cases a)
    case (Send d m)
    with assms tracked_send [of b n d m as] send_rpc_ids(1) [of b n d m] show ?thesis by simp
  next
    case (Broadcast m)
    with assms tracked_cons [of b a as] tracked_send_all [of b "engine_other_voters (engine b)" n as m]
    show ?thesis by simp
  qed (use assms tracked_cons [of b a as] in \<open>auto elim: tracked_cong ids_ok_cong\<close>)
  then show "tracked (execute_action None a b) as" "ids_ok (execute_action None a b) n" by blast+
qed

lemma tracked_execute:
  "ids_ok b (sum_list (map (action_cost (other_count b)) as) + n) \<Longrightarrow> tracked b as \<Longrightarrow>
    tracked (execute_actions b as None) [] \<and> ids_ok (execute_actions b as None) n"
proof (induction as arbitrary: b)
  case (Cons a as)
  have "ids_ok b (action_cost (other_count b) a + (sum_list (map (action_cost (other_count b)) as) + n))"
    using Cons.prems(1) by (simp add: add.assoc)
  note s = tracked_execute_action [OF this Cons.prems(2)]
  have "other_count (execute_action None a b) = other_count b"
    using marks_cleared_sel(8) [OF execute_action_engine [of b None a]] by simp
  with s Cons.IH [of "execute_action None a b"] show ?case by simp
qed simp

subsection \<open>What one engine call costs\<close>

lemma replicate_cost: "sum_list (map (action_cost n) (snd (replicate_to e ps))) \<le> length ps"
proof (induction ps arbitrary: e)
  case (Cons q ps)
  have "sum_list (map (action_cost n) (snd (replicate_to (fst (send_append_entries_to e q)) ps))) \<le> length ps"
    by (rule Cons.IH)
  then show ?case
    using send_append_entries_to_Some [of e q]
    by (auto simp: Let_def case_prod_unfold split: option.split)
qed simp

lemma tick_cost:
  "sum_list (map (action_cost (length (engine_other_voters e))) (out_actions (snd (tick e now)))) \<le>
    length (engine_other_voters e)"
  using replicate_cost [of _ e "engine_other_voters e"]
  by (auto simp: tick_def Let_def case_prod_unfold replicate_actions_def)

lemma propose_cost:
  "snd (propose e d) = Inr (i, as) \<Longrightarrow>
    sum_list (map (action_cost (length (engine_other_voters e))) as) \<le> length (engine_other_voters e)"
  using replicate_cost [of _ "with_entry e (proposed e d)" "engine_other_voters e"]
  by (auto simp: propose_unfold replicate_actions_def split: if_splits)

lemma apply_cost: "\<forall>a \<in> set as. \<exists>es. a = Apply es \<Longrightarrow> sum_list (map (action_cost n) as) = 0"
  by (induction as) auto

lemma local_cost: "\<forall>a \<in> set as. is_local a \<Longrightarrow> sum_list (map (action_cost n) as) = 0"
proof (induction as)
  case (Cons a as)
  then show ?case by (cases a) auto
qed simp

lemma push_opt_cost:
  "(\<And>a. oa = Some a \<Longrightarrow> is_append_entries a) \<Longrightarrow>
    sum_list (map (action_cost n) (push_opt as oa)) \<le> sum_list (map (action_cost n) as) + 1"
  by (cases oa) (auto simp: push_opt_def is_append_entries_def split: Action.splits)

lemma handle_rpc_cost: "sum_list (map (action_cost n) (snd (handle_rpc e s m now))) \<le> 1"
proof (cases "is_request m")
  case True
  from request_actions [OF this, of e s now] obtain as resp where
    "snd (handle_rpc e s m now) = as @ [Send s resp]" "\<forall>a \<in> set as. is_local a"
    by blast
  then show ?thesis using local_cost [of as n] by simp
next
  case False
  then show ?thesis
  proof (cases m)
    case (RequestVoteResp t g)
    then show ?thesis by (simp add: handle_request_vote_resp_def Let_def)
  next
    case (AppendEntriesResp t ok mi)
    have commit: "sum_list (map (action_cost n) (snd (maybe_commit x []))) = 0" for x :: "('a, 'b) RaftEngine"
      using maybe_commit_action [of _ x] by (intro apply_cost) blast
    have send: "sum_list (map (action_cost n) (push_opt (snd (maybe_commit y [])) (snd (send_append_entries_to x s)))) \<le> Suc 0"
      "sum_list (map (action_cost n) (push_opt [] (snd (send_append_entries_to x s)))) \<le> Suc 0"
      for x y :: "('a, 'b) RaftEngine"
      using push_opt_cost [where oa = "snd (send_append_entries_to x s)" and n = n and as = "snd (maybe_commit y [])"]
        push_opt_cost [where oa = "snd (send_append_entries_to x s)" and n = n and as = "[]"]
        send_append_entries_to_kind [of x s] commit [of y]
      by simp_all
    show ?thesis
      unfolding AppendEntriesResp handle_rpc.simps handle_append_entries_resp_def Let_def case_prod_unfold
      by (auto simp: commit send split: option.split)
  qed simp_all
qed

lemma other_voters_calls [simp]:
  "engine_other_voters (fst (tick e now)) = engine_other_voters e"
  "engine_other_voters (fst (propose e d)) = engine_other_voters e"
  "engine_other_voters (fst (handle_rpc e s m now)) = engine_other_voters e"
  by (simp_all add: engine_other_voters_def)

subsection \<open>The operations of the behaviour\<close>

text \<open>
  The invariant: nothing is waiting to be executed, every mark has its pending request, and the
  correlation ids in use are older than the next one.
\<close>

definition behaviour_inv :: "('p, 'a, 'c) RaftBehaviour \<Rightarrow> bool" where
  "behaviour_inv b \<longleftrightarrow> tracked b [] \<and> ids_ok b 0"

lemma behaviour_inv_cong:
  "behaviour_inv b \<Longrightarrow> engine b' = engine b \<Longrightarrow> pending b' = pending b \<Longrightarrow>
    next_correlation_id b' = next_correlation_id b \<Longrightarrow> behaviour_inv b'"
  unfolding behaviour_inv_def by (blast intro: tracked_cong ids_ok_cong)

lemma tracked_engine_call:
  assumes "tracked b []" "marks_step (engine b) e' as"
  shows "tracked (b\<lparr>engine := e'\<rparr>) as"
  unfolding tracked_def
proof (intro impI conjI ballI)
  assume "role (engine (b\<lparr>engine := e'\<rparr>)) = Leader"
  then have L: "role e' = Leader" by simp
  have before: "marks_known (engine b)" "\<And>p. p \<in> ae_inflight (engine b) \<Longrightarrow> covered b p (engine_current_term (engine b))"
    if "role (engine b) = Leader"
    using assms(1) that by (auto simp: tracked_def)
  show "marks_known (engine (b\<lparr>engine := e'\<rparr>))" using assms(2) L before(1) by (auto simp: marks_step_def)
  fix p assume "p \<in> ae_inflight (engine (b\<lparr>engine := e'\<rparr>))"
  then have p: "p \<in> ae_inflight e'" by simp
  from assms(2) L p consider "p \<in> ae_inflight (engine b)" "role (engine b) = Leader"
      "engine_current_term e' = engine_current_term (engine b)"
    | "sends_ae as p (engine_current_term e')"
    unfolding marks_step_def by blast
  then show "covered (b\<lparr>engine := e'\<rparr>) p (engine_current_term (engine (b\<lparr>engine := e'\<rparr>))) \<or>
      sends_ae as p (engine_current_term (engine (b\<lparr>engine := e'\<rparr>)))"
  proof cases
    case 1
    then show ?thesis using before(2) by simp
  next
    case 2
    then show ?thesis by simp
  qed
qed

lemma execute_call:
  assumes "tracked b as" "ids_ok b (Suc (other_count b))"
    "sum_list (map (action_cost (other_count b)) as) \<le> Suc (other_count b)"
  shows "behaviour_inv (execute_actions b as None)"
proof -
  have "ids_ok b (sum_list (map (action_cost (other_count b)) as) + 0)"
    using assms(2,3) by (auto elim: ids_ok_le)
  from tracked_execute [OF this assms(1)] show ?thesis by (simp add: behaviour_inv_def)
qed

text \<open>An honest peer answers a vote request with a vote, an append request with its result, in a term at least as new.\<close>

fun answers :: "RaftMessage \<Rightarrow> RaftMessage \<Rightarrow> bool" where
  "answers (RequestVote t c li lt) (RequestVoteResp t' g) = (t \<le> t')"
| "answers (AppendEntries t l pi pt es lc) (AppendEntriesResp t' ok m) = (t \<le> t')"
| "answers _ _ = False"

lemma response_tracked:
  assumes "tracked b []" "map_of (pending b) cid = Some r" "answers (pr_msg r) msg"
  shows "tracked (b\<lparr>pending := AList.delete cid (pending b),
      engine := fst (handle_rpc (engine b) (pr_to r) msg now)\<rparr>) (snd (handle_rpc (engine b) (pr_to r) msg now))"
proof -
  let ?e = "engine b" and ?r = "handle_rpc (engine b) (pr_to r) msg now"
  let ?b = "b\<lparr>pending := AList.delete cid (pending b), engine := fst ?r\<rparr>"
  have step: "marks_step ?e (fst ?r) (snd ?r)" by (rule handle_rpc_marks)
  show ?thesis
    unfolding tracked_def
  proof (intro impI conjI ballI)
    assume "role (engine ?b) = Leader"
    then have L: "role (fst ?r) = Leader" by simp
    show "marks_known (engine ?b)" using step L assms(1) by (simp add: marks_step_def tracked_def)
    fix p assume "p \<in> ae_inflight (engine ?b)"
    then have p: "p \<in> ae_inflight (fst ?r)" by simp
    have "covered ?b p (engine_current_term (fst ?r)) \<or> sends_ae (snd ?r) p (engine_current_term (fst ?r))"
    proof (cases "sends_ae (snd ?r) p (engine_current_term (fst ?r))")
      case False
      with step L p have old: "p \<in> ae_inflight ?e" "role ?e = Leader"
          "engine_current_term (fst ?r) = engine_current_term ?e"
        unfolding marks_step_def by blast+
      with assms(1) have known: "marks_known ?e" and cov: "covered b p (engine_current_term ?e)"
        by (auto simp: tracked_def)
      from cov obtain k r' l pi pt es lc where r': "map_of (pending b) k = Some r'" "pr_to r' = p"
          "pr_kind r' = KAppendEntries" "pr_msg r' = AppendEntries (engine_current_term ?e) l pi pt es lc"
        unfolding covered_def by blast
      show ?thesis
      proof (cases "k = cid")
        case True
        with r' assms(2) have "r' = r" by simp
        with assms(3) r'(4) obtain t' ok m where msg: "msg = AppendEntriesResp t' ok m" "engine_current_term ?e \<le> t'"
          by (cases msg) auto
        have "sends_ae (snd ?r) (pr_to r) (engine_current_term ?e)"
          using append_entries_resp_marks(2) [of ?e "pr_to r" t' ok m now] L p known r'(2) \<open>r' = r\<close> msg by simp
        then show ?thesis using r'(2) \<open>r' = r\<close> old(3) by simp
      next
        case False
        then have "map_of (pending ?b) k = Some r'" using r'(1) by (simp add: delete_conv')
        then show ?thesis using coveredI [OF _ r'(2-4)] unfolding old(3) by blast
      qed
    qed blast
    then show "covered ?b p (engine_current_term (engine ?b)) \<or> sends_ae (snd ?r) p (engine_current_term (engine ?b))"
      by simp
  qed
qed

lemma delete_ids: "ids_ok b n \<Longrightarrow> ids_ok (b\<lparr>pending := AList.delete cid (pending b)\<rparr>) n"
  by (auto simp: ids_ok_def AList.delete_eq)

lemma fail_pending_tracked:
  assumes "tracked b []"
  shows "tracked (fail_pending b cid err emit) []"
proof (cases "map_of (pending b) cid")
  case (Some r)
  let ?b = "fail_pending b cid err emit"
  have e: "engine ?b = fst (handle_rpc_failure (engine b) (pr_to r) (pr_kind r))"
    using Some by (simp add: fail_pending_def Let_def case_prod_unfold)
  note same = marks_cleared_sel [OF handle_rpc_failure_cleared [of "engine b" "pr_to r" "pr_kind r"]]
  have la: "last_ae (engine ?b) = last_ae (engine b)" by (simp add: e handle_rpc_failure_def)
  show ?thesis
    unfolding tracked_def
  proof (intro impI conjI ballI)
    assume "role (engine ?b) = Leader"
    then have L: "role (engine b) = Leader" by (simp add: e same)
    with assms have known: "marks_known (engine b)" by (simp add: tracked_def)
    show "marks_known (engine ?b)" using known same(4) la e by auto
    fix p assume p: "p \<in> ae_inflight (engine ?b)"
    then have "p \<in> ae_inflight (engine b)" using same(4) e by auto
    with assms L obtain k r' l pi pt es lc where r': "map_of (pending b) k = Some r'" "pr_to r' = p"
        "pr_kind r' = KAppendEntries" "pr_msg r' = AppendEntries (engine_current_term (engine b)) l pi pt es lc"
      unfolding tracked_def covered_def by auto
    have "k \<noteq> cid"
    proof
      assume "k = cid"
      with r'(1) Some have "r' = r" by simp
      with p r'(2,3) show False by (simp add: e handle_rpc_failure_def)
    qed
    then have "map_of (pending ?b) k = Some r'" using r'(1) by (simp add: delete_conv')
    then show "covered ?b p (engine_current_term (engine ?b)) \<or> sends_ae [] p (engine_current_term (engine ?b))"
      using coveredI [OF _ r'(2-4)] unfolding e same(2) by blast
  qed
qed (use assms in \<open>simp add: fail_pending_def\<close>)

lemma fail_pending_keeps:
  "tracked b [] \<and> ids_ok b n \<Longrightarrow> tracked (fail_pending b cid err emit) [] \<and> ids_ok (fail_pending b cid err emit) n"
  using fail_pending_tracked [of b cid err emit] delete_ids [of b n cid]
  by (auto simp: ids_ok_def)

lemma fail_all_keeps:
  "tracked b [] \<and> ids_ok b n \<Longrightarrow>
    tracked (fold (\<lambda>id b. fail_pending b id err emit) ids b) [] \<and> ids_ok (fold (\<lambda>id b. fail_pending b id err emit) ids b) n"
proof (induction ids arbitrary: b)
  case (Cons cid ids)
  from Cons.IH [OF fail_pending_keeps [OF Cons.prems]] show ?case by simp
qed simp

subsection \<open>Every event keeps the invariant\<close>

datatype ('p, 'c) BehaviourInput =
    SwarmEvent "('p, 'c) FromSwarm"
  | HandlerEvent 'p 'c ToBehaviour
  | PollPass
  | Propose "u8 list"
  | DialSeed 'p

text \<open>One call from the swarm or the application; a call of \<open>poll\<close> is a sequence of passes.\<close>

fun behaviour_step ::
  "(u64 set \<Rightarrow> u64 list) \<Rightarrow> ('p, 'a, 'c) RaftBehaviour \<Rightarrow> ('p, 'c) BehaviourInput \<Rightarrow> ('p, 'a, 'c) RaftBehaviour" where
  "behaviour_step ho b (SwarmEvent ev) = on_swarm_event ho b ev"
| "behaviour_step ho b (HandlerEvent peer conn ev) = on_connection_handler_event b peer conn ev"
| "behaviour_step ho b PollPass = fst (poll_pass ho b)"
| "behaviour_step ho b (Propose data) = fst (behaviour_propose b data)"
| "behaviour_step ho b (DialSeed peer) = dial_seed b peer"

text \<open>
  The peers follow the protocol (requests are requests, responses answer the request they are matched
  with), and the correlation counter has not run through its \<open>2^64\<close> values.
\<close>

fun behaviour_input_ok :: "('p, 'a, 'c) RaftBehaviour \<Rightarrow> ('p, 'c) BehaviourInput \<Rightarrow> bool" where
  "behaviour_input_ok b i = (fits_u64 (unat (next_correlation_id b) + Suc (other_count b)) \<and>
     (case i of
        HandlerEvent peer conn (Request cid msg ch) \<Rightarrow> \<not> is_response msg
      | HandlerEvent peer conn (Response cid msg) \<Rightarrow>
          (case map_of (pending b) cid of Some r \<Rightarrow> answers (pr_msg r) msg | None \<Rightarrow> True)
      | _ \<Rightarrow> True))"

fun behaviour_run ::
  "(u64 set \<Rightarrow> u64 list) \<Rightarrow> ('p, 'a, 'c) RaftBehaviour \<Rightarrow> ('p, 'c) BehaviourInput list \<Rightarrow>
    ('p, 'a, 'c) RaftBehaviour option" where
  "behaviour_run ho b [] = Some b"
| "behaviour_run ho b (i # is) =
     (if behaviour_input_ok b i then behaviour_run ho (behaviour_step ho b i) is else None)"

lemma ids_room:
  "behaviour_inv b \<Longrightarrow> fits_u64 (unat (next_correlation_id b) + Suc (other_count b)) \<Longrightarrow>
    ids_ok b (Suc (other_count b))"
  by (simp add: behaviour_inv_def ids_ok_def)

lemma request_inv:
  assumes "behaviour_inv b" "\<not> is_response msg"
  shows "behaviour_inv (on_connection_handler_event b peer conn (Request cid msg ch))"
proof (cases "pm_node_id (peer_map b) peer")
  case None
  then show ?thesis
    by (intro behaviour_inv_cong [OF assms(1)]) (simp_all add: on_connection_handler_event_def Let_def case_prod_unfold)
next
  case (Some src)
  show ?thesis
  proof (cases "is_request msg")
    case True
    let ?b' = "on_connection_handler_event b peer conn (Request cid msg ch)"
    let ?r = "handle_rpc (engine b) src msg (clock b (readings b))"
    note ans = request_answered [OF Some True, of conn cid ch, unfolded Let_def]
    obtain as resp where as: "snd ?r = as @ [Send src resp]" "\<forall>a \<in> set as. is_local a" "is_response resp"
      using request_actions [OF True] by blast
    have none: "\<not> sends_ae (snd ?r) p t" for p t
    proof
      assume "sends_ae (snd ?r) p t"
      then show False using as(2,3) unfolding as(1) by (auto dest!: bspec)
    qed
    have "tracked (b\<lparr>engine := fst ?r\<rparr>) (snd ?r)"
      using assms(1) by (intro tracked_engine_call handle_rpc_marks) (simp add: behaviour_inv_def)
    then have "tracked (b\<lparr>engine := fst ?r\<rparr>) []" using none by (simp add: tracked_def)
    moreover have "next_correlation_id ?b' = next_correlation_id b"
    proof -
      have "execute_actions c as (Some (src, ch)) = c\<lparr>pending_events := evs\<rparr> \<Longrightarrow>
          next_correlation_id (execute_actions c as (Some (src, ch))) = next_correlation_id c"
        for c :: "('a, 'b, 'c) RaftBehaviour" and evs by simp
      then have loc: "next_correlation_id (execute_actions c as (Some (src, ch))) = next_correlation_id c"
        "inbound_channels (execute_actions c as (Some (src, ch))) = inbound_channels c"
        for c :: "('a, 'b, 'c) RaftBehaviour"
        using execute_local [OF as(2), of c "Some (src, ch)"] by auto
      show ?thesis using Some as(1)
        by (simp add: on_connection_handler_event_def Let_def case_prod_unfold loc)
    qed
    ultimately show ?thesis using ans assms(1)
      by (auto simp: behaviour_inv_def elim!: tracked_cong ids_ok_cong)
  next
    case False
    then have "handle_rpc (engine b) src msg now = (engine b, [])" for now
      using assms(2) by (cases msg) auto
    then show ?thesis using Some
      by (intro behaviour_inv_cong [OF assms(1)]) (simp_all add: on_connection_handler_event_def Let_def case_prod_unfold)
  qed
qed

lemma response_inv:
  assumes "behaviour_inv b" "ids_ok b (Suc (other_count b))"
    and "case map_of (pending b) cid of Some r \<Rightarrow> answers (pr_msg r) msg | None \<Rightarrow> True"
  shows "behaviour_inv (on_connection_handler_event b peer conn (Response cid msg))"
proof (cases "map_of (pending b) cid")
  case None
  then show ?thesis
    by (intro behaviour_inv_cong [OF assms(1)]) (simp_all add: on_connection_handler_event_def Let_def case_prod_unfold)
next
  case (Some r)
  let ?r = "handle_rpc (engine b) (pr_to r) msg (clock b (readings b))"
  let ?b = "b\<lparr>readings := Suc (readings b), pending := AList.delete cid (pending b), engine := fst ?r\<rparr>"
  have "tracked (b\<lparr>pending := AList.delete cid (pending b), engine := fst ?r\<rparr>) (snd ?r)"
    using assms(1,3) Some by (intro response_tracked) (auto simp: behaviour_inv_def)
  then have t: "tracked ?b (snd ?r)" by (rule tracked_cong) simp_all
  have i: "ids_ok ?b (Suc (other_count ?b))"
    using delete_ids [OF assms(2), of cid] by (rule ids_ok_cong [THEN ids_ok_le]) simp_all
  have c: "sum_list (map (action_cost (other_count ?b)) (snd ?r)) \<le> Suc (other_count ?b)"
    using handle_rpc_cost [of "other_count ?b" "engine b" "pr_to r" msg "clock b (readings b)"] by linarith
  have "behaviour_inv (execute_actions ?b (snd ?r) None)" by (rule execute_call [OF t i c])
  then show ?thesis using Some
    by (elim behaviour_inv_cong) (simp_all add: on_connection_handler_event_def Let_def case_prod_unfold)
qed

lemma arm_sleep_inv: "behaviour_inv b \<Longrightarrow> behaviour_inv (arm_sleep b d)"
  by (rule behaviour_inv_cong) simp_all

lemma push_event_inv: "behaviour_inv b \<Longrightarrow> behaviour_inv (push_event b ev)"
  by (rule behaviour_inv_cong) simp_all

lemma failure_inv:
  assumes "behaviour_inv b"
  shows "behaviour_inv (on_connection_handler_event b peer conn (Failure c err))"
proof -
  have "behaviour_inv (b\<lparr>readings := Suc (readings b)\<rparr>)" by (rule behaviour_inv_cong [OF assms]) simp_all
  then have "behaviour_inv (fail_pending (b\<lparr>readings := Suc (readings b)\<rparr>) cid err True)" for cid
    unfolding behaviour_inv_def by (rule fail_pending_keeps)
  moreover have "behaviour_inv (push_event (b\<lparr>readings := Suc (readings b)\<rparr>) ev)" for ev
    by (rule behaviour_inv_cong [OF assms]) simp_all
  ultimately show ?thesis
    by (cases c) (auto simp: on_connection_handler_event_def Let_def case_prod_unfold intro!: arm_sleep_inv)
qed

lemma fail_peer_inv: "behaviour_inv b \<Longrightarrow> behaviour_inv (fail_peer_pending ho b peer err emit)"
  unfolding behaviour_inv_def fail_peer_pending_def by (rule fail_all_keeps)

lemma swarm_inv:
  assumes "behaviour_inv b"
  shows "behaviour_inv (on_swarm_event ho b ev)"
proof (cases ev)
  case (ConnectionClosed peer conn)
  have "behaviour_inv (b\<lparr>connected := C, dialing := D\<rparr>)" "behaviour_inv (b\<lparr>dialing := D\<rparr>)" for C D
    by (rule behaviour_inv_cong [OF assms]; simp)+
  then show ?thesis using ConnectionClosed
    by (cases "connected b peer") (auto simp: Let_def intro!: fail_peer_inv)
next
  case (DialFailure maybe_peer err)
  have bo: "behaviour_inv (dial_backoff (b\<lparr>dialing := D\<rparr>) p)" "behaviour_inv (b\<lparr>dialing := D\<rparr>)" for D p
    by (rule behaviour_inv_cong [OF assms]; simp add: dial_backoff_def Let_def case_prod_unfold)+
  show ?thesis using DialFailure assms
    by (cases maybe_peer) (auto simp: Let_def intro!: fail_peer_inv push_event_inv bo)
qed (use assms in \<open>auto elim: behaviour_inv_cong\<close>)

lemma expire_inv: "behaviour_inv b \<Longrightarrow> behaviour_inv (expire_pending ho b now)"
  unfolding behaviour_inv_def expire_pending_def by (rule fail_all_keeps)

lemma tick_if_due_inv:
  assumes "behaviour_inv b" "ids_ok b (Suc (other_count b))"
  shows "behaviour_inv (tick_if_due b now)"
proof -
  let ?e = "fst (tick (engine b) now)" and ?as = "out_actions (snd (tick (engine b) now))"
  have t: "tracked (b\<lparr>engine := ?e\<rparr>) ?as"
    using assms(1) by (intro tracked_engine_call tick_marks) (simp add: behaviour_inv_def)
  have i: "ids_ok (b\<lparr>engine := ?e\<rparr>) (Suc (other_count (b\<lparr>engine := ?e\<rparr>)))"
    using assms(2) by (simp add: ids_ok_def)
  have c: "sum_list (map (action_cost (other_count (b\<lparr>engine := ?e\<rparr>))) ?as) \<le> Suc (other_count (b\<lparr>engine := ?e\<rparr>))"
    using tick_cost [of "engine b" now] by simp
  from execute_call [OF t i c] show ?thesis
    by (auto simp: tick_if_due_def Let_def case_prod_unfold intro: arm_sleep_inv)
qed

lemma propose_inv:
  assumes "behaviour_inv b" "ids_ok b (Suc (other_count b))"
  shows "behaviour_inv (fst (behaviour_propose b data))"
proof (cases "snd (propose (engine b) data)")
  case (Inl err)
  then have "fst (propose (engine b) data) = engine b" by (auto simp: propose_unfold split: if_splits)
  with Inl show ?thesis
    by (intro behaviour_inv_cong [OF assms(1)]) (simp_all add: behaviour_propose_def case_prod_unfold)
next
  case (Inr r)
  then obtain idx as where r: "snd (propose (engine b) data) = Inr (idx, as)" by (cases r) auto
  let ?e = "fst (propose (engine b) data)"
  have t: "tracked (b\<lparr>engine := ?e\<rparr>) as"
    using assms(1) propose_marks [of "engine b" data] r
    by (intro tracked_engine_call) (simp_all add: behaviour_inv_def)
  have i: "ids_ok (b\<lparr>engine := ?e\<rparr>) (Suc (other_count (b\<lparr>engine := ?e\<rparr>)))"
    using assms(2) by (simp add: ids_ok_def)
  have c: "sum_list (map (action_cost (other_count (b\<lparr>engine := ?e\<rparr>))) as) \<le> Suc (other_count (b\<lparr>engine := ?e\<rparr>))"
    using propose_cost [OF r] by simp
  from execute_call [OF t i c] show ?thesis using r
    by (elim behaviour_inv_cong) (simp_all add: behaviour_propose_def Let_def case_prod_unfold)
qed

lemma pop_event_inv: "behaviour_inv b \<Longrightarrow> pop_event b = Some (b', ev) \<Longrightarrow> behaviour_inv b'"
  by (auto simp: pop_event_def elim: behaviour_inv_cong split: list.splits)

lemma poll_sleep_inv: "behaviour_inv b \<Longrightarrow> behaviour_inv (fst (poll_sleep b))"
  by (auto simp: poll_sleep_def Let_def elim: behaviour_inv_cong)

lemma fail_pending_engine: "marks_cleared (engine b) (engine (fail_pending b cid err emit))"
  by (auto simp: fail_pending_def Let_def case_prod_unfold handle_rpc_failure_cleared split: option.split)

lemma fail_all_ids:
  "next_correlation_id (fold (\<lambda>id b. fail_pending b id err emit) ids b) = next_correlation_id b"
  by (induction ids arbitrary: b) simp_all

lemma fail_all_engine: "marks_cleared (engine b) (engine (fold (\<lambda>id b. fail_pending b id err emit) ids b))"
  by (induction ids arbitrary: b) (auto intro: marks_cleared_trans [OF fail_pending_engine])

lemma poll_pass_inv:
  assumes "behaviour_inv b" "ids_ok b (Suc (other_count b))"
  shows "behaviour_inv (fst (poll_pass ho b))"
proof -
  let ?b1 = "b\<lparr>readings := Suc (readings b)\<rparr>"
  let ?b2 = "expire_pending ho ?b1 (clock b (readings b))"
  have b1: "behaviour_inv ?b1" by (rule behaviour_inv_cong [OF assms(1)]) simp_all
  then have b2: "behaviour_inv ?b2" by (rule expire_inv)
  have "marks_cleared (engine b) (engine ?b2)" "next_correlation_id ?b2 = next_correlation_id b"
    using fail_all_ids [of _ _ _ ?b1] fail_all_engine [of ?b1] by (simp_all add: expire_pending_def)
  then have "other_count ?b2 = other_count b" "ids_ok ?b2 (Suc (other_count b))"
    using marks_cleared_sel(8) [of "engine b" "engine ?b2"] b2 assms(2)
    by (simp_all add: behaviour_inv_def ids_ok_def)
  then have b3: "behaviour_inv (tick_if_due ?b2 now)" for now
    using b2 by (intro tick_if_due_inv) simp_all
  have after: "behaviour_inv (fst (case pop_event x of Some (y, ev) \<Rightarrow> (y, PollReady ev) | None \<Rightarrow> poll_sleep x))"
    if "behaviour_inv x" for x :: "('a, 'b, 'c) RaftBehaviour"
    using that pop_event_inv [OF that] poll_sleep_inv [OF that] by (cases "pop_event x") auto
  show ?thesis
  proof (cases "pop_event b")
    case (Some r)
    then show ?thesis using pop_event_inv [OF assms(1)] by (cases r) (simp add: poll_pass_def)
  next
    case None
    show ?thesis
    proof (cases "pop_event ?b2")
      case (Some r)
      then show ?thesis using None pop_event_inv [OF b2] arm_sleep_inv
        by (cases r) (simp add: poll_pass_def Let_def case_prod_unfold)
    next
      case none2: None
      then show ?thesis using None after [OF b3] poll_sleep_inv [OF b2]
        by (simp add: poll_pass_def Let_def case_prod_unfold)
    qed
  qed
qed

lemma behaviour_step_inv:
  assumes "behaviour_inv b" "behaviour_input_ok b i"
  shows "behaviour_inv (behaviour_step ho b i)"
proof -
  have ids: "ids_ok b (Suc (other_count b))" using assms(2) by (intro ids_room [OF assms(1)]) simp
  show ?thesis
  proof (cases i)
    case (HandlerEvent peer conn ev)
    then show ?thesis
      using assms request_inv [OF assms(1)] response_inv [OF assms(1) ids] failure_inv [OF assms(1)]
      by (cases ev) auto
  next
    case (DialSeed peer)
    then show ?thesis by (auto intro: behaviour_inv_cong [OF assms(1)])
  qed (use assms ids in \<open>auto intro: swarm_inv poll_pass_inv propose_inv\<close>)
qed

lemma behaviour_inv_new: "behaviour_inv (RaftBehaviour_new hov clk rnd rdy cfg st)"
proof -
  have "tracked b [] \<and> ids_ok b 0" if "role (engine b) = Follower" "pending b = []" for b :: "('a, 'b, 'c) RaftBehaviour"
    using that unat_lt_u64 [of "next_correlation_id b"] by (simp add: tracked_def ids_ok_def)
  then show ?thesis by (simp add: behaviour_inv_def RaftBehaviour_new_def Let_def engine_new_def)
qed

lemma behaviour_run_inv: "behaviour_inv b \<Longrightarrow> behaviour_run ho b is = Some b' \<Longrightarrow> behaviour_inv b'"
proof (induction "is" arbitrary: b)
  case (Cons i "is")
  from Cons.prems(2) have ok: "behaviour_input_ok b i" and r: "behaviour_run ho (behaviour_step ho b i) is = Some b'"
    by (auto simp del: behaviour_input_ok.simps split: if_splits)
  show ?case by (rule Cons.IH [OF behaviour_step_inv [OF Cons.prems(1) ok] r])
qed simp

subsection \<open>Properties\<close>

text \<open>
  C13: No AppendEntries is in flight without a pending request: in every state the behaviour reaches from
  its start, through any events of the swarm, of its connections and of the application, each peer the
  engine of a leader has marked has an AppendEntries of the current term waiting among the pending
  requests, so that its answer, its failure or its timeout will release the mark. (Peers answer the
  requests they are sent; the correlation counter does not wrap.)
\<close>

theorem in_flight_is_pending:
  assumes "behaviour_run ho (RaftBehaviour_new hov clk rnd rdy cfg st) is = Some b"
    and "role (engine b) = Leader" and "p \<in> ae_inflight (engine b)"
  shows "\<exists>cid r l pi pt es lc. map_of (pending b) cid = Some r \<and> pr_to r = p \<and> pr_kind r = KAppendEntries \<and>
    pr_msg r = AppendEntries (engine_current_term (engine b)) l pi pt es lc"
  using behaviour_run_inv [OF behaviour_inv_new assms(1)] assms(2,3)
  unfolding behaviour_inv_def tracked_def covered_def by (metis empty_iff list.set(1))

text \<open>
  A node of two whose election timeout has run out at its first poll: it is connected, polled twice,
  elected by node 2 and takes a proposal.
\<close>

definition demo_pair_node :: "(nat, nat, nat) RaftBehaviour" where
  "demo_pair_node =
     RaftBehaviour_new sorted_list_of_set (\<lambda>i. 0) (\<lambda>i. 0) (\<lambda>i. False)
       (demo_node_config\<lparr>cfg_voters := [1, 2], cfg_seed_peers := [demo_seed 2], cfg_election_timeout := 0\<rparr>)
       MemoryStorage_new"

definition demo_connected :: "(nat, nat, nat) RaftBehaviour" where
  "demo_connected = on_swarm_event sorted_list_of_set demo_pair_node (ConnectionEstablished 102 7)"

definition demo_polled :: "(nat, nat, nat) RaftBehaviour" where
  "demo_polled = fst (poll_pass sorted_list_of_set demo_connected)"

definition demo_ticked :: "(nat, nat, nat) RaftBehaviour" where
  "demo_ticked = fst (poll_pass sorted_list_of_set demo_polled)"

definition demo_elected :: "(nat, nat, nat) RaftBehaviour" where
  "demo_elected = on_connection_handler_event demo_ticked 102 7 (Response 1 (RequestVoteResp 1 True))"

definition demo_proposed :: "(nat, nat, nat) RaftBehaviour" where
  "demo_proposed = fst (behaviour_propose demo_elected [5])"

lemmas demo_states = demo_pair_node_def demo_connected_def demo_polled_def demo_ticked_def demo_elected_def
  demo_proposed_def demo_node_config_def demo_seed_def

lemma demo_run_ok:
  "behaviour_input_ok demo_pair_node (SwarmEvent (ConnectionEstablished 102 7))"
  "behaviour_input_ok demo_connected PollPass"
  "behaviour_input_ok demo_polled PollPass"
  "behaviour_input_ok demo_ticked (HandlerEvent 102 7 (Response 1 (RequestVoteResp 1 True)))"
  "behaviour_input_ok demo_elected (Propose [5])"
  by (simp_all add: fits_u64_def behaviour_eval demo_states cong: let_weak_cong)

lemma demo_run:
  "behaviour_run sorted_list_of_set demo_pair_node
     [SwarmEvent (ConnectionEstablished 102 7), PollPass, PollPass,
      HandlerEvent 102 7 (Response 1 (RequestVoteResp 1 True)), Propose [5]] = Some demo_proposed"
  using demo_run_ok
  by (simp del: behaviour_input_ok.simps on_swarm_event.simps
      add: demo_connected_def [symmetric] demo_polled_def [symmetric] demo_ticked_def [symmetric]
        demo_elected_def [symmetric] demo_proposed_def [symmetric])

theorem in_flight_is_pending_witness:
  "\<exists>cid r. map_of (pending demo_proposed) cid = Some r \<and> pr_to r = 2"
proof -
  have leader: "role (engine demo_proposed) = Leader" and flight: "2 \<in> ae_inflight (engine demo_proposed)"
    by (simp_all add: behaviour_eval demo_states cong: let_weak_cong)
  from in_flight_is_pending [OF demo_run [unfolded demo_pair_node_def] leader flight] show ?thesis by blast
qed





end
