(* ===== verification/BehaviourCredit.thy ===== *)
theory BehaviourCredit
  imports BehaviourInv ClusterCommit
begin

text \<open>
  The converse of \<open>BehaviourInv\<close>: every pending AppendEntries of a leader is the one its engine has marked
  and recorded in \<open>last_ae\<close>, so that at most one is in flight to each peer (and, in \<open>BehaviourTrace\<close>, its answer is
  credited to the request it answers). This needs one condition, that no AppendEntries of an earlier leadership
  is still pending when the engine becomes leader; \<open>StaleAnswer\<close> shows that it cannot be dropped.
\<close>

subsection \<open>One request in flight per peer\<close>

text \<open>The message is the AppendEntries the engine has marked and recorded for the peer.\<close>

definition recorded :: "('p, 'a) RaftEngine \<Rightarrow> NodeId \<Rightarrow> RaftMessage \<Rightarrow> bool" where
  "recorded e p m \<longleftrightarrow> p \<in> ae_inflight e \<and>
     (\<exists>t l pi pt es lc. m = AppendEntries t l pi pt es lc \<and> last_ae e p = Some (pi, length es))"

fun ae_sent :: "Action list \<Rightarrow> NodeId \<Rightarrow> bool" where
  "ae_sent [] p = False"
| "ae_sent (Send q m # as) p = (q = p \<and> rpc_kind m = KAppendEntries \<or> ae_sent as p)"
| "ae_sent (_ # as) p = ae_sent as p"

lemma ae_sent_append [simp]: "ae_sent (as @ bs) p \<longleftrightarrow> ae_sent as p \<or> ae_sent bs p"
proof (induction as)
  case (Cons a as)
  then show ?case by (cases a) auto
qed simp

lemma ae_sent_local: "\<forall>a \<in> set as. is_local a \<Longrightarrow> \<not> ae_sent as p"
proof (induction as)
  case (Cons a as)
  then show ?case by (cases a) auto
qed simp

text \<open>The actions still to be executed send each peer at most one AppendEntries, the recorded one.\<close>

fun sends_recorded :: "('p, 'a) RaftEngine \<Rightarrow> Action list \<Rightarrow> bool" where
  "sends_recorded e [] = True"
| "sends_recorded e (Send p m # as) = ((rpc_kind m = KAppendEntries \<longrightarrow> recorded e p m \<and> \<not> ae_sent as p) \<and>
     sends_recorded e as)"
| "sends_recorded e (Broadcast m # as) = (rpc_kind m \<noteq> KAppendEntries \<and> sends_recorded e as)"
| "sends_recorded e (_ # as) = sends_recorded e as"

abbreviation ae_pending :: "('p, 'a, 'c) RaftBehaviour \<Rightarrow> u64 \<Rightarrow> 'p PendingRequest \<Rightarrow> bool" where
  "ae_pending b cid r \<equiv> map_of (pending b) cid = Some r \<and> pr_kind r = KAppendEntries"

definition single_flight :: "('p, 'a, 'c) RaftBehaviour \<Rightarrow> Action list \<Rightarrow> bool" where
  "single_flight b as \<longleftrightarrow> sends_recorded (engine b) as \<and>
     (\<forall>cid r. ae_pending b cid r \<longrightarrow> recorded (engine b) (pr_to r) (pr_msg r) \<and> \<not> ae_sent as (pr_to r)) \<and>
     (\<forall>cid r cid' r'. ae_pending b cid r \<longrightarrow> ae_pending b cid' r' \<longrightarrow> pr_to r = pr_to r' \<longrightarrow> cid = cid')"

lemma single_flightI:
  assumes "sends_recorded (engine b) as"
    and "\<And>cid r. ae_pending b cid r \<Longrightarrow> recorded (engine b) (pr_to r) (pr_msg r)"
    and "\<And>cid r. ae_pending b cid r \<Longrightarrow> \<not> ae_sent as (pr_to r)"
    and "\<And>cid r cid' r'. ae_pending b cid r \<Longrightarrow> ae_pending b cid' r' \<Longrightarrow> pr_to r = pr_to r' \<Longrightarrow> cid = cid'"
  shows "single_flight b as"
  unfolding single_flight_def using assms by blast

lemma single_flightD:
  assumes "single_flight b as"
  shows "sends_recorded (engine b) as"
    and "ae_pending b cid r \<Longrightarrow> recorded (engine b) (pr_to r) (pr_msg r)"
    and "ae_pending b cid r \<Longrightarrow> \<not> ae_sent as (pr_to r)"
    and "ae_pending b cid r \<Longrightarrow> ae_pending b cid' r' \<Longrightarrow> pr_to r = pr_to r' \<Longrightarrow> cid = cid'"
  using assms unfolding single_flight_def by blast+

lemma single_flight_cong:
  assumes "single_flight b as" "engine b' = engine b" "pending b' = pending b"
  shows "single_flight b' as"
  using assms(1) unfolding single_flight_def assms(2,3) .

lemma recorded_failure:
  "recorded e p m \<Longrightarrow> p \<noteq> d \<or> k \<noteq> KAppendEntries \<Longrightarrow> recorded (fst (handle_rpc_failure e d k)) p m"
  by (auto simp: recorded_def handle_rpc_failure_def)

lemma sends_recorded_mono:
  "sends_recorded e as \<Longrightarrow> (\<And>p m. ae_sent as p \<Longrightarrow> recorded e p m \<Longrightarrow> recorded e' p m) \<Longrightarrow> sends_recorded e' as"
proof (induction as)
  case (Cons a as)
  then have "sends_recorded e' as" by (cases a) auto
  then show ?case using Cons.prems by (cases a) auto
qed simp

lemma sends_recorded_append:
  "sends_recorded e (as @ bs) \<longleftrightarrow>
    sends_recorded e as \<and> sends_recorded e bs \<and> (\<forall>p. ae_sent as p \<longrightarrow> \<not> ae_sent bs p)"
proof (induction as)
  case (Cons a as)
  then show ?case by (cases a) auto
qed simp

lemma sends_recorded_marked: "sends_recorded e as \<Longrightarrow> ae_sent as p \<Longrightarrow> p \<in> ae_inflight e"
proof (induction as)
  case (Cons a as)
  then show ?case by (cases a) (auto simp: recorded_def)
qed simp

lemma sends_recorded_local: "\<forall>a \<in> set as. is_local a \<Longrightarrow> sends_recorded e as"
proof (induction as)
  case (Cons a as)
  then show ?case by (cases a) auto
qed simp

subsection \<open>Executing the actions\<close>

lemma send_rpc_cases:
  obtains (dropped) "pending (send_rpc b d m) = pending b"
      "engine (send_rpc b d m) = fst (handle_rpc_failure (engine b) d (rpc_kind m))"
  | (sent) r where "pending (send_rpc b d m) = AList.update (next_correlation_id b) r (pending b)"
      "engine (send_rpc b d m) = engine b" "pr_to r = d" "pr_kind r = rpc_kind m" "pr_msg r = m"
proof (cases "pm_peer_id (peer_map b) d")
  case None
  then show ?thesis by (intro that(1)) (simp_all add: send_rpc_def Let_def)
next
  case (Some peer)
  show ?thesis
  proof (cases "is_connected b peer")
    case True
    then show ?thesis using Some
      by (intro that(2) [of "\<lparr>pr_correlation_id = next_correlation_id b, pr_to = d, pr_peer = peer,
          pr_kind = rpc_kind m, pr_sent_at = clock b (readings b), pr_msg = m\<rparr>"])
        (simp_all add: send_rpc_def Let_def case_prod_unfold)
  next
    case False
    then show ?thesis using Some by (intro that(1)) (simp_all add: send_rpc_def Let_def)
  qed
qed

lemma single_flight_send:
  assumes "single_flight b (Send d m # as)"
  shows "single_flight (send_rpc b d m) as"
proof (cases rule: send_rpc_cases [of b d m])
  case dropped
  note D = single_flightD [OF assms]
  let ?e = "engine (send_rpc b d m)"
  have keep: "recorded ?e p x" if "recorded (engine b) p x" "rpc_kind m = KAppendEntries \<longrightarrow> p \<noteq> d" for p x
    unfolding dropped(2) using that by (intro recorded_failure) auto
  show ?thesis
  proof (rule single_flightI)
    show "sends_recorded ?e as"
    proof (rule sends_recorded_mono)
      show "sends_recorded (engine b) as" using D(1) by simp
      show "recorded ?e p x" if "ae_sent as p" "recorded (engine b) p x" for p x
        using that D(1) by (intro keep) auto
    qed
    show "recorded ?e (pr_to r) (pr_msg r)" if "ae_pending (send_rpc b d m) cid r" for cid r
      using D(2) [of cid r] D(3) [of cid r] that by (intro keep) (auto simp: dropped(1))
    show "\<not> ae_sent as (pr_to r)" if "ae_pending (send_rpc b d m) cid r" for cid r
      using D(3) [of cid r] that by (auto simp: dropped(1))
    show "cid = cid'" if "ae_pending (send_rpc b d m) cid r" "ae_pending (send_rpc b d m) cid' r'" "pr_to r = pr_to r'"
      for cid r cid' r'
      using D(4) [of cid r cid' r'] that by (simp add: dropped(1))
  qed
next
  case (sent r0)
  note D = single_flightD [OF assms]
  let ?b = "send_rpc b d m"
  have m: "recorded (engine b) d m" "\<not> ae_sent as d" if "rpc_kind m = KAppendEntries" using D(1) that by auto
  have pend: "cid = next_correlation_id b \<and> r = r0 \<and> rpc_kind m = KAppendEntries \<or>
      cid \<noteq> next_correlation_id b \<and> ae_pending b cid r" if "ae_pending ?b cid r" for cid r
    using that sent(1,4) by (auto simp: update_conv' split: if_splits)
  have old: "pr_to r \<noteq> d \<or> rpc_kind m \<noteq> KAppendEntries" if "ae_pending b cid r" for cid r
    using D(3) [OF that] by auto
  show ?thesis
  proof (rule single_flightI)
    show "sends_recorded (engine ?b) as" using D(1) by (simp add: sent(2))
    show "recorded (engine ?b) (pr_to r) (pr_msg r)" if "ae_pending ?b cid r" for cid r
      using pend [OF that] D(2) [of cid r] m(1) by (auto simp: sent)
    show "\<not> ae_sent as (pr_to r)" if "ae_pending ?b cid r" for cid r
      using pend [OF that(1)] D(3) [of cid r] m(2) by (auto simp: sent)
    show "cid = cid'" if "ae_pending ?b cid r" "ae_pending ?b cid' r'" "pr_to r = pr_to r'" for cid r cid' r'
      using pend [OF that(1)] pend [OF that(2)] that(3) D(4) [of cid r cid' r'] old [of cid r] old [of cid' r'] sent(3)
      by auto
  qed
qed

lemma single_flight_other:
  assumes "single_flight b as" "rpc_kind m \<noteq> KAppendEntries"
  shows "single_flight (send_rpc b d m) as"
  by (rule single_flight_send) (use assms in \<open>auto simp: single_flight_def\<close>)

lemma single_flight_send_all:
  "single_flight b as \<Longrightarrow> rpc_kind m \<noteq> KAppendEntries \<Longrightarrow> single_flight (fold (\<lambda>v b. send_rpc b v m) vs b) as"
  by (induction vs arbitrary: b) (simp_all add: single_flight_other)

lemma single_flight_tail:
  assumes "single_flight b (a # as)"
  shows "single_flight b as"
proof (rule single_flightI)
  note D = single_flightD [OF assms]
  show "sends_recorded (engine b) as" using D(1) by (cases a) auto
  show "\<not> ae_sent as (pr_to r)" if "ae_pending b cid r" for cid r
    using D(3) [OF that] by (cases a) auto
qed (rule single_flightD [OF assms]; assumption)+

lemma single_flight_action:
  assumes "single_flight b (a # as)"
  shows "single_flight (execute_action None a b) as"
proof (cases a)
  case (Send d m)
  then show ?thesis using single_flight_send assms by simp
next
  case (Broadcast m)
  then have "rpc_kind m \<noteq> KAppendEntries" using single_flightD(1) [OF assms] by simp
  then show ?thesis using Broadcast single_flight_tail [OF assms] by (simp add: single_flight_send_all)
qed (use single_flight_tail [OF assms] in \<open>auto elim: single_flight_cong\<close>)

lemma single_flight_execute: "single_flight b as \<Longrightarrow> single_flight (execute_actions b as None) []"
  by (induction as arbitrary: b) (simp_all add: single_flight_action)

lemma single_flight_fail_pending:
  assumes "single_flight b []"
  shows "single_flight (fail_pending b cid err emit) []"
proof (cases "map_of (pending b) cid")
  case (Some r0)
  let ?b = "fail_pending b cid err emit"
  note D = single_flightD [OF assms]
  have e: "engine ?b = fst (handle_rpc_failure (engine b) (pr_to r0) (pr_kind r0))"
    using Some by (simp add: fail_pending_def Let_def case_prod_unfold)
  have pend: "ae_pending b c r \<and> c \<noteq> cid" if "ae_pending ?b c r" for c r
    using that by (auto simp: delete_conv' split: if_splits)
  show ?thesis
  proof (rule single_flightI)
    show "recorded (engine ?b) (pr_to r) (pr_msg r)" if "ae_pending ?b c r" for c r
      unfolding e
    proof (rule recorded_failure)
      show "recorded (engine b) (pr_to r) (pr_msg r)" using D(2) pend [OF that] by blast
      show "pr_to r \<noteq> pr_to r0 \<or> pr_kind r0 \<noteq> KAppendEntries"
        using D(4) [of c r cid r0] pend [OF that] Some by blast
    qed
    show "c = c'" if "ae_pending ?b c r" "ae_pending ?b c' r'" "pr_to r = pr_to r'" for c r c' r'
      using D(4) pend [OF that(1)] pend [OF that(2)] that(3) by blast
    show "sends_recorded (engine ?b) []" by simp
    show "\<not> ae_sent [] (pr_to r)" for r :: "'a PendingRequest" by simp
  qed
qed (use assms in \<open>simp add: fail_pending_def\<close>)

lemma single_flight_fail_all:
  "single_flight b [] \<Longrightarrow> single_flight (fold (\<lambda>id b. fail_pending b id err emit) ids b) []"
  by (induction ids arbitrary: b) (simp_all add: single_flight_fail_pending)

subsection \<open>The calls of a leader\<close>

text \<open>
  A call that leaves a leader leader: outside \<open>F\<close> a marked peer keeps its mark and its record and is sent
  nothing, and what is sent is recorded.
\<close>

definition flight_step :: "NodeId set \<Rightarrow> ('p, 'a) RaftEngine \<Rightarrow> ('p, 'a) RaftEngine \<Rightarrow> Action list \<Rightarrow> bool" where
  "flight_step F e e' as \<longleftrightarrow> sends_recorded e' as \<and>
     (\<forall>p \<in> ae_inflight e - F. \<not> ae_sent as p \<and> p \<in> ae_inflight e' \<and> last_ae e' p = last_ae e p)"

lemma flight_stepI:
  assumes "sends_recorded e' as"
    and "\<And>p. p \<in> ae_inflight e \<Longrightarrow> p \<notin> F \<Longrightarrow> \<not> ae_sent as p \<and> p \<in> ae_inflight e' \<and> last_ae e' p = last_ae e p"
  shows "flight_step F e e' as"
  using assms unfolding flight_step_def by blast

lemma flight_step_refl: "\<forall>a \<in> set as. is_local a \<Longrightarrow> flight_step F e e as"
  by (simp add: flight_step_def sends_recorded_local ae_sent_local)

lemma recorded_cong: "ae_inflight e' = ae_inflight e \<Longrightarrow> last_ae e' = last_ae e \<Longrightarrow> recorded e' p m = recorded e p m"
  by (simp add: recorded_def)

lemma flight_step_cong:
  assumes "flight_step F e e' as" "ae_inflight e'' = ae_inflight e'" "last_ae e'' = last_ae e'"
  shows "flight_step F e e'' as"
proof (rule flight_stepI)
  show "sends_recorded e'' as"
    by (rule sends_recorded_mono) (use assms in \<open>auto simp: flight_step_def recorded_cong [of e'' e']\<close>)
qed (use assms in \<open>auto simp: flight_step_def\<close>)

lemma flight_step_trans:
  assumes "flight_step F e e1 as" "flight_step {} e1 e2 bs"
  shows "flight_step F e e2 (as @ bs)"
proof (rule flight_stepI)
  have s: "sends_recorded e1 as" "sends_recorded e2 bs"
    and k: "\<And>p. p \<in> ae_inflight e1 \<Longrightarrow> \<not> ae_sent bs p \<and> p \<in> ae_inflight e2 \<and> last_ae e2 p = last_ae e1 p"
    using assms by (simp_all add: flight_step_def)
  have "sends_recorded e2 as"
    using s(1) by (rule sends_recorded_mono) (use k in \<open>auto simp: recorded_def\<close>)
  then show "sends_recorded e2 (as @ bs)"
    using s k sends_recorded_marked [OF s(1)] by (auto simp: sends_recorded_append)
  fix p assume "p \<in> ae_inflight e" "p \<notin> F"
  with assms(1) have "\<not> ae_sent as p \<and> p \<in> ae_inflight e1 \<and> last_ae e1 p = last_ae e p"
    by (simp add: flight_step_def)
  with k show "\<not> ae_sent (as @ bs) p \<and> p \<in> ae_inflight e2 \<and> last_ae e2 p = last_ae e p" by simp
qed

lemma send_flight:
  "flight_step {} e (fst (send_append_entries_to e q)) (push_opt [] (snd (send_append_entries_to e q)))"
proof (cases "q \<in> ae_inflight e \<or> build_append_entries e q = None")
  case True
  then have "send_append_entries_to e q = (e, None)" by (auto simp: send_append_entries_to_def)
  then show ?thesis by (simp add: push_opt_def flight_step_refl)
next
  case False
  then obtain msg prev n where b: "build_append_entries e q = Some (msg, prev, n)" "q \<notin> ae_inflight e" by auto
  have s: "send_append_entries_to e q =
      (e\<lparr>last_ae := (last_ae e)(q \<mapsto> (prev, n)), ae_inflight := insert q (ae_inflight e)\<rparr>, Some (Send q msg))"
    using b by (simp add: send_append_entries_to_def)
  from build_append_entries_Some [OF b(1)] obtain t l pt es lc where
    m: "msg = AppendEntries t l prev pt es lc" "n = length es" by blast
  show ?thesis using b(2)
    by (intro flight_stepI) (auto simp: s m push_opt_def recorded_def)
qed

lemma replicate_flight: "flight_step {} e (fst (replicate_to e ps)) (snd (replicate_to e ps))"
proof (induction ps arbitrary: e)
  case (Cons q ps)
  from flight_step_trans [OF send_flight Cons.IH, of e q] show ?case
    by (cases "snd (send_append_entries_to e q)") (simp_all add: Let_def case_prod_unfold push_opt_def)
qed (simp add: flight_step_refl)

lemma tick_flight:
  assumes "role e = Leader"
  shows "flight_step {} e (fst (tick e now)) (out_actions (snd (tick e now)))"
proof -
  have "flight_step {} e (fst (replicate_actions e)\<lparr>heartbeat_deadline := d\<rparr>) (snd (replicate_actions e))" for d
    unfolding replicate_actions_def by (rule flight_step_cong [OF replicate_flight]) simp_all
  then show ?thesis using assms by (auto simp: tick_def Let_def case_prod_unfold flight_step_refl)
qed

lemma propose_flight:
  assumes "role e = Leader" "snd (propose e d) = Inr (i, as)"
  shows "flight_step {} e (fst (propose e d)) as"
proof -
  have "flight_step {} (with_entry e (proposed e d)) (fst (replicate_actions (with_entry e (proposed e d))))
      (snd (replicate_actions (with_entry e (proposed e d))))"
    unfolding replicate_actions_def by (rule replicate_flight)
  then show ?thesis using assms by (auto simp: propose_unfold flight_step_def)
qed

lemma append_entries_resp_flight:
  fixes e :: "('p, 'a) RaftEngine"
  assumes "role e = Leader" "role (fst (handle_append_entries_resp e s t ok m now)) = Leader"
  shows "flight_step {s} e (fst (handle_append_entries_resp e s t ok m now)) (snd (handle_append_entries_resp e s t ok m now))"
proof -
  let ?r = "handle_append_entries_resp e s t ok m now"
  have le: "t \<le> engine_current_term e"
    using assms(2) append_entries_resp_role [of e t s ok m now] by (cases "t \<le> engine_current_term e") auto
  have freed: "flight_step {s} e x as"
    if "ae_inflight x = ae_inflight e - {s}" "last_ae x = last_ae e" "\<forall>a \<in> set as. is_local a"
    for x :: "('p, 'a) RaftEngine" and as
    by (rule flight_stepI) (use that in \<open>simp_all add: sends_recorded_local ae_sent_local\<close>)
  have sent: "flight_step {s} e (fst (send_append_entries_to x s)) (push_opt as (snd (send_append_entries_to x s)))"
    if "ae_inflight x = ae_inflight e - {s}" "last_ae x = last_ae e" "\<forall>a \<in> set as. is_local a"
    for x :: "('p, 'a) RaftEngine" and as
    using flight_step_trans [OF freed [OF that] send_flight [of x s]] by (simp add: push_opt_def split: option.splits)
  have commit: "\<forall>a \<in> set (snd (maybe_commit x [])). is_local a" for x :: "('p, 'a) RaftEngine"
    using maybe_commit_action [of _ x] by fastforce
  show ?thesis
  proof (cases "t = engine_current_term e \<and> last_ae e s \<noteq> None")
    case False
    have "?r = (e, [])"
    proof (cases "t = engine_current_term e")
      case True
      with False have "last_ae e s = None" by (cases "last_ae e s") auto
      with True assms(1) show ?thesis by (simp add: handle_append_entries_resp_def Let_def)
    next
      case False
      with le assms(1) show ?thesis by (auto simp: handle_append_entries_resp_def Let_def)
    qed
    then show ?thesis by (simp add: flight_step_refl)
  next
    case True
    then obtain i k where l: "t = engine_current_term e" "last_ae e s = Some (i, k)" by auto
    show ?thesis
      using assms(1) l
      by (simp add: handle_append_entries_resp_def Let_def case_prod_unfold freed sent commit)
  qed
qed

text \<open>A request leaves a leader as it is, or makes it a follower.\<close>

lemma request_keeps_leader:
  assumes "is_request m" "role (fst (handle_rpc e s m now)) = Leader"
  shows "fst (handle_rpc e s m now) = e"
proof (cases m)
  case (RequestVote t c li lt)
  then have "\<not> grants_vote e t c li lt" "\<not> engine_current_term e < t"
    using assms(2) by (auto simp: handle_request_vote_spec)
  then show ?thesis using RequestVote
    by (auto simp: handle_request_vote_def Let_def grants_vote_def log_is_up_to_date_iff engine_current_term_def)
next
  case (AppendEntries t l pi pt es lc)
  then show ?thesis using assms(2)
    by (cases "t < engine_current_term e") (auto simp: append_entries_stale append_entries_role)
qed (use assms(1) in simp_all)

lemma single_flight_call:
  assumes "single_flight b []" "flight_step F (engine b) e' as"
    and "\<And>cid r. ae_pending b cid r \<Longrightarrow> pr_to r \<notin> F"
  shows "single_flight (b\<lparr>engine := e'\<rparr>) as"
proof (rule single_flightI)
  note D = single_flightD [OF assms(1)]
  show "sends_recorded (engine (b\<lparr>engine := e'\<rparr>)) as" using assms(2) by (simp add: flight_step_def)
  show "recorded (engine (b\<lparr>engine := e'\<rparr>)) (pr_to r) (pr_msg r)" "\<not> ae_sent as (pr_to r)"
    if "ae_pending (b\<lparr>engine := e'\<rparr>) cid r" for cid r
  proof -
    from that have r: "ae_pending b cid r" by simp
    have "pr_to r \<in> ae_inflight (engine b) - F" using D(2) [OF r] assms(3) [OF r] by (auto simp: recorded_def)
    then have "\<not> ae_sent as (pr_to r) \<and> pr_to r \<in> ae_inflight e' \<and> last_ae e' (pr_to r) = last_ae (engine b) (pr_to r)"
      using assms(2) by (simp add: flight_step_def)
    with D(2) [OF r] show "recorded (engine (b\<lparr>engine := e'\<rparr>)) (pr_to r) (pr_msg r)" "\<not> ae_sent as (pr_to r)"
      by (simp_all add: recorded_def)
  qed
  show "cid = cid'" if "ae_pending (b\<lparr>engine := e'\<rparr>) cid r" "ae_pending (b\<lparr>engine := e'\<rparr>) cid' r'" "pr_to r = pr_to r'"
    for cid r cid' r'
    using D(4) [of cid r cid' r'] that by simp
qed

subsection \<open>Every event keeps one request in flight\<close>

definition kinds_ok :: "('p, 'a, 'c) RaftBehaviour \<Rightarrow> bool" where
  "kinds_ok b \<longleftrightarrow> (\<forall>cid r. map_of (pending b) cid = Some r \<longrightarrow> pr_kind r = rpc_kind (pr_msg r))"

lemma kinds_ok_simps [simp]:
  "kinds_ok (b\<lparr>engine := e\<rparr>) = kinds_ok b" "kinds_ok (b\<lparr>readings := n\<rparr>) = kinds_ok b"
  "kinds_ok (b\<lparr>inbound_channels := c\<rparr>) = kinds_ok b" "kinds_ok (b\<lparr>pending_events := evs\<rparr>) = kinds_ok b"
  "kinds_ok (b\<lparr>dialing := D\<rparr>) = kinds_ok b" "kinds_ok (b\<lparr>dial_backoff_until := B\<rparr>) = kinds_ok b"
  "kinds_ok (b\<lparr>connected := C\<rparr>) = kinds_ok b" "kinds_ok (b\<lparr>waker := w\<rparr>) = kinds_ok b"
  "kinds_ok (push_event b ev) = kinds_ok b" "kinds_ok (arm_sleep b d) = kinds_ok b"
  "kinds_ok (dial_seed b p) = kinds_ok b" "kinds_ok (dial_backoff b p) = kinds_ok b"
  by (simp_all add: kinds_ok_def dial_backoff_def Let_def case_prod_unfold)

lemma kinds_ok_delete: "kinds_ok b \<Longrightarrow> kinds_ok (b\<lparr>pending := AList.delete cid (pending b)\<rparr>)"
  by (simp add: kinds_ok_def delete_conv')

lemma kinds_ok_send: "kinds_ok b \<Longrightarrow> kinds_ok (send_rpc b d m)"
  by (cases rule: send_rpc_cases [of b d m]) (auto simp: kinds_ok_def update_conv')

lemma kinds_ok_send_all: "kinds_ok b \<Longrightarrow> kinds_ok (fold (\<lambda>v b. send_rpc b v m) vs b)"
  by (induction vs arbitrary: b) (simp_all add: kinds_ok_send)

lemma kinds_ok_action: "kinds_ok b \<Longrightarrow> kinds_ok (execute_action inb a b)"
  by (cases a) (simp_all add: kinds_ok_send kinds_ok_send_all split: option.split)

lemma kinds_ok_execute: "kinds_ok b \<Longrightarrow> kinds_ok (execute_actions b as inb)"
  by (induction as arbitrary: b) (simp_all add: kinds_ok_action)

lemma kinds_ok_fail_pending: "kinds_ok b \<Longrightarrow> kinds_ok (fail_pending b cid err emit)"
  by (simp add: kinds_ok_def delete_conv')

lemma kinds_ok_fail_all: "kinds_ok b \<Longrightarrow> kinds_ok (fold (\<lambda>id b. fail_pending b id err emit) ids b)"
  by (induction ids arbitrary: b) (simp_all add: kinds_ok_fail_pending)

lemma kinds_ok_swarm: "kinds_ok b \<Longrightarrow> kinds_ok (on_swarm_event ho b ev)"
  by (cases ev) (auto simp: Let_def fail_peer_pending_def kinds_ok_fail_all split: option.split)

lemma kinds_ok_handler:
  assumes "kinds_ok b"
  shows "kinds_ok (on_connection_handler_event b peer conn ev)"
proof -
  have "kinds_ok (execute_actions (b\<lparr>readings := n, pending := AList.delete cid (pending b), engine := e\<rparr>) as inb)"
    for n cid e as inb
    by (rule kinds_ok_execute) (use assms in \<open>simp add: kinds_ok_def delete_conv'\<close>)
  then show ?thesis using assms
    by (cases ev)
      (auto simp: on_connection_handler_event_def Let_def case_prod_unfold kinds_ok_fail_pending kinds_ok_execute
        split: option.split)
qed

lemma kinds_ok_propose: "kinds_ok b \<Longrightarrow> kinds_ok (fst (behaviour_propose b data))"
  by (auto simp: behaviour_propose_def Let_def case_prod_unfold kinds_ok_execute split: sum.split)

lemma kinds_ok_tick: "kinds_ok b \<Longrightarrow> kinds_ok (tick_if_due b now)"
  by (simp add: tick_if_due_def Let_def case_prod_unfold kinds_ok_execute)

lemma pop_event_sel:
  "pop_event b = Some (b', ev) \<Longrightarrow> engine b' = engine b \<and> pending b' = pending b"
  by (auto simp: pop_event_def split: list.splits)

lemma poll_sleep_sel: "engine (fst (poll_sleep b)) = engine b \<and> pending (fst (poll_sleep b)) = pending b"
  by (simp add: poll_sleep_def Let_def)

text \<open>
  Apart from sleeping and popping events a pass of \<open>poll\<close> is nothing, an expiry, or an expiry and a tick.
\<close>

lemma poll_pass_cases:
  obtains (popped) "engine (fst (poll_pass ho b)) = engine b" "pending (fst (poll_pass ho b)) = pending b"
  | (expired) b2 where "b2 = expire_pending ho (b\<lparr>readings := Suc (readings b)\<rparr>) (clock b (readings b))"
      "engine (fst (poll_pass ho b)) = engine b2" "pending (fst (poll_pass ho b)) = pending b2"
  | (ticked) b2 where "b2 = expire_pending ho (b\<lparr>readings := Suc (readings b)\<rparr>) (clock b (readings b))"
      "engine (fst (poll_pass ho b)) = engine (tick_if_due b2 (clock b (readings b)))"
      "pending (fst (poll_pass ho b)) = pending (tick_if_due b2 (clock b (readings b)))"
proof (cases "pop_event b")
  case (Some r)
  then show ?thesis using pop_event_sel [of b] by (cases r) (intro popped; simp add: poll_pass_def)
next
  case None
  let ?now = "clock b (readings b)" and ?b2 = "expire_pending ho (b\<lparr>readings := Suc (readings b)\<rparr>) (clock b (readings b))"
  show ?thesis
  proof (cases "pop_event ?b2")
    case (Some r)
    then show ?thesis using None pop_event_sel [of ?b2]
      by (cases r) (intro expired [OF refl]; simp add: poll_pass_def Let_def case_prod_unfold)
  next
    case none2: None
    show ?thesis
    proof (cases "next_deadline (engine ?b2) \<le> ?now")
      case True
      let ?b3 = "tick_if_due ?b2 ?now"
      have p: "fst (poll_pass ho b) = (case pop_event ?b3 of Some y \<Rightarrow> fst y | None \<Rightarrow> fst (poll_sleep ?b3))"
        using True None none2 by (simp add: poll_pass_def Let_def case_prod_unfold split: option.split)
      show ?thesis
      proof (cases "pop_event ?b3")
        case (Some r)
        with pop_event_sel [of ?b3] p show ?thesis by (cases r) (intro ticked [OF refl]; simp)
      next
        case n3: None
        with p poll_sleep_sel [of ?b3] show ?thesis by (intro ticked [OF refl]) simp_all
      qed
    next
      case False
      then show ?thesis using None none2 poll_sleep_sel [of ?b2]
        by (intro expired [OF refl]) (simp_all add: poll_pass_def Let_def case_prod_unfold)
    qed
  qed
qed

lemma kinds_ok_cong: "kinds_ok b \<Longrightarrow> pending b' = pending b \<Longrightarrow> kinds_ok b'"
  by (simp add: kinds_ok_def)

lemma kinds_ok_poll:
  assumes "kinds_ok b"
  shows "kinds_ok (fst (poll_pass ho b))"
proof -
  have e: "kinds_ok (expire_pending ho (b\<lparr>readings := n\<rparr>) now)" for n now
    using assms by (simp add: expire_pending_def kinds_ok_fail_all)
  show ?thesis
  proof (cases rule: poll_pass_cases [of ho b])
    case popped
    show ?thesis by (rule kinds_ok_cong [OF assms popped(2)])
  next
    case (expired b2)
    show ?thesis by (rule kinds_ok_cong [OF _ expired(3)]) (simp add: expired(1) e)
  next
    case (ticked b2)
    show ?thesis by (rule kinds_ok_cong [OF _ ticked(3)]) (simp add: ticked(1) e kinds_ok_tick)
  qed
qed

lemma single_flight_swarm:
  assumes "single_flight b []"
  shows "single_flight (on_swarm_event ho b ev) []"
proof (cases ev)
  case (ConnectionEstablished peer conn)
  then show ?thesis by (auto intro: single_flight_cong [OF assms])
next
  case (ConnectionClosed peer conn)
  have "single_flight (b\<lparr>connected := C, dialing := D\<rparr>) []" "single_flight (b\<lparr>dialing := D\<rparr>) []" for C D
    by (rule single_flight_cong [OF assms]; simp)+
  then show ?thesis using ConnectionClosed
    by (cases "connected b peer") (auto simp: Let_def fail_peer_pending_def intro!: single_flight_fail_all)
next
  case (DialFailure maybe_peer err)
  have bo: "single_flight (dial_backoff (b\<lparr>dialing := D\<rparr>) p) []" "single_flight (b\<lparr>dialing := D\<rparr>) []" for D p
    by (rule single_flight_cong [OF assms]; simp add: dial_backoff_def Let_def case_prod_unfold)+
  have push: "single_flight (push_event c ev) []" if "single_flight c []" for c :: "('a, 'b, 'c) RaftBehaviour" and ev
    by (rule single_flight_cong [OF that]) simp_all
  show ?thesis using DialFailure assms
    by (cases maybe_peer) (auto simp: Let_def fail_peer_pending_def intro!: single_flight_fail_all push bo)
qed (use assms in simp)

lemma single_flight_delete:
  assumes "single_flight b []"
  shows "single_flight (b\<lparr>pending := AList.delete cid (pending b)\<rparr>) []"
proof (rule single_flightI)
  note D = single_flightD [OF assms]
  let ?b = "b\<lparr>pending := AList.delete cid (pending b)\<rparr>"
  have pend: "ae_pending b c r" if "ae_pending ?b c r" for c r
    using that by (auto simp: delete_conv' split: if_splits)
  show "recorded (engine ?b) (pr_to r) (pr_msg r)" if "ae_pending ?b c r" for c r using D(2) [OF pend [OF that]] by simp
  show "c = c'" if "ae_pending ?b c r" "ae_pending ?b c' r'" "pr_to r = pr_to r'" for c r c' r'
    by (rule D(4) [OF pend [OF that(1)] pend [OF that(2)] that(3)])
qed simp_all

lemma single_flight_response:
  assumes "single_flight b []" "kinds_ok b" "role (engine b) = Leader"
    and "case map_of (pending b) cid of Some r \<Rightarrow> answers (pr_msg r) msg | None \<Rightarrow> True"
    and "role (engine (on_connection_handler_event b peer conn (Response cid msg))) = Leader"
  shows "single_flight (on_connection_handler_event b peer conn (Response cid msg)) []"
proof (cases "map_of (pending b) cid")
  case None
  then show ?thesis
    by (intro single_flight_cong [OF assms(1)]) (simp_all add: on_connection_handler_event_def Let_def case_prod_unfold)
next
  case (Some r)
  let ?b' = "on_connection_handler_event b peer conn (Response cid msg)"
  let ?r = "handle_rpc (engine b) (pr_to r) msg (clock b (readings b))"
  let ?d = "b\<lparr>pending := AList.delete cid (pending b)\<rparr>"
  let ?b = "b\<lparr>readings := Suc (readings b), pending := AList.delete cid (pending b), engine := fst ?r\<rparr>"
  have b': "engine ?b' = engine (execute_actions ?b (snd ?r) None)" "pending ?b' = pending (execute_actions ?b (snd ?r) None)"
    using Some by (simp_all add: on_connection_handler_event_def Let_def case_prod_unfold)
  have L: "role (fst ?r) = Leader"
    using assms(5) marks_cleared_sel(1) [OF execute_actions_engine [of ?b "snd ?r" None]] by (simp add: b'(1))
  have "single_flight (?d\<lparr>engine := fst ?r\<rparr>) (snd ?r)"
  proof (cases msg)
    case (RequestVoteResp t g)
    then have "?r = (engine b, [])"
      using L assms(3) by (auto simp: handle_request_vote_resp_def Let_def split: if_splits)
    then show ?thesis using single_flight_delete [OF assms(1), of cid] by simp
  next
    case (AppendEntriesResp t ok m)
    have kae: "pr_kind r = KAppendEntries"
      using assms(2,4) Some AppendEntriesResp by (cases "pr_msg r") (auto simp: kinds_ok_def)
    have other: "pr_to r' \<notin> {pr_to r}" if "ae_pending ?d c r'" for c r'
    proof
      assume "pr_to r' \<in> {pr_to r}"
      moreover have "ae_pending b c r'" "c \<noteq> cid" using that by (auto simp: delete_conv' split: if_splits)
      ultimately show False using single_flightD(4) [OF assms(1), of c r' cid r] Some kae by simp
    qed
    have "flight_step {pr_to r} (engine ?d) (fst ?r) (snd ?r)"
      using append_entries_resp_flight [OF assms(3)] L AppendEntriesResp by simp
    then show ?thesis by (rule single_flight_call [OF single_flight_delete [OF assms(1)]]) (rule other)
  qed (use assms(4) Some in \<open>cases "pr_msg r"; simp\<close>)+
  then have "single_flight ?b (snd ?r)" by (rule single_flight_cong) simp_all
  then have "single_flight (execute_actions ?b (snd ?r) None) []" by (rule single_flight_execute)
  then show ?thesis by (rule single_flight_cong [OF _ b'])
qed

lemma single_flight_request:
  assumes "single_flight b []" "\<not> is_response msg"
    and "role (engine (on_connection_handler_event b peer conn (Request cid msg ch))) = Leader"
  shows "single_flight (on_connection_handler_event b peer conn (Request cid msg ch)) []"
proof (cases "pm_node_id (peer_map b) peer")
  case None
  then show ?thesis
    by (intro single_flight_cong [OF assms(1)]) (simp_all add: on_connection_handler_event_def Let_def case_prod_unfold)
next
  case (Some src)
  show ?thesis
  proof (cases "is_request msg")
    case True
    note ans = request_answered [OF Some True, of conn cid ch, unfolded Let_def]
    then have "engine (on_connection_handler_event b peer conn (Request cid msg ch)) = engine b"
      using request_keeps_leader [OF True] assms(3) by auto
    with ans show ?thesis by (intro single_flight_cong [OF assms(1)]) auto
  next
    case False
    then have "handle_rpc (engine b) src msg now = (engine b, [])" for now
      using assms(2) by (cases msg) auto
    then show ?thesis using Some
      by (intro single_flight_cong [OF assms(1)]) (simp_all add: on_connection_handler_event_def Let_def case_prod_unfold)
  qed
qed

lemma single_flight_failure:
  assumes "single_flight b []"
  shows "single_flight (on_connection_handler_event b peer conn (Failure c err)) []"
proof -
  let ?b = "b\<lparr>readings := Suc (readings b)\<rparr>"
  have b: "single_flight ?b []" by (rule single_flight_cong [OF assms]) simp_all
  have f: "single_flight (arm_sleep (fail_pending ?b cid err True) d) []" for cid d
    by (rule single_flight_cong [OF single_flight_fail_pending [OF b]]) simp_all
  have p: "single_flight (arm_sleep (push_event ?b ev) d) []" for ev d
    by (rule single_flight_cong [OF b]) simp_all
  show ?thesis using f p by (cases c) (simp_all add: on_connection_handler_event_def Let_def case_prod_unfold)
qed

lemma single_flight_tick:
  assumes "single_flight b []" "role (engine b) = Leader"
  shows "single_flight (tick_if_due b now) []"
proof -
  have "single_flight (b\<lparr>engine := fst (tick (engine b) now)\<rparr>) (out_actions (snd (tick (engine b) now)))"
    by (rule single_flight_call [OF assms(1) tick_flight [OF assms(2)]]) simp
  from single_flight_execute [OF this] show ?thesis
    by (rule single_flight_cong) (simp_all add: tick_if_due_def Let_def case_prod_unfold)
qed

lemma single_flight_propose:
  assumes "single_flight b []" "role (engine b) = Leader"
  shows "single_flight (fst (behaviour_propose b data)) []"
proof -
  obtain i as where p: "snd (propose (engine b) data) = Inr (i, as)" using assms(2) by (simp add: propose_unfold)
  have "single_flight (b\<lparr>engine := fst (propose (engine b) data)\<rparr>) as"
    by (rule single_flight_call [OF assms(1) propose_flight [OF assms(2) p]]) simp
  from single_flight_execute [OF this] show ?thesis
    by (rule single_flight_cong) (simp_all add: behaviour_propose_def Let_def case_prod_unfold p)
qed

lemma single_flight_poll:
  assumes "single_flight b []" "role (engine b) = Leader"
  shows "single_flight (fst (poll_pass ho b)) []"
proof -
  let ?b2 = "expire_pending ho (b\<lparr>readings := Suc (readings b)\<rparr>) (clock b (readings b))"
  have "single_flight (b\<lparr>readings := Suc (readings b)\<rparr>) []" by (rule single_flight_cong [OF assms(1)]) simp_all
  then have e: "single_flight ?b2 []" unfolding expire_pending_def by (rule single_flight_fail_all)
  have "role (engine ?b2) = Leader"
    using assms(2) by (simp add: expire_pending_def marks_cleared_sel(1) [OF fail_all_engine])
  note t = single_flight_tick [OF e this]
  show ?thesis
  proof (cases rule: poll_pass_cases [of ho b])
    case popped
    show ?thesis by (rule single_flight_cong [OF assms(1) popped])
  next
    case (expired b2)
    show ?thesis by (rule single_flight_cong [OF e]) (simp_all add: expired)
  next
    case (ticked b2)
    show ?thesis by (rule single_flight_cong [OF t]) (simp_all add: ticked)
  qed
qed

text \<open>
  The condition: when a call makes the engine leader, no AppendEntries is pending. (One that is was sent
  in an earlier term.)
\<close>

definition fresh_leader :: "('p, 'a, 'c) RaftBehaviour \<Rightarrow> ('p, 'a, 'c) RaftBehaviour \<Rightarrow> bool" where
  "fresh_leader b b' \<longleftrightarrow> (role (engine b) \<noteq> Leader \<and> role (engine b') = Leader \<longrightarrow>
     (\<forall>r \<in> snd ` set (pending b'). pr_kind r \<noteq> KAppendEntries))"

fun fresh_run ::
  "(u64 set \<Rightarrow> u64 list) \<Rightarrow> ('p, 'a, 'c) RaftBehaviour \<Rightarrow> ('p, 'c) BehaviourInput list \<Rightarrow> bool" where
  "fresh_run ho b [] = True"
| "fresh_run ho b (i # is) = (fresh_leader b (behaviour_step ho b i) \<and> fresh_run ho (behaviour_step ho b i) is)"

definition flight_inv :: "('p, 'a, 'c) RaftBehaviour \<Rightarrow> bool" where
  "flight_inv b \<longleftrightarrow> kinds_ok b \<and> (role (engine b) = Leader \<longrightarrow> single_flight b [])"

lemma flight_inv_step:
  assumes "flight_inv b" "behaviour_input_ok b i" "fresh_leader b (behaviour_step ho b i)"
  shows "flight_inv (behaviour_step ho b i)"
proof -
  have k: "kinds_ok b" and f: "role (engine b) = Leader \<Longrightarrow> single_flight b []"
    using assms(1) by (auto simp: flight_inv_def)
  have "kinds_ok (behaviour_step ho b i)"
    using k by (cases i) (simp_all add: kinds_ok_swarm kinds_ok_handler kinds_ok_poll kinds_ok_propose)
  moreover have "single_flight (behaviour_step ho b i) []" if L': "role (engine (behaviour_step ho b i)) = Leader"
  proof (cases "role (engine b) = Leader")
    case False
    with assms(3) L' have "pr_kind r \<noteq> KAppendEntries" if "map_of (pending (behaviour_step ho b i)) cid = Some r" for cid r
      using map_of_SomeD [OF that] unfolding fresh_leader_def by force
    then show ?thesis unfolding single_flight_def by auto
  next
    case True
    note f = f [OF True]
    show ?thesis
    proof (cases i)
      case (SwarmEvent ev)
      then show ?thesis by (simp add: single_flight_swarm [OF f])
    next
      case (HandlerEvent peer conn ev)
      then show ?thesis
        using assms(2) L' single_flight_response [OF f k True] single_flight_request [OF f] single_flight_failure [OF f]
        by (cases ev) simp_all
    next
      case (DialSeed peer)
      then show ?thesis by (intro single_flight_cong [OF f]) simp_all
    qed (simp_all add: single_flight_poll [OF f True] single_flight_propose [OF f True])
  qed
  ultimately show ?thesis by (simp add: flight_inv_def)
qed

lemma flight_inv_new: "flight_inv (RaftBehaviour_new hov clk rnd rdy cfg st)"
  by (simp add: flight_inv_def kinds_ok_def RaftBehaviour_new_def Let_def engine_new_def)

lemma flight_inv_run:
  "flight_inv b \<Longrightarrow> behaviour_run ho b is = Some b' \<Longrightarrow> fresh_run ho b is \<Longrightarrow> flight_inv b'"
proof (induction "is" arbitrary: b)
  case (Cons i "is")
  from Cons.prems(2) have ok: "behaviour_input_ok b i" and r: "behaviour_run ho (behaviour_step ho b i) is = Some b'"
    by (auto simp del: behaviour_input_ok.simps split: if_splits)
  from Cons.prems(3) have fr: "fresh_leader b (behaviour_step ho b i)" "fresh_run ho (behaviour_step ho b i) is" by simp_all
  show ?case by (rule Cons.IH [OF flight_inv_step [OF Cons.prems(1) ok fr(1)] r fr(2)])
qed simp

text \<open>The pending request the mark of a peer stands for.\<close>

lemma flight_recorded:
  assumes "flight_inv b" "role (engine b) = Leader" "map_of (pending b) cid = Some r"
    and "pr_msg r = AppendEntries t l pi pt es lc"
  shows "pr_to r \<in> ae_inflight (engine b)" "last_ae (engine b) (pr_to r) = Some (pi, length es)"
proof -
  have "pr_kind r = KAppendEntries" using assms(1,3,4) by (simp add: flight_inv_def kinds_ok_def)
  then have "recorded (engine b) (pr_to r) (AppendEntries t l pi pt es lc)"
    using assms single_flightD(2) [of b "[]" cid r] by (simp add: flight_inv_def)
  then show "pr_to r \<in> ae_inflight (engine b)" "last_ae (engine b) (pr_to r) = Some (pi, length es)"
    by (auto simp: recorded_def)
qed

lemma flight_unique:
  assumes "flight_inv b" "behaviour_inv b" "role (engine b) = Leader"
  shows "p \<in> ae_inflight (engine b) \<longleftrightarrow>
    (\<exists>!cid. \<exists>r. map_of (pending b) cid = Some r \<and> pr_to r = p \<and> pr_kind r = KAppendEntries)"
proof
  have f: "single_flight b []" using assms(1,3) by (simp add: flight_inv_def)
  {
    assume "p \<in> ae_inflight (engine b)"
    then obtain cid r where "map_of (pending b) cid = Some r \<and> pr_to r = p \<and> pr_kind r = KAppendEntries"
      using assms(2,3) unfolding behaviour_inv_def tracked_def covered_def by (metis empty_iff list.set(1))
    then show "\<exists>!cid. \<exists>r. map_of (pending b) cid = Some r \<and> pr_to r = p \<and> pr_kind r = KAppendEntries"
      using single_flightD(4) [OF f] by (intro ex1I [of _ cid]) auto
  next
    assume "\<exists>!cid. \<exists>r. map_of (pending b) cid = Some r \<and> pr_to r = p \<and> pr_kind r = KAppendEntries"
    then obtain cid r where "ae_pending b cid r" "pr_to r = p" by blast
    with single_flightD(2) [OF f] show "p \<in> ae_inflight (engine b)" by (auto simp: recorded_def)
  }
qed

lemma flight_term:
  assumes "flight_inv b" "behaviour_inv b" "role (engine b) = Leader" "map_of (pending b) cid = Some r"
    and "pr_msg r = AppendEntries t l pi pt es lc"
  shows "t = engine_current_term (engine b)"
proof -
  note rec = flight_recorded [OF assms(1,3-5)]
  then obtain cid' r' l' pi' pt' es' lc' where r': "ae_pending b cid' r'" "pr_to r' = pr_to r"
      "pr_msg r' = AppendEntries (engine_current_term (engine b)) l' pi' pt' es' lc'"
    using assms(2,3) unfolding behaviour_inv_def tracked_def covered_def by (metis empty_iff list.set(1))
  have "pr_kind r = KAppendEntries" using assms(1,4,5) by (simp add: flight_inv_def kinds_ok_def)
  with r'(1,2) assms(1,3,4) have "cid' = cid"
    using single_flightD(4) [of b "[]" cid' r' cid r] by (simp add: flight_inv_def)
  with assms(4,5) r' show ?thesis by simp
qed

subsection \<open>Properties\<close>

text \<open>
  C15: One AppendEntries in flight per peer. In every state the behaviour reaches from its start, if no
  AppendEntries of an earlier leadership was pending whenever the engine became leader, a peer is marked
  by a leader exactly if one AppendEntries to it is pending and no other; a pending one is of the current
  term and is the request \<open>last_ae\<close> describes.
\<close>

theorem one_request_per_peer:
  assumes "behaviour_run ho (RaftBehaviour_new hov clk rnd rdy cfg st) is = Some b"
    and "fresh_run ho (RaftBehaviour_new hov clk rnd rdy cfg st) is" and "role (engine b) = Leader"
  shows "(\<forall>p. p \<in> ae_inflight (engine b) \<longleftrightarrow>
      (\<exists>!cid. \<exists>r. map_of (pending b) cid = Some r \<and> pr_to r = p \<and> pr_kind r = KAppendEntries)) \<and>
    (\<forall>cid r t l pi pt es lc. map_of (pending b) cid = Some r \<longrightarrow> pr_msg r = AppendEntries t l pi pt es lc \<longrightarrow>
      t = engine_current_term (engine b) \<and> last_ae (engine b) (pr_to r) = Some (pi, length es))"
proof (intro conjI allI impI)
  note inv = flight_inv_run [OF flight_inv_new assms(1,2)]
  note tracked = behaviour_run_inv [OF behaviour_inv_new assms(1)]
  show "p \<in> ae_inflight (engine b) \<longleftrightarrow>
      (\<exists>!cid. \<exists>r. map_of (pending b) cid = Some r \<and> pr_to r = p \<and> pr_kind r = KAppendEntries)" for p
    by (rule flight_unique [OF inv tracked assms(3)])
  fix cid r t l pi pt es lc
  assume r: "map_of (pending b) cid = Some r" "pr_msg r = AppendEntries t l pi pt es lc"
  show "t = engine_current_term (engine b)" by (rule flight_term [OF inv tracked assms(3) r])
  show "last_ae (engine b) (pr_to r) = Some (pi, length es)" by (rule flight_recorded(2) [OF inv assms(3) r])
qed

lemma demo_fresh_run:
  "fresh_run sorted_list_of_set demo_pair_node
     [SwarmEvent (ConnectionEstablished 102 7), PollPass, PollPass,
      HandlerEvent 102 7 (Response 1 (RequestVoteResp 1 True)), Propose [5]]"
  by (simp add: fresh_leader_def behaviour_eval demo_states cong: let_weak_cong)

theorem one_request_per_peer_witness:
  "\<exists>!cid. \<exists>r. map_of (pending demo_proposed) cid = Some r \<and> pr_to r = 2 \<and> pr_kind r = KAppendEntries"
proof -
  have "role (engine demo_proposed) = Leader" "2 \<in> ae_inflight (engine demo_proposed)"
    by (simp_all add: behaviour_eval demo_states cong: let_weak_cong)
  with one_request_per_peer [OF demo_run [unfolded demo_pair_node_def] demo_fresh_run [unfolded demo_pair_node_def]]
  show ?thesis by blast
qed

end
