(* ===== verification/BehaviourTrace.thy ===== *)
theory BehaviourTrace
  imports BehaviourCredit
begin

text \<open>
  What one call of the behaviour does, seen from outside: it makes at most one call of the engine apart from
  reports of failed requests, and every message and event it queues comes from an action of that call. From this,
  what the answer to a pending request does to the indices of the peer.
\<close>

subsection \<open>Failed requests\<close>

text \<open>The engine after any number of failed requests.\<close>

inductive failing :: "('p, 'a) RaftEngine \<Rightarrow> ('p, 'a) RaftEngine \<Rightarrow> bool" where
  refl [simp, intro]: "failing e e"
| step: "failing e e1 \<Longrightarrow> failing e (fst (handle_rpc_failure e1 p k))"

lemma failing_one [intro]: "failing e (fst (handle_rpc_failure e p k))"
  by (rule failing.step) simp

lemma failing_trans: "failing e1 e2 \<Longrightarrow> failing e e1 \<Longrightarrow> failing e e2"
  by (induction rule: failing.induct) (auto intro: failing.step)

subsection \<open>Queued events\<close>

text \<open>
  The permissions of a call: \<open>S d m\<close> the messages it may send to a node, \<open>C es\<close> the batches of entries it may hand
  to the application, \<open>R p cid m\<close> the answers it may give. A queued request also has its correlation id
  below the next one, and if it is pending, it is pending for that node with that message.
\<close>

fun permitted ::
  "(NodeId \<Rightarrow> RaftMessage \<Rightarrow> bool) \<Rightarrow> (LogEntry list \<Rightarrow> bool) \<Rightarrow> ('p \<Rightarrow> u64 \<Rightarrow> RaftMessage \<Rightarrow> bool) \<Rightarrow>
    ('p, 'a, 'c) RaftBehaviour \<Rightarrow> ('p, 'a, 'c) ToSwarm \<Rightarrow> bool" where
  "permitted S C R b (NotifyHandler p t (SendRequest cid m)) =
     (\<exists>d. pm_peer_id (peer_map b) d = Some p \<and> S d m \<and> cid < next_correlation_id b \<and>
        (\<forall>r. map_of (pending b) cid = Some r \<longrightarrow> pr_to r = d \<and> pr_msg r = m))"
| "permitted S C R b (NotifyHandler p t (SendResponse ch cid m)) = R p cid m"
| "permitted S C R b (GenerateEvent (Committed es)) = C es"
| "permitted S C R b ev = True"

text \<open>
  A later state of the behaviour: the routes are the same, pending requests with an old correlation
  id were pending before, and new events are permitted.
\<close>

definition grows :: "('p, 'a, 'c) RaftBehaviour \<Rightarrow> ('p, 'a, 'c) RaftBehaviour \<Rightarrow> bool" where
  "grows b b' \<longleftrightarrow> peer_map b' = peer_map b \<and> next_correlation_id b \<le> next_correlation_id b' \<and>
     (\<forall>cid r. cid < next_correlation_id b \<longrightarrow> map_of (pending b') cid = Some r \<longrightarrow> map_of (pending b) cid = Some r)"

definition queues ::
  "(NodeId \<Rightarrow> RaftMessage \<Rightarrow> bool) \<Rightarrow> (LogEntry list \<Rightarrow> bool) \<Rightarrow> ('p \<Rightarrow> u64 \<Rightarrow> RaftMessage \<Rightarrow> bool) \<Rightarrow>
    ('p, 'a, 'c) RaftBehaviour \<Rightarrow> ('p, 'a, 'c) RaftBehaviour \<Rightarrow> bool" where
  "queues S C R b b' \<longleftrightarrow> grows b b' \<and>
     (\<forall>ev \<in> set (pending_events b'). ev \<in> set (pending_events b) \<or> permitted S C R b' ev)"

lemma grows_refl [simp]: "grows b b"
  by (simp add: grows_def)

lemma grows_trans:
  assumes "grows b b1" "grows b1 b2"
  shows "grows b b2"
  unfolding grows_def
proof (intro conjI allI impI)
  show "peer_map b2 = peer_map b" using assms by (simp add: grows_def)
  show n: "next_correlation_id b \<le> next_correlation_id b2"
    using assms by (auto simp: grows_def intro: order_trans)
  fix cid r assume "cid < next_correlation_id b" "map_of (pending b2) cid = Some r"
  then show "map_of (pending b) cid = Some r"
    using assms unfolding grows_def by (metis order_less_le_trans)
qed

lemma permitted_grows:
  assumes "permitted S C R b ev" "grows b b'"
  shows "permitted S C R b' ev"
proof (cases "(S, C, R, b, ev)" rule: permitted.cases)
  case (1 S C R b p t cid m)
  then show ?thesis using assms unfolding grows_def by (auto intro: order_less_le_trans)
qed (use assms in auto)

lemma queues_refl [simp]: "queues S C R b b"
  by (simp add: queues_def)

lemma queues_trans:
  assumes "queues S C R b b1" "queues S C R b1 b2"
  shows "queues S C R b b2"
  using assms permitted_grows [of S C R b1 _ b2] grows_trans [of b b1 b2] unfolding queues_def by blast

text \<open>The parts of the behaviour that matter.\<close>

lemma queues_cong:
  assumes "queues S C R b b1" "peer_map b2 = peer_map b1" "next_correlation_id b2 = next_correlation_id b1"
    "pending b2 = pending b1" "set (pending_events b2) \<subseteq> set (pending_events b1)"
  shows "queues S C R b b2"
proof -
  have "grows b1 b2" using assms(2-4) by (simp add: grows_def)
  moreover from this have "grows b b2" using assms(1) by (auto simp: queues_def intro: grows_trans)
  ultimately show ?thesis using assms(1,5) permitted_grows unfolding queues_def by blast
qed

lemma queues_push:
  assumes "queues S C R b b1" "permitted S C R b1 ev"
  shows "queues S C R b (push_event b1 ev)"
proof -
  have g: "grows b1 (push_event b1 ev)" by (simp add: grows_def)
  moreover have "grows b (push_event b1 ev)" using assms(1) g by (auto simp: queues_def intro: grows_trans)
  ultimately show ?thesis using assms permitted_grows [OF _ g] by (auto simp: queues_def)
qed

lemma queues_dial:
  assumes "queues S C R b b1"
  shows "queues S C R b (dial_seed b1 p)"
proof -
  have "set (pending_events (dial_seed b1 p)) \<subseteq> set (pending_events b1) \<union> {ev. \<exists>q as. ev = Dial q as}"
    by (auto simp: dial_seed_def Let_def case_prod_unfold split: option.splits if_splits)
  moreover have g: "grows b1 (dial_seed b1 p)" by (simp add: grows_def)
  moreover have "grows b (dial_seed b1 p)" using assms g by (auto simp: queues_def intro: grows_trans)
  ultimately show ?thesis using assms permitted_grows [OF _ g] unfolding queues_def by fastforce
qed

subsection \<open>Executing actions\<close>

lemma queues_send:
  assumes "ids_ok b (Suc n)" "S d m"
  shows "queues S C R b (send_rpc b d m) \<and> failing (engine b) (engine (send_rpc b d m))"
proof (cases "pm_peer_id (peer_map b) d")
    case None
    let ?b1 = "b\<lparr>engine := fst (handle_rpc_failure (engine b) d (rpc_kind m)), readings := Suc (readings b)\<rparr>"
    have "queues S C R b ?b1" by (rule queues_cong [OF queues_refl]) simp_all
    then have "queues S C R b (push_event ?b1 (GenerateEvent (RpcFailed (random_peer b (readings b)) (UnknownNode d))))"
      by (rule queues_push) simp
    then show ?thesis using None by (auto simp: send_rpc_def Let_def)
  next
    case (Some peer)
    show ?thesis
    proof (cases "is_connected b peer")
      case False
      have "queues S C R b (b\<lparr>engine := fst (handle_rpc_failure (engine b) d (rpc_kind m))\<rparr>)"
        by (rule queues_cong [OF queues_refl]) simp_all
      then have "queues S C R b (dial_seed (b\<lparr>engine := fst (handle_rpc_failure (engine b) d (rpc_kind m))\<rparr>) peer)"
        by (rule queues_dial)
      then show ?thesis using Some False by (auto simp: send_rpc_def Let_def)
    next
      case True
      let ?c = "next_correlation_id b"
      define b3 where "b3 = b\<lparr>next_correlation_id := ?c + 1, readings := Suc (readings b), pending := AList.update ?c
          \<lparr>pr_correlation_id = ?c, pr_to = d, pr_peer = peer, pr_kind = rpc_kind m,
           pr_sent_at = clock b (readings b), pr_msg = m\<rparr> (pending b)\<rparr>"
      have less: "?c < ?c + 1"
      proof -
        have "unat (?c + 1) = Suc (unat ?c)" using assms(1) by (intro unat_Suc_u64_bound) (simp add: ids_ok_def)
        then show ?thesis by (simp add: word_less_nat_alt)
      qed
      have g: "grows b b3" using less by (auto simp: grows_def b3_def update_conv')
      have "pending_events b3 = pending_events b" by (simp add: b3_def)
      with g have q: "queues S C R b b3" by (simp add: queues_def)
      have "permitted S C R b3 (NotifyHandler peer Any (SendRequest ?c m))"
        using Some assms(2) less by (auto simp: b3_def update_conv')
      with q have "queues S C R b (push_event b3 (NotifyHandler peer Any (SendRequest ?c m)))" by (rule queues_push)
      then show ?thesis using Some True by (simp add: send_rpc_def Let_def case_prod_unfold b3_def)
    qed
  qed

lemma queues_send_all:
  "ids_ok b (length vs + n) \<Longrightarrow> \<forall>v \<in> set vs. S v m \<Longrightarrow>
    queues S C R b (fold (\<lambda>v b. send_rpc b v m) vs b) \<and>
    failing (engine b) (engine (fold (\<lambda>v b. send_rpc b v m) vs b)) \<and> ids_ok (fold (\<lambda>v b. send_rpc b v m) vs b) n"
proof (induction vs arbitrary: b)
  case (Cons v vs)
  have i: "ids_ok b (Suc (length vs + n))" using Cons.prems(1) by simp
  have s: "queues S C R b (send_rpc b v m)" "failing (engine b) (engine (send_rpc b v m))"
    using queues_send [OF i, of S v m C R] Cons.prems(2) by simp_all
  show ?case
    using Cons.IH [OF send_rpc_ids(1) [OF i, of v m]] Cons.prems(2) queues_trans [OF s(1)] failing_trans [OF _ s(2)] by simp
qed simp

text \<open>The action of an engine call that allows what is queued.\<close>

definition sent_by :: "('p, 'a) RaftEngine \<Rightarrow> Action list \<Rightarrow> NodeId \<Rightarrow> RaftMessage \<Rightarrow> bool" where
  "sent_by e as d m \<longleftrightarrow> Send d m \<in> set as \<or> Broadcast m \<in> set as \<and> d \<in> set (engine_other_voters e)"

abbreviation applied_by :: "Action list \<Rightarrow> LogEntry list \<Rightarrow> bool" where
  "applied_by as es \<equiv> Apply es \<in> set as"

lemma failing_other_voters: "failing e e' \<Longrightarrow> engine_other_voters e' = engine_other_voters e"
  by (induction rule: failing.induct) (auto simp: handle_rpc_failure_def engine_other_voters_def)

lemma queues_action:
  assumes "ids_ok b (action_cost (other_count b) a + n)" "a \<in> set as"
  shows "queues (sent_by (engine b) as) (applied_by as) R b (execute_action None a b) \<and>
    failing (engine b) (engine (execute_action None a b)) \<and> ids_ok (execute_action None a b) n"
proof (cases a)
  case (Send d m)
  then have "ids_ok b (Suc n)" "sent_by (engine b) as d m" using assms by (simp_all add: sent_by_def)
  then show ?thesis using Send queues_send [of b n "sent_by (engine b) as" d m] send_rpc_ids(1) [of b n d m] by simp
next
  case (Broadcast m)
  then have "\<forall>v \<in> set (engine_other_voters (engine b)). sent_by (engine b) as v m" using assms(2) by (simp add: sent_by_def)
  with Broadcast assms(1) queues_send_all [of b "engine_other_voters (engine b)" n] show ?thesis by simp
qed (use assms in \<open>auto intro!: queues_push elim: ids_ok_cong\<close>)

lemma queues_execute:
  assumes "ids_ok b (sum_list (map (action_cost (other_count b)) as) + n)" "set as \<subseteq> set as0"
  shows "queues (sent_by (engine b) as0) (applied_by as0) R b (execute_actions b as None) \<and>
    failing (engine b) (engine (execute_actions b as None)) \<and> ids_ok (execute_actions b as None) n"
  using assms
proof (induction as arbitrary: b)
  case (Cons a as)
  let ?b = "execute_action None a b" and ?S = "sent_by (engine b) as0"
  have "ids_ok b (action_cost (other_count b) a + (sum_list (map (action_cost (other_count b)) as) + n))"
    using Cons.prems(1) by (simp add: add.assoc)
  from queues_action [OF this, of as0 R] Cons.prems(2) have s: "queues ?S (applied_by as0) R b ?b"
      "failing (engine b) (engine ?b)" "ids_ok ?b (sum_list (map (action_cost (other_count b)) as) + n)" by auto
  have v: "engine_other_voters (engine ?b) = engine_other_voters (engine b)" by (rule failing_other_voters [OF s(2)])
  then have S: "sent_by (engine ?b) as0 = ?S" by (simp add: sent_by_def fun_eq_iff)
  have "queues ?S (applied_by as0) R ?b (execute_actions ?b as None) \<and>
      failing (engine ?b) (engine (execute_actions ?b as None)) \<and> ids_ok (execute_actions ?b as None) n"
    using Cons.IH [of ?b] s(3) Cons.prems(2) by (simp add: S v)
  then show ?case using queues_trans [OF s(1)] failing_trans [OF _ s(2)] by simp
qed simp

lemma queues_fail_pending:
  "queues S C R b (fail_pending b cid err emit) \<and> failing (engine b) (engine (fail_pending b cid err emit))"
proof (cases "map_of (pending b) cid")
  case (Some r)
  let ?b = "b\<lparr>pending := AList.delete cid (pending b), engine := fst (handle_rpc_failure (engine b) (pr_to r) (pr_kind r))\<rparr>"
  have "grows b ?b" by (auto simp: grows_def delete_conv' split: if_splits)
  then have q: "queues S C R b ?b" by (simp add: queues_def)
  have "queues S C R b (push_event ?b (GenerateEvent (RpcFailed p e)))" for p e by (rule queues_push [OF q]) simp
  with q show ?thesis using Some by (auto simp: fail_pending_def Let_def case_prod_unfold)
qed (simp add: fail_pending_def)

lemma queues_fail_all:
  "queues S C R b (fold (\<lambda>id b. fail_pending b id err emit) ids b) \<and>
    failing (engine b) (engine (fold (\<lambda>id b. fail_pending b id err emit) ids b))"
proof (induction ids arbitrary: b)
  case (Cons cid ids)
  have s: "queues S C R b (fail_pending b cid err emit)" "failing (engine b) (engine (fail_pending b cid err emit))"
    using queues_fail_pending by blast+
  show ?case using Cons.IH [of "fail_pending b cid err emit"] queues_trans [OF s(1)] failing_trans [OF _ s(2)] by simp
qed simp

subsection \<open>One call of the behaviour\<close>

text \<open>Without a call of the engine, and with one: \<open>i\<close> is its input, \<open>R\<close> the answers its actions allow.\<close>

definition quiet :: "('p, 'a, 'c) RaftBehaviour \<Rightarrow> ('p, 'a, 'c) RaftBehaviour \<Rightarrow> bool" where
  "quiet b b' \<longleftrightarrow> failing (engine b) (engine b') \<and> (\<forall>S C R. queues S C R b b')"

text \<open>A request is answered, and sends no request of its own.\<close>

fun answering :: "EngineInput \<Rightarrow> bool" where
  "answering (InRpc src msg now) = is_request msg"
| "answering _ = False"

definition sends_of :: "EngineInput \<Rightarrow> ('p, 'a) RaftEngine \<Rightarrow> Action list \<Rightarrow> NodeId \<Rightarrow> RaftMessage \<Rightarrow> bool" where
  "sends_of i e as d m \<longleftrightarrow> \<not> answering i \<and> sent_by e as d m"

definition calls ::
  "EngineInput \<Rightarrow> (Action list \<Rightarrow> 'p \<Rightarrow> u64 \<Rightarrow> RaftMessage \<Rightarrow> bool) \<Rightarrow>
    ('p, 'a, 'c) RaftBehaviour \<Rightarrow> ('p, 'a, 'c) RaftBehaviour \<Rightarrow> bool" where
  "calls i R b b' \<longleftrightarrow> (\<exists>e1. failing (engine b) e1 \<and> failing (fst (engine_apply e1 i)) (engine b') \<and>
     (let as = snd (engine_apply e1 i) in queues (sends_of i e1 as) (applied_by as) (R as) b b'))"

abbreviation no_replies :: "Action list \<Rightarrow> 'p \<Rightarrow> u64 \<Rightarrow> RaftMessage \<Rightarrow> bool" where
  "no_replies \<equiv> \<lambda>as p cid m. False"

definition replies_to :: "'p \<Rightarrow> u64 \<Rightarrow> NodeId \<Rightarrow> Action list \<Rightarrow> 'p \<Rightarrow> u64 \<Rightarrow> RaftMessage \<Rightarrow> bool" where
  "replies_to peer cid src as p c m \<longleftrightarrow> p = peer \<and> c = cid \<and> Send src m \<in> set as"

lemma quietI: "failing (engine b) (engine b') \<Longrightarrow> (\<And>S C R. queues S C R b b') \<Longrightarrow> quiet b b'"
  by (simp add: quiet_def)

lemma quiet_cong:
  assumes "quiet b b1" "engine b2 = engine b1" "peer_map b2 = peer_map b1"
    "next_correlation_id b2 = next_correlation_id b1" "pending b2 = pending b1"
    "set (pending_events b2) \<subseteq> set (pending_events b1)"
  shows "quiet b b2"
  using assms by (auto simp: quiet_def intro: queues_cong [OF _ assms(3-6)])

lemma quiet_refl [simp]: "quiet b b"
  by (simp add: quiet_def)

lemma quietD: "quiet b b' \<Longrightarrow> failing (engine b) (engine b')" "quiet b b' \<Longrightarrow> queues S C R b b'"
  by (simp_all add: quiet_def)

lemma quiet_trans: "quiet b b1 \<Longrightarrow> quiet b1 b2 \<Longrightarrow> quiet b b2"
  by (rule quietI) (blast intro: failing_trans queues_trans dest: quietD)+

lemma quiet_push:
  "quiet b b1 \<Longrightarrow> (\<And>S C R. permitted S C R b1 ev) \<Longrightarrow> quiet b (push_event b1 ev)"
  by (simp add: quiet_def queues_push)

lemma quiet_fail_pending: "quiet b (fail_pending b cid err emit)"
  by (simp add: quiet_def queues_fail_pending)

lemma quiet_fail_all: "quiet b (fold (\<lambda>id b. fail_pending b id err emit) ids b)"
  by (simp add: quiet_def queues_fail_all)

lemma quiet_dial: "quiet b (dial_seed b p)"
  by (simp add: quiet_def queues_dial)

text \<open>A call after a quiet part, followed by a part that changes nothing of interest.\<close>

lemma calls_after:
  assumes "quiet b b1" "calls i R b1 b2"
  shows "calls i R b b2"
proof -
  from assms(2) obtain e1 where e1: "failing (engine b1) e1" "failing (fst (engine_apply e1 i)) (engine b2)"
      "let as = snd (engine_apply e1 i) in queues (sends_of i e1 as) (applied_by as) (R as) b1 b2"
    unfolding calls_def by blast
  have q: "failing (engine b) (engine b1)" "queues S C R' b b1" for S C R' using assms(1) by (simp_all add: quiet_def)
  show ?thesis unfolding calls_def
    using failing_trans [OF e1(1) q(1)] e1(2) queues_trans [OF q(2)] e1(3) by (auto simp: Let_def)
qed

lemma calls_cong:
  assumes "calls i R b b1" "engine b2 = engine b1" "peer_map b2 = peer_map b1"
    "next_correlation_id b2 = next_correlation_id b1" "pending b2 = pending b1"
    "set (pending_events b2) \<subseteq> set (pending_events b1)"
  shows "calls i R b b2"
  using assms(1,2) queues_cong [OF _ assms(3-6)] unfolding calls_def Let_def by metis

text \<open>The engine call itself and the execution of its actions.\<close>

lemma calls_execute:
  fixes b :: "('p, 'a, 'c) RaftBehaviour"
  assumes "\<not> answering i" "grows b b1" "set (pending_events b1) \<subseteq> set (pending_events b)" "engine b1 = fst (engine_apply (engine b) i)"
    and "ids_ok b1 (Suc (other_count b1))"
    and "sum_list (map (action_cost (other_count b1)) (snd (engine_apply (engine b) i))) \<le> Suc (other_count b1)"
    and "engine_other_voters (engine b1) = engine_other_voters (engine b)"
  shows "calls i no_replies b (execute_actions b1 (snd (engine_apply (engine b) i)) None)"
proof -
  let ?as = "snd (engine_apply (engine b) i)"
  have "ids_ok b1 (sum_list (map (action_cost (other_count b1)) ?as) + 0)" using assms(5,6) by (auto elim: ids_ok_le)
  from queues_execute [OF this, of ?as "\<lambda>p cid m. False"]
  have x: "queues (sent_by (engine b1) ?as) (applied_by ?as) (\<lambda>p cid m. False) b1 (execute_actions b1 ?as None)"
      "failing (engine b1) (engine (execute_actions b1 ?as None))" by auto
  have "sent_by (engine b1) ?as = sends_of i (engine b) ?as"
    using assms(1,7) by (simp add: sent_by_def sends_of_def fun_eq_iff)
  moreover have "queues S C R b b1" for S C and R :: "'p \<Rightarrow> u64 \<Rightarrow> RaftMessage \<Rightarrow> bool"
    using assms(2,3) by (auto simp: queues_def)
  ultimately have "queues (sends_of i (engine b) ?as) (applied_by ?as) (\<lambda>p cid m. False) b (execute_actions b1 ?as None)"
    using queues_trans [OF _ x(1), of b] by simp
  then show ?thesis using x(2) assms(4) unfolding calls_def Let_def by (intro exI [of _ "engine b"]) simp
qed

lemma swarm_quiet: "quiet b (on_swarm_event ho b ev)"
proof (cases ev)
  case (ConnectionEstablished peer conn)
  then show ?thesis by (auto intro: quiet_cong [OF quiet_refl])
next
  case (ConnectionClosed peer conn)
  have "quiet b (b\<lparr>connected := C, dialing := D\<rparr>)" "quiet b (b\<lparr>dialing := D\<rparr>)" for C D
    by (rule quiet_cong [OF quiet_refl]; simp)+
  note qs = this quiet_trans [OF this(1) quiet_fail_all] quiet_trans [OF this(2) quiet_fail_all]
  show ?thesis using ConnectionClosed
    by (cases "connected b peer") (simp_all add: Let_def fail_peer_pending_def qs)
next
  case (DialFailure maybe_peer err)
  have bo: "quiet b (dial_backoff (b\<lparr>dialing := D\<rparr>) p)" "quiet b (b\<lparr>dialing := D\<rparr>)" for D p
    by (rule quiet_cong [OF quiet_refl]; simp add: dial_backoff_def Let_def case_prod_unfold)+
  have q: "quiet b (fail_peer_pending ho (dial_backoff (b\<lparr>dialing := D\<rparr>) p) q e x)"
    "quiet b (fail_peer_pending ho (b\<lparr>dialing := D\<rparr>) q e x)" for D p q e x
    unfolding fail_peer_pending_def by (rule quiet_trans [OF bo(1) quiet_fail_all], rule quiet_trans [OF bo(2) quiet_fail_all])
  have "quiet b (push_event (fail_peer_pending ho (b\<lparr>dialing := D\<rparr>) q e x) (GenerateEvent (RpcFailed q' e')))" for D q e x q' e'
    by (rule quiet_push [OF q(2)]) simp
  with q show ?thesis using DialFailure by (cases maybe_peer) (simp_all add: Let_def)
qed simp

lemma failure_quiet: "quiet b (on_connection_handler_event b peer conn (Failure c err))"
proof -
  let ?b = "b\<lparr>readings := Suc (readings b)\<rparr>"
  have b: "quiet b ?b" by (rule quiet_cong [OF quiet_refl]) simp_all
  have "quiet b (fail_pending ?b cid err True)" for cid by (rule quiet_trans [OF b quiet_fail_pending])
  moreover have "quiet b (push_event ?b (GenerateEvent (RpcFailed peer e)))" for e by (rule quiet_push [OF b]) simp
  moreover have "quiet b (arm_sleep b1 d)" if "quiet b b1" for b1 d by (rule quiet_cong [OF that]) simp_all
  ultimately show ?thesis by (cases c) (simp_all add: on_connection_handler_event_def Let_def case_prod_unfold)
qed

lemma response_calls:
  assumes "map_of (pending b) cid = Some r" "ids_ok b (Suc (other_count b))" "\<not> is_request msg"
  shows "calls (InRpc (pr_to r) msg (clock b (readings b))) no_replies b
    (on_connection_handler_event b peer conn (Response cid msg))"
proof -
  let ?i = "InRpc (pr_to r) msg (clock b (readings b))"
  let ?b1 = "b\<lparr>readings := Suc (readings b), pending := AList.delete cid (pending b),
      engine := fst (handle_rpc (engine b) (pr_to r) msg (clock b (readings b)))\<rparr>"
  have i: "ids_ok ?b1 (Suc (other_count ?b1))"
    using delete_ids [OF assms(2), of cid] by (rule ids_ok_cong [THEN ids_ok_le]) simp_all
  have "grows b ?b1" by (auto simp: grows_def delete_conv' split: if_splits)
  then have "calls ?i no_replies b (execute_actions ?b1 (snd (engine_apply (engine b) ?i)) None)"
    using i assms(3) handle_rpc_cost [of "other_count ?b1" "engine b" "pr_to r" msg "clock b (readings b)"]
    by (intro calls_execute) (simp_all del: other_voters_calls add: other_voters_calls)
  then show ?thesis using assms(1)
    by (elim calls_cong) (simp_all add: on_connection_handler_event_def Let_def case_prod_unfold)
qed

lemma response_ignored: "map_of (pending b) cid = None \<Longrightarrow> quiet b (on_connection_handler_event b peer conn (Response cid msg))"
  by (intro quiet_cong [OF quiet_refl]) (simp_all add: on_connection_handler_event_def Let_def case_prod_unfold)

lemma propose_calls:
  assumes "ids_ok b (Suc (other_count b))"
  shows "calls (InPropose data) no_replies b (fst (behaviour_propose b data))"
proof (cases "snd (propose (engine b) data)")
  case (Inl err)
  then have "fst (propose (engine b) data) = engine b" by (auto simp: propose_unfold split: if_splits)
  with Inl have "behaviour_propose b data = (b, Inl (Raft err))" by (simp add: behaviour_propose_def case_prod_unfold)
  then show ?thesis using Inl \<open>fst (propose (engine b) data) = engine b\<close> unfolding calls_def
    by (intro exI [of _ "engine b"]) (simp add: case_prod_unfold Let_def)
next
  case (Inr r)
  then obtain idx as where r: "snd (propose (engine b) data) = Inr (idx, as)" by (cases r) auto
  let ?b1 = "b\<lparr>engine := fst (propose (engine b) data)\<rparr>"
  have a: "engine_apply (engine b) (InPropose data) = (fst (propose (engine b) data), as)"
    using r by (simp add: case_prod_unfold)
  have "calls (InPropose data) no_replies b (execute_actions ?b1 (snd (engine_apply (engine b) (InPropose data))) None)"
    using assms propose_cost [OF r] by (intro calls_execute) (simp_all add: a grows_def ids_ok_def del: engine_apply.simps)
  then show ?thesis unfolding a
    by (elim calls_cong) (simp_all add: behaviour_propose_def Let_def case_prod_unfold r)
qed

lemma tick_calls:
  assumes "ids_ok b (Suc (other_count b))"
  shows "calls (InTick now) no_replies b (tick_if_due b now)"
proof -
  let ?b1 = "b\<lparr>engine := fst (tick (engine b) now)\<rparr>"
  have a: "engine_apply (engine b) (InTick now) = (fst (tick (engine b) now), out_actions (snd (tick (engine b) now)))"
    by (simp add: Let_def case_prod_unfold)
  have "calls (InTick now) no_replies b (execute_actions ?b1 (snd (engine_apply (engine b) (InTick now))) None)"
    using assms tick_cost [of "engine b" now] by (intro calls_execute) (simp_all add: a grows_def ids_ok_def del: engine_apply.simps)
  then show ?thesis unfolding a
    by (elim calls_cong) (simp_all add: tick_if_due_def Let_def case_prod_unfold)
qed

text \<open>
  A pass of \<open>poll\<close> leaves the state \<open>x\<close> reached before it pops an event or polls the sleep: only queued events
  go, and the event returned was one of them.
\<close>

definition popped_from ::
  "('p, 'a, 'c) RaftBehaviour \<Rightarrow> ('p, 'a, 'c) RaftBehaviour \<times> ('p, 'a, 'c) PollPass \<Rightarrow> bool" where
  "popped_from x r \<longleftrightarrow> engine (fst r) = engine x \<and> peer_map (fst r) = peer_map x \<and>
     next_correlation_id (fst r) = next_correlation_id x \<and> pending (fst r) = pending x \<and>
     set (pending_events (fst r)) \<subseteq> set (pending_events x) \<and>
     (\<forall>ev. snd r = PollReady ev \<longrightarrow> ev \<in> set (pending_events x))"

lemma popped_pop: "pop_event x = Some (y, ev) \<Longrightarrow> popped_from x (y, PollReady ev)"
  "pop_event x = Some (y, ev) \<Longrightarrow> popped_from x (arm_sleep y d, PollReady ev)"
  by (auto simp: popped_from_def pop_event_def split: list.splits)

lemma popped_sleep: "popped_from x (poll_sleep x)"
  by (simp add: popped_from_def poll_sleep_def Let_def)

lemma popped_cases: "popped_from x (case pop_event x of Some (y, ev) \<Rightarrow> (y, PollReady ev) | None \<Rightarrow> poll_sleep x)"
  using popped_pop(1) [of x] popped_sleep [of x] by (cases "pop_event x") auto

lemma poll_pass_popped:
  defines "now \<equiv> \<lambda>b. clock b (readings b)"
    and "b2 \<equiv> \<lambda>ho b. expire_pending ho (b\<lparr>readings := Suc (readings b)\<rparr>) (clock b (readings b))"
  shows "popped_from b (poll_pass ho b) \<or> popped_from (b2 ho b) (poll_pass ho b) \<or>
    popped_from (tick_if_due (b2 ho b) (now b)) (poll_pass ho b)"
proof (cases "pop_event b")
  case (Some r)
  then show ?thesis using popped_pop(1) [of b] by (cases r) (simp add: poll_pass_def)
next
  case None
  show ?thesis
  proof (cases "pop_event (b2 ho b)")
    case (Some r)
    then have "\<exists>y ev d. pop_event (b2 ho b) = Some (y, ev) \<and> poll_pass ho b = (arm_sleep y d, PollReady ev)"
      using None unfolding b2_def by (cases r) (auto simp: poll_pass_def Let_def case_prod_unfold)
    then show ?thesis using popped_pop(2) [of "b2 ho b"] by metis
  next
    case none2: None
    have "poll_pass ho b = (if next_deadline (engine (b2 ho b)) \<le> now b
        then (case pop_event (tick_if_due (b2 ho b) (now b)) of Some (y, ev) \<Rightarrow> (y, PollReady ev)
          | None \<Rightarrow> poll_sleep (tick_if_due (b2 ho b) (now b)))
        else poll_sleep (b2 ho b))"
      using None none2 unfolding b2_def now_def by (simp add: poll_pass_def Let_def case_prod_unfold)
    then show ?thesis using popped_cases [of "tick_if_due (b2 ho b) (now b)"] popped_sleep [of "b2 ho b"] by presburger
  qed
qed

text \<open>So the events returned are permitted too.\<close>

definition poll_effect ::
  "(u64 set \<Rightarrow> u64 list) \<Rightarrow> ('p, 'a, 'c) RaftBehaviour \<Rightarrow> ('p, 'a, 'c) RaftBehaviour \<Rightarrow> bool" where
  "poll_effect ho b x \<longleftrightarrow> popped_from x (poll_pass ho b) \<and> (quiet b x \<or> calls (InTick (clock b (readings b))) no_replies b x)"

lemma poll_effect_exists:
  assumes "behaviour_inv b" "ids_ok b (Suc (other_count b))"
  shows "\<exists>x. poll_effect ho b x"
proof -
  let ?now = "clock b (readings b)"
  let ?b2 = "expire_pending ho (b\<lparr>readings := Suc (readings b)\<rparr>) ?now"
  have "quiet b (b\<lparr>readings := Suc (readings b)\<rparr>)" by (rule quiet_cong [OF quiet_refl]) simp_all
  then have e: "quiet b ?b2" unfolding expire_pending_def by (rule quiet_trans [OF _ quiet_fail_all])
  have "behaviour_inv (b\<lparr>readings := Suc (readings b)\<rparr>)" by (rule behaviour_inv_cong [OF assms(1)]) simp_all
  then have "behaviour_inv ?b2" by (rule expire_inv)
  moreover have "next_correlation_id ?b2 = next_correlation_id b" by (simp add: expire_pending_def fail_all_ids)
  ultimately have "ids_ok ?b2 (Suc (other_count ?b2))"
    using assms(2) failing_other_voters [OF quietD(1) [OF e]] by (simp add: behaviour_inv_def ids_ok_def)
  then have t: "calls (InTick ?now) no_replies b (tick_if_due ?b2 ?now)" by (intro calls_after [OF e tick_calls])
  show ?thesis using poll_pass_popped [of b ho] e t quiet_refl [of b] unfolding poll_effect_def by blast
qed

text \<open>The answer to a request is the only message the behaviour queues when it arrives.\<close>

fun local_event :: "Action \<Rightarrow> 'p Event" where
  "local_event (Apply es) = Committed es"
| "local_event (BecomeFollower t l) = RoleChanged Follower t l"
| "local_event _ = RoleChanged Follower 0 None"

lemma execute_local_events:
  "\<forall>a \<in> set as. is_local a \<Longrightarrow> execute_actions b as inb =
    b\<lparr>pending_events := pending_events b @ map (\<lambda>a. GenerateEvent (local_event a)) as\<rparr>"
proof (induction as arbitrary: b)
  case (Cons a as)
  then show ?case by (cases a) (simp_all add: push_event_def)
qed simp

lemma local_permitted: "is_local a \<Longrightarrow> a \<in> set as \<Longrightarrow> permitted S (applied_by as) R b (GenerateEvent (local_event a))"
  by (cases a) auto

lemma request_calls:
  assumes "pm_node_id (peer_map b) peer = Some src" "is_request msg"
  shows "calls (InRpc src msg (clock b (readings b))) (replies_to peer cid src) b
    (on_connection_handler_event b peer conn (Request cid msg ch))"
proof -
  let ?now = "clock b (readings b)" and ?b' = "on_connection_handler_event b peer conn (Request cid msg ch)"
  let ?i = "InRpc src msg ?now"
  let ?acts = "snd (handle_rpc (engine b) src msg ?now)"
  obtain as resp where as: "?acts = as @ [Send src resp]" "\<forall>a \<in> set as. is_local a"
    using request_actions [OF assms(2)] by blast
  let ?b1 = "b\<lparr>readings := Suc (readings b), inbound_channels := (inbound_channels b)
      (ch \<mapsto> \<lparr>ic_peer = peer, ic_conn = conn, ic_correlation_id = cid\<rparr>), engine := fst (handle_rpc (engine b) src msg ?now)\<rparr>"
  let ?ev = "NotifyHandler peer (One conn) (SendResponse ch cid resp)"
  have run: "execute_actions ?b1 ?acts (Some (src, ch)) =
      push_event (?b1\<lparr>pending_events := pending_events b @ map (\<lambda>a. GenerateEvent (local_event a)) as,
        inbound_channels := (inbound_channels b)(ch := None)\<rparr>) ?ev"
    unfolding as(1) by (simp add: execute_local_events [OF as(2)])
  have evs: "pending_events ?b' = pending_events b @ map (\<lambda>a. GenerateEvent (local_event a)) as @ [?ev]"
    using assms(1) run by (simp add: on_connection_handler_event_def Let_def case_prod_unfold)
  note ans = request_answered [OF assms, of conn cid ch, unfolded Let_def]
  have n: "next_correlation_id ?b' = next_correlation_id b" "peer_map ?b' = peer_map b"
    using assms(1) run by (simp_all add: on_connection_handler_event_def Let_def case_prod_unfold)
  have g: "grows b ?b'" using ans n by (simp add: grows_def)
  have "permitted (sends_of ?i (engine b) ?acts) (applied_by ?acts) (replies_to peer cid src ?acts) ?b' ev"
    if "ev \<in> set (map (\<lambda>a. GenerateEvent (local_event a)) as @ [?ev])" for ev
    using that as(2) local_permitted [of _ as] by (auto simp: as(1) replies_to_def)
  then have "queues (sends_of ?i (engine b) ?acts) (applied_by ?acts) (replies_to peer cid src ?acts) b ?b'"
    unfolding queues_def evs set_append using g by blast
  then show ?thesis unfolding calls_def using ans by (intro exI [of _ "engine b"]) (simp add: Let_def)
qed

lemma request_ignored:
  assumes "pm_node_id (peer_map b) peer = None \<or> \<not> is_request msg \<and> \<not> is_response msg"
  shows "quiet b (on_connection_handler_event b peer conn (Request cid msg ch))"
proof (cases "pm_node_id (peer_map b) peer")
  case None
  have "quiet b (b\<lparr>readings := Suc (readings b)\<rparr>)" by (rule quiet_cong [OF quiet_refl]) simp_all
  then have "quiet b (push_event (b\<lparr>readings := Suc (readings b)\<rparr>) (GenerateEvent (RpcFailed peer e)))" for e
    by (rule quiet_push) simp
  with None show ?thesis by (simp add: on_connection_handler_event_def Let_def case_prod_unfold)
next
  case (Some src)
  then have "handle_rpc (engine b) src msg now = (engine b, [])" for now using assms by (cases msg) auto
  then show ?thesis using Some
    by (intro quiet_cong [OF quiet_refl]) (simp_all add: on_connection_handler_event_def Let_def case_prod_unfold)
qed

lemma failing_sel:
  assumes "failing e e'"
  shows "role e' = role e" "storage e' = storage e" "last_ae e' = last_ae e" "config e' = config e"
    "membership e' = membership e" "election_deadline e' = election_deadline e"
    "match_index e' = match_index e" "next_index e' = next_index e"
  using assms by (induction rule: failing.induct) (auto simp: handle_rpc_failure_def)

subsection \<open>What an answer is credited with\<close>

text \<open>The indices after an answer of the current term: a success, a rejection.\<close>

definition credited_with :: "('p, 'a) RaftEngine \<Rightarrow> ('p, 'a) RaftEngine \<Rightarrow> NodeId \<Rightarrow> Index \<Rightarrow> bool" where
  "credited_with e e' f i \<longleftrightarrow>
     match_index e' = (match_index e)(f \<mapsto> max (case match_index e f of Some m \<Rightarrow> m | None \<Rightarrow> 0) i) \<and>
     next_index e' = (next_index e)(f \<mapsto> i + 1)"

definition backed_off_from :: "('p, 'a) RaftEngine \<Rightarrow> ('p, 'a) RaftEngine \<Rightarrow> NodeId \<Rightarrow> Index \<Rightarrow> bool" where
  "backed_off_from e e' f i \<longleftrightarrow> match_index e' = match_index e \<and>
     (let n = (case next_index e f of Some n \<Rightarrow> n | None \<Rightarrow> 1); m = (case match_index e f of Some m \<Rightarrow> m | None \<Rightarrow> 0)
      in next_index e' = (if n = i + 1 then (next_index e)(f \<mapsto> max (max (sat_sub n 1) (m + 1)) 1) else next_index e))"

lemma resp_indices:
  assumes "role e = Leader" "last_ae e f = Some (i, k)"
  shows "credited_with e (fst (handle_append_entries_resp e f (engine_current_term e) True m now)) f (i + of_nat k)"
    "backed_off_from e (fst (handle_append_entries_resp e f (engine_current_term e) False m now)) f i"
  using assms by (simp_all add: credited_with_def backed_off_from_def handle_append_entries_resp_def Let_def case_prod_unfold)

lemma answer_indices:
  assumes "role (engine b) = Leader" "map_of (pending b) cid = Some r" "last_ae (engine b) (pr_to r) = Some (i, k)"
    and "ids_ok b (Suc (other_count b))"
  shows "credited_with (engine b) (engine (on_connection_handler_event b peer conn
      (Response cid (AppendEntriesResp (engine_current_term (engine b)) True m)))) (pr_to r) (i + of_nat k)"
    "backed_off_from (engine b) (engine (on_connection_handler_event b peer conn
      (Response cid (AppendEntriesResp (engine_current_term (engine b)) False m)))) (pr_to r) i"
proof -
  have eff: "\<exists>e1. failing (engine b) e1 \<and> failing (fst (handle_append_entries_resp e1 (pr_to r)
      (engine_current_term (engine b)) ok m (clock b (readings b))))
      (engine (on_connection_handler_event b peer conn (Response cid (AppendEntriesResp (engine_current_term (engine b)) ok m))))"
    for ok
    using response_calls [OF assms(2,4), of "AppendEntriesResp (engine_current_term (engine b)) ok m" peer conn]
    by (auto simp: calls_def)
  have same: "role e1 = Leader \<and> last_ae e1 (pr_to r) = Some (i, k) \<and> engine_current_term e1 = engine_current_term (engine b)"
    if "failing (engine b) e1" for e1
    using failing_sel [OF that] assms(1,3) by (simp add: engine_current_term_def)
  have kept: "credited_with e1 x f j \<Longrightarrow> credited_with (engine b) y f j" "backed_off_from e1 x f j \<Longrightarrow> backed_off_from (engine b) y f j"
    if "failing (engine b) e1" "failing x y" for e1 x y f j
    using failing_sel(7,8) [OF that(1)] failing_sel(7,8) [OF that(2)] by (simp_all add: credited_with_def backed_off_from_def Let_def)
  obtain e1 where e1: "failing (engine b) e1" "failing (fst (handle_append_entries_resp e1 (pr_to r)
      (engine_current_term (engine b)) True m (clock b (readings b))))
      (engine (on_connection_handler_event b peer conn (Response cid (AppendEntriesResp (engine_current_term (engine b)) True m))))"
    using eff by blast
  note S = same [OF e1(1)]
  show "credited_with (engine b) (engine (on_connection_handler_event b peer conn
      (Response cid (AppendEntriesResp (engine_current_term (engine b)) True m)))) (pr_to r) (i + of_nat k)"
    by (rule kept(1) [OF e1]) (use resp_indices(1) [of e1 "pr_to r" i k] S in simp)
  obtain e2 where e2: "failing (engine b) e2" "failing (fst (handle_append_entries_resp e2 (pr_to r)
      (engine_current_term (engine b)) False m (clock b (readings b))))
      (engine (on_connection_handler_event b peer conn (Response cid (AppendEntriesResp (engine_current_term (engine b)) False m))))"
    using eff by blast
  note S = same [OF e2(1)]
  show "backed_off_from (engine b) (engine (on_connection_handler_event b peer conn
      (Response cid (AppendEntriesResp (engine_current_term (engine b)) False m)))) (pr_to r) i"
    by (rule kept(2) [OF e2]) (use resp_indices(2) [of e2 "pr_to r" i k] S in simp)
qed

text \<open>
  C14: Every answer is credited to the request it answers. Over every run of the behaviour in which no AppendEntries of
  an earlier leadership is pending when the engine becomes leader, let a leader get the answer, in its term, to the
  pending request with that correlation id. A success moves the peer's \<open>match_index\<close> up to the last entry of that very
  request and its \<open>next_index\<close> behind it; a rejection takes \<open>next_index\<close> one step back, not below \<open>match_index + 1\<close>, if it
  still stands where that request started, and leaves it otherwise. No other peer's indices change.
\<close>

theorem answers_are_credited:
  assumes "behaviour_run ho (RaftBehaviour_new hov clk rnd rdy cfg st) is = Some b"
    and "fresh_run ho (RaftBehaviour_new hov clk rnd rdy cfg st) is" and "role (engine b) = Leader"
    and "map_of (pending b) cid = Some r" "pr_msg r = AppendEntries t l pi pt es lc"
    and "fits_u64 (unat (next_correlation_id b) + Suc (other_count b))"
  shows "let after = (\<lambda>ok. engine (on_connection_handler_event b peer conn (Response cid (AppendEntriesResp t ok m))));
      f = pr_to r; n = (case next_index (engine b) f of Some n \<Rightarrow> n | None \<Rightarrow> 1);
      c = (case match_index (engine b) f of Some c \<Rightarrow> c | None \<Rightarrow> 0); last = pi + of_nat (length es)
    in match_index (after True) = (match_index (engine b))(f \<mapsto> max c last) \<and>
      next_index (after True) = (next_index (engine b))(f \<mapsto> last + 1) \<and>
      match_index (after False) = match_index (engine b) \<and>
      next_index (after False) = (if n = pi + 1
        then (next_index (engine b))(f \<mapsto> max (max (sat_sub n 1) (c + 1)) 1) else next_index (engine b))"
proof -
  note inv = flight_inv_run [OF flight_inv_new assms(1,2)]
  note tracked = behaviour_run_inv [OF behaviour_inv_new assms(1)]
  have t: "t = engine_current_term (engine b)" by (rule flight_term [OF inv tracked assms(3-5)])
  from answer_indices [OF assms(3,4) flight_recorded(2) [OF inv assms(3-5)] ids_room [OF tracked assms(6)]]
  show ?thesis unfolding t credited_with_def backed_off_from_def Let_def by blast
qed

theorem answers_are_credited_witness:
  "match_index (engine (on_connection_handler_event demo_proposed 102 7 (Response 2 (AppendEntriesResp 1 True 1)))) 2 = Some 1"
proof -
  let ?r = "\<lparr>pr_correlation_id = 2, pr_to = 2, pr_peer = 102, pr_kind = KAppendEntries, pr_sent_at = 0,
    pr_msg = AppendEntries 1 1 0 0 [\<lparr>le_index = 1, le_term = 1, entry_type = Command [5]\<rparr>] 0\<rparr>"
  have r: "map_of (pending demo_proposed) 2 = Some ?r" "role (engine demo_proposed) = Leader"
    "fits_u64 (unat (next_correlation_id demo_proposed) + Suc (other_count demo_proposed))"
    "match_index (engine demo_proposed) 2 = Some 0"
    by (simp_all add: behaviour_eval demo_states fits_u64_def cong: let_weak_cong)
  from answers_are_credited [OF demo_run [unfolded demo_pair_node_def] demo_fresh_run [unfolded demo_pair_node_def] r(2,1) _ r(3)] r(4)
  show ?thesis by (simp add: Let_def)
qed

end
