(* ===== verification/Network.thy ===== *)
theory Network
  imports BehaviourTrace ClusterCommit
begin

text \<open>
  The whole stack on several nodes: each node is a complete behaviour, and what its \<open>poll\<close> returns to its swarm
  travels, through the connection handlers, to the behaviour of another node. Every run of such a network
  in which no 64-bit counter wraps is mirrored by a run of the cluster of engines, so that it has one leader per term and
  matching logs. If besides no AppendEntries of an earlier leadership is pending whenever a node becomes leader, all
  successes are credited to the request they answer, and the safety theorems of \<open>ClusterCommit\<close> hold for what the
  behaviours report to their applications.
\<close>

subsection \<open>The network\<close>

record ('p, 'a, 'c) Network =
  net_nodes :: "NodeId \<Rightarrow> ('p, 'a, 'c) RaftBehaviour"
  returned :: "(NodeId \<times> ('p, 'a, 'c) ToSwarm) set"

text \<open>The start: every node's behaviour on its configuration; nothing has been returned.\<close>

definition net_init ::
  "(NodeId \<Rightarrow> NodeId set \<Rightarrow> NodeId list) \<Rightarrow> (NodeId \<Rightarrow> nat \<Rightarrow> Instant) \<Rightarrow> (NodeId \<Rightarrow> nat \<Rightarrow> 'p) \<Rightarrow>
    (NodeId \<Rightarrow> nat \<Rightarrow> bool) \<Rightarrow> (NodeId \<Rightarrow> ('p, 'a) RaftConfig) \<Rightarrow> ('p, 'a, 'c) Network" where
  "net_init hos clks rnds rdys cfgs =
     \<lparr>net_nodes = (\<lambda>n. RaftBehaviour_new (hos n) (clks n) (rnds n) (rdys n) (cfgs n) MemoryStorage_new), returned = {}\<rparr>"

text \<open>One call of one node's behaviour; a pass of \<open>poll\<close> may return an event.\<close>

fun poll_returns ::
  "(u64 set \<Rightarrow> u64 list) \<Rightarrow> ('p, 'a, 'c) RaftBehaviour \<Rightarrow> ('p, 'c) BehaviourInput \<Rightarrow> ('p, 'a, 'c) ToSwarm set" where
  "poll_returns ho b PollPass = (case snd (poll_pass ho b) of PollReady ev \<Rightarrow> {ev} | _ \<Rightarrow> {})"
| "poll_returns ho b _ = {}"

definition net_apply ::
  "(u64 set \<Rightarrow> u64 list) \<Rightarrow> ('p, 'a, 'c) Network \<Rightarrow> NodeId \<Rightarrow> ('p, 'c) BehaviourInput \<Rightarrow> ('p, 'a, 'c) Network" where
  "net_apply ho N n i =
     N\<lparr>net_nodes := (net_nodes N)(n := behaviour_step ho (net_nodes N n) i),
       returned := returned N \<union> Pair n ` poll_returns ho (net_nodes N n) i\<rparr>"

text \<open>
  The wire. \<open>owner p\<close> is the node that holds the key of the peer id \<open>p\<close>. A request arrives at the node it was sent
  to, from the peer that sent it, with its correlation id; an answer arrives likewise at the
  node whose request it answers. Both may arrive any number of times and in any order, or never, and any
  failure may be reported at any time.
\<close>

fun delivered :: "('p \<Rightarrow> NodeId) \<Rightarrow> ('p, 'a, 'c) Network \<Rightarrow> NodeId \<Rightarrow> ('p, 'c) BehaviourInput \<Rightarrow> bool" where
  "delivered owner N n (HandlerEvent p conn (Request cid msg ch)) =
     (\<exists>q t. (owner p, NotifyHandler q t (SendRequest cid msg)) \<in> returned N \<and> owner q = n)"
| "delivered owner N n (HandlerEvent p conn (Response cid msg)) =
     (\<exists>q t ch. (owner p, NotifyHandler q t (SendResponse ch cid msg)) \<in> returned N \<and> owner q = n)"
| "delivered owner N n _ = True"

text \<open>
  The runs are stated for a limit \<open>lim\<close> on the calls. \<open>counters_fit\<close> only asks that the correlation counter, the term
  and the log index do not run through their \<open>2^64\<close> values; \<open>within_limits\<close> asks besides that no AppendEntries
  of an earlier leadership is pending when the engine becomes leader. What needs the second is what
  \<open>StaleAnswer\<close> shows to fail without it.
\<close>

type_synonym ('p, 'a, 'c) Limit =
  "(u64 set \<Rightarrow> u64 list) \<Rightarrow> ('p, 'a, 'c) RaftBehaviour \<Rightarrow> ('p, 'c) BehaviourInput \<Rightarrow> bool"

definition counters_fit :: "('p, 'a, 'c) Limit" where
  "counters_fit ho b i \<longleftrightarrow> fits_u64 (unat (next_correlation_id b) + Suc (other_count b)) \<and>
     (i = PollPass \<longrightarrow> \<not> term_overflow (engine b) (InTick (clock b (readings b)))) \<and>
     (\<forall>d. i = Propose d \<longrightarrow> has_room (engine b) (InPropose d))"

definition within_limits :: "('p, 'a, 'c) Limit" where
  "within_limits ho b i \<longleftrightarrow> counters_fit ho b i \<and> fresh_leader b (behaviour_step ho b i)"

inductive net_reachable ::
  "('p, 'a, 'c) Limit \<Rightarrow> NodeId set \<Rightarrow> ('p \<Rightarrow> NodeId) \<Rightarrow> ('p, 'a, 'c) Network \<Rightarrow> ('p, 'a, 'c) Network \<Rightarrow> bool"
  for lim V owner N0 where
  start: "net_reachable lim V owner N0 N0"
| step: "net_reachable lim V owner N0 N \<Longrightarrow> n \<in> V \<Longrightarrow> hash_order ho \<Longrightarrow> delivered owner N n i \<Longrightarrow>
    lim ho (net_nodes N n) i \<Longrightarrow> net_reachable lim V owner N0 (net_apply ho N n i)"

lemma net_reachable_mono:
  assumes "net_reachable lim V owner N0 N" "\<And>ho b i. lim ho b i \<Longrightarrow> lim' ho b i"
  shows "net_reachable lim' V owner N0 N"
  using assms(1)
proof induction
  case (step N n ho i)
  then show ?case using assms(2) by (blast intro: net_reachable.step)
qed (rule net_reachable.start)

lemma within_limits_fit: "net_reachable within_limits V owner N0 N \<Longrightarrow> net_reachable counters_fit V owner N0 N"
  by (erule net_reachable_mono) (simp add: within_limits_def)

text \<open>The configured seeds name the nodes that hold the keys.\<close>

definition honest_seeds :: "('p \<Rightarrow> NodeId) \<Rightarrow> ('p, 'a) RaftConfig \<Rightarrow> bool" where
  "honest_seeds owner cfg \<longleftrightarrow> (\<forall>s \<in> set (cfg_seed_peers cfg). owner (sp_peer_id s) = sp_node_id s)"

definition honest_map :: "('p \<Rightarrow> NodeId) \<Rightarrow> ('p, 'a) PeerMap \<Rightarrow> bool" where
  "honest_map owner m \<longleftrightarrow> (\<forall>d p. pm_peer_id m d = Some p \<longrightarrow> owner p = d) \<and> (\<forall>d p. pm_node_id m p = Some d \<longrightarrow> owner p = d)"

lemma honest_from_seeds: "honest_seeds owner cfg \<Longrightarrow> honest_map owner (from_seeds (cfg_seed_peers cfg))"
  unfolding from_seeds_def honest_seeds_def
  by (rule fold_preserves) (auto simp: honest_map_def pm_peer_id_def pm_node_id_def PeerMap_default_def pm_insert_def)

subsection \<open>Engines in the network and in the cluster\<close>

lemma failing_inputs:
  assumes "failing e e'"
  shows "engine_current_term e' = engine_current_term e" "credited e' i = credited e i"
    "has_room e' i = has_room e i" "term_overflow e' i = term_overflow e i"
proof -
  note f = failing_sel [OF assms]
  show t: "engine_current_term e' = engine_current_term e" by (simp add: engine_current_term_def f)
  show "credited e' i = credited e i" by (cases "(e, i)" rule: credited.cases) (simp_all add: f t)
  show "has_room e' i = has_room e i" by (cases i) (simp_all add: f)
  show "term_overflow e' i = term_overflow e i" by (cases i) (simp_all add: f t)
qed

text \<open>A later cluster: the history has grown, the voters are the same.\<close>

definition later :: "('p, 'a) Cluster \<Rightarrow> ('p, 'a) Cluster \<Rightarrow> bool" where
  "later c c' \<longleftrightarrow> history c \<subseteq> history c' \<and> (\<forall>n. engine_other_voters (nodes c' n) = engine_other_voters (nodes c n))"

lemma later_refl [simp]: "later c c"
  by (simp add: later_def)

lemma later_trans: "later c c1 \<Longrightarrow> later c1 c2 \<Longrightarrow> later c c2"
  by (auto simp: later_def)

lemma engine_apply_other_voters: "engine_other_voters (fst (engine_apply e i)) = engine_other_voters e"
  by (simp add: engine_other_voters_def)

lemma later_apply: "later c (cluster_apply c n i)"
  by (auto simp: later_def cluster_apply_sel engine_apply_other_voters)

lemma later_in_flight: "later c c' \<Longrightarrow> in_flight c n d m \<Longrightarrow> in_flight c' n d m"
  by (auto simp: later_def in_flight_def)

lemma cluster_apply_upd:
  "nodes (cluster_apply c n i) = (nodes c)(n := fst (engine_apply (nodes c n) i))"
  "history (cluster_apply c n i) = history c \<union> Pair n ` set (snd (engine_apply (nodes c n) i))"
  by (simp_all add: cluster_apply_def Let_def case_prod_unfold)

text \<open>
  The runs of the cluster that the network follows: those in which every success is credited with no more than
  its sender stores if every new leader is fresh, and any runs otherwise.
\<close>

definition follows :: "bool \<Rightarrow> NodeId set \<Rightarrow> ('p, 'a) Cluster \<Rightarrow> ('p, 'a) Cluster \<Rightarrow> bool" where
  "follows fr V c0 c \<longleftrightarrow> (if fr then credited_reachable V c0 c else roomy_reachable V c0 c)"

lemma follows_start [simp]: "follows fr V c0 c0"
  by (simp add: follows_def credited_reachable.start roomy_reachable.start)

lemma follows_step:
  "follows fr V c0 c \<Longrightarrow> n \<in> V \<Longrightarrow> admissible c n i \<Longrightarrow> has_room (nodes c n) i \<Longrightarrow> (fr \<Longrightarrow> credited (nodes c n) i) \<Longrightarrow>
    follows fr V c0 (cluster_apply c n i)"
  by (simp add: follows_def credited_reachable.step roomy_reachable.step)

text \<open>The cluster can follow reports of failed requests, and a call between them.\<close>

lemma cluster_failing:
  assumes "failing (nodes c n) e'" "follows fr V c0 c" "n \<in> V"
  shows "\<exists>c'. follows fr V c0 c' \<and> nodes c' = (nodes c)(n := e') \<and> later c c' \<and> history c' = history c"
  using assms(1)
proof (induction "nodes c n" e' rule: failing.induct)
  case refl
  then show ?case using assms(2) by (intro exI [of _ c]) simp
next
  case (step e1 p k)
  then obtain c1 where c1: "follows fr V c0 c1" "nodes c1 = (nodes c)(n := e1)" "later c c1" "history c1 = history c"
    by blast
  let ?c = "cluster_apply c1 n (InRpcFailure p k)"
  have "follows fr V c0 ?c" by (rule follows_step [OF c1(1) assms(3)]) simp_all
  moreover have "nodes ?c = (nodes c)(n := fst (handle_rpc_failure e1 p k))"
    by (simp add: cluster_apply_upd c1(2))
  moreover have "history ?c = history c" by (simp add: cluster_apply_upd c1(4))
  ultimately show ?case using later_trans [OF c1(3) later_apply] by blast
qed

lemma cluster_call:
  assumes "failing (nodes c n) e1" "failing (fst (engine_apply e1 i)) e2" "follows fr V c0 c" "n \<in> V"
    and "fr \<longrightarrow> credited (nodes c n) i" "has_room (nodes c n) i" "\<And>c'. nodes c' n = e1 \<Longrightarrow> later c c' \<Longrightarrow> admissible c' n i"
  shows "\<exists>c'. follows fr V c0 c' \<and> nodes c' = (nodes c)(n := e2) \<and> later c c' \<and>
    Pair n ` set (snd (engine_apply e1 i)) \<subseteq> history c'"
proof -
  obtain c1 where c1: "follows fr V c0 c1" "nodes c1 = (nodes c)(n := e1)" "later c c1"
    using cluster_failing [OF assms(1,3,4)] by blast
  have n1: "nodes c1 n = e1" using c1(2) by simp
  let ?c2 = "cluster_apply c1 n i"
  have "follows fr V c0 ?c2"
    using assms(5,6) failing_inputs(2,3) [OF assms(1)] assms(7) [OF n1 c1(3)] n1
    by (intro follows_step [OF c1(1) assms(4)]) simp_all
  moreover have "nodes ?c2 n = fst (engine_apply e1 i)" by (simp add: cluster_apply_sel n1)
  ultimately obtain c3 where c3: "follows fr V c0 c3" "nodes c3 = (nodes ?c2)(n := e2)" "later ?c2 c3"
      "history c3 = history ?c2"
    using cluster_failing [of ?c2 n e2 fr V c0] assms(2,4) by auto
  have "nodes c3 = (nodes c)(n := e2)" by (simp add: c3(2) c1(2) cluster_apply_upd)
  moreover have "later c c3" by (rule later_trans [OF c1(3) later_trans [OF later_apply c3(3)]])
  moreover have "Pair n ` set (snd (engine_apply e1 i)) \<subseteq> history c3"
    by (simp add: c3(4) cluster_apply_upd n1)
  ultimately show ?thesis using c3(1) by blast
qed

subsection \<open>What the engine sends\<close>

text \<open>An answer an engine gives: of the request's kind and in a term at least as new, and a success confirms the last entry.\<close>

definition true_answer :: "RaftMessage \<Rightarrow> RaftMessage \<Rightarrow> bool" where
  "true_answer msg m \<longleftrightarrow> answers msg m \<and> (\<forall>t k. m = AppendEntriesResp t True k \<longrightarrow>
     (\<exists>l pi pt es lc. msg = AppendEntries t l pi pt es lc \<and> k = pi + of_nat (length es)))"

lemma engine_true_answer:
  assumes "is_request msg" "Send d m \<in> set (snd (handle_rpc e src msg now))"
  shows "d = src \<and> true_answer msg m"
proof (cases msg)
  case (RequestVote t c li lt)
  then show ?thesis using assms(2) by (auto simp: handle_request_vote_spec true_answer_def split: if_splits)
next
  case (AppendEntries t l pi pt es lc)
  from assms(2) AppendEntries have s: "Send d m \<in> set (snd (handle_append_entries e src t l pi pt es lc now))" by simp
  from append_entries_kind [OF this] obtain t' ok k where m: "d = src" "m = AppendEntriesResp t' ok k" by auto
  have "t \<le> t'"
  proof (cases "t < engine_current_term e")
    case True
    then show ?thesis using s m by (simp add: append_entries_stale)
  next
    case False
    then have le: "engine_current_term e \<le> t" by simp
    show ?thesis
    proof (cases "prev_log_ok (storage e) pi pt")
      case True
      then show ?thesis using s m
        by (auto simp: append_entries_current [OF le] Let_def case_prod_unfold ae_notice_def dest!: advance_commit_action
            split: if_splits)
    next
      case False
      then show ?thesis using s m by (auto simp: append_entries_reject [OF le] ae_notice_def split: if_splits)
    qed
  qed
  moreover have "t' = t \<and> k = pi + of_nat (length es)" if "ok = True"
    using append_entries_answer [of d t' k e src t l pi pt es lc now] s m that by simp
  ultimately show ?thesis using m AppendEntries by (simp add: true_answer_def)
qed (use assms(1) in simp_all)

lemma sends_no_response:
  assumes "sends_of i e (snd (engine_apply e i)) d m"
  shows "\<not> is_response m"
proof -
  from assms have na: "\<not> answering i" and
    s: "Send d m \<in> set (snd (engine_apply e i)) \<or> Broadcast m \<in> set (snd (engine_apply e i))"
    by (auto simp: sends_of_def sent_by_def)
  have ae: "\<not> is_response m'" if "is_append_entries (Send d' m')" for d' m'
    using that by (auto simp: is_append_entries_def split: RaftMessage.splits)
  have nb: "\<not> is_append_entries (Broadcast m')" for m' by (simp add: is_append_entries_def)
  show ?thesis
  proof (cases i)
    case (InTick now)
    then show ?thesis using s ae nb
      by (auto simp: Let_def case_prod_unfold start_election_def become_candidate_def dest!: tick_kind)
  next
    case (InRpc src msg now)
    then show ?thesis using s na ae nb
      by (cases msg) (auto dest!: append_entries_resp_kind request_vote_resp_kind)
  next
    case (InPropose data)
    have "is_append_entries a" if "a \<in> set (snd (engine_apply e i))" for a
      using that InPropose by (auto split: sum.splits prod.splits dest: propose_kind)
    then show ?thesis using s ae nb by blast
  qed (use s in simp)
qed

subsection \<open>The simulation\<close>

text \<open>
  What stands behind an event a node has queued or returned. A request is in flight in the cluster, and if it is
  still pending, it is that request; an answer was sent by the engine and answers a request that was returned;
  a batch of entries was applied.
\<close>

definition answer_behind ::
  "('p \<Rightarrow> NodeId) \<Rightarrow> ('p, 'x) Cluster \<Rightarrow> (NodeId \<times> ('p, 'a, 'c) ToSwarm) set \<Rightarrow> NodeId \<Rightarrow> 'p \<Rightarrow> u64 \<Rightarrow> RaftMessage \<Rightarrow> bool" where
  "answer_behind owner c out n p cid m \<longleftrightarrow> (n, Send (owner p) m) \<in> history c \<and>
     (\<exists>q t msg. (owner p, NotifyHandler q t (SendRequest cid msg)) \<in> out \<and> owner q = n \<and> true_answer msg m)"

fun ev_ok ::
  "('p \<Rightarrow> NodeId) \<Rightarrow> ('p, 'a) Cluster \<Rightarrow> ('p, 'a, 'c) Network \<Rightarrow> NodeId \<Rightarrow> ('p, 'a, 'c) ToSwarm \<Rightarrow> bool" where
  "ev_ok owner c N n (NotifyHandler p t (SendRequest cid m)) =
     (in_flight c n (owner p) m \<and> \<not> is_response m \<and> cid < next_correlation_id (net_nodes N n) \<and>
        (\<forall>r. map_of (pending (net_nodes N n)) cid = Some r \<longrightarrow> pr_to r = owner p \<and> pr_msg r = m))"
| "ev_ok owner c N n (NotifyHandler p t (SendResponse ch cid m)) = answer_behind owner c (returned N) n p cid m"
| "ev_ok owner c N n (GenerateEvent (Committed es)) = ((n, Apply es) \<in> history c)"
| "ev_ok owner c N n _ = True"

lemma answer_behind_mono:
  "answer_behind owner c out n p cid m \<Longrightarrow> history c \<subseteq> history c' \<Longrightarrow> out \<subseteq> out' \<Longrightarrow> answer_behind owner c' out' n p cid m"
  unfolding answer_behind_def by blast

lemma ev_ok_mono:
  assumes "ev_ok owner c N n ev" "later c c'" "returned N \<subseteq> returned N'" "grows (net_nodes N n) (net_nodes N' n)"
  shows "ev_ok owner c' N' n ev"
proof (cases "(owner, c, N, n, ev)" rule: ev_ok.cases)
  case (1 owner c N n p t cid m)
  note g = assms(4) [unfolded grows_def]
  from 1 assms(1) have old: "in_flight c n (owner p) m" "\<not> is_response m" "cid < next_correlation_id (net_nodes N n)"
      "\<And>r. map_of (pending (net_nodes N n)) cid = Some r \<Longrightarrow> pr_to r = owner p \<and> pr_msg r = m"
    by auto
  have "in_flight c' n (owner p) m" using later_in_flight [OF assms(2)] 1 old(1) by simp
  moreover have "cid < next_correlation_id (net_nodes N' n)" using g 1 old(3) by (auto intro: order_less_le_trans)
  moreover have "pr_to r = owner p \<and> pr_msg r = m" if "map_of (pending (net_nodes N' n)) cid = Some r" for r
    using g 1 old(3,4) that by blast
  ultimately show ?thesis using 1 old(2) by simp
next
  case (2 owner c N n p t ch cid m)
  then show ?thesis using assms answer_behind_mono [of owner c "returned N" n p cid m c' "returned N'"]
    by (simp add: later_def)
qed (use assms in \<open>auto simp: later_def\<close>)

definition net_sim :: "bool \<Rightarrow> NodeId set \<Rightarrow> ('p \<Rightarrow> NodeId) \<Rightarrow> ('p, 'a) Cluster \<Rightarrow> ('p, 'a, 'c) Network \<Rightarrow> bool" where
  "net_sim fr V owner c N \<longleftrightarrow>
     (\<forall>n \<in> V. nodes c n = engine (net_nodes N n) \<and> honest_map owner (peer_map (net_nodes N n)) \<and>
        behaviour_inv (net_nodes N n) \<and> (fr \<longrightarrow> flight_inv (net_nodes N n)) \<and>
        (\<forall>ev \<in> set (pending_events (net_nodes N n)). ev_ok owner c N n ev)) \<and>
     (\<forall>(n, ev) \<in> returned N. n \<in> V \<and> ev_ok owner c N n ev)"

lemma net_simD:
  assumes "net_sim fr V owner c N"
  shows "n \<in> V \<Longrightarrow> nodes c n = engine (net_nodes N n)" "n \<in> V \<Longrightarrow> honest_map owner (peer_map (net_nodes N n))"
    "n \<in> V \<Longrightarrow> behaviour_inv (net_nodes N n)" "n \<in> V \<Longrightarrow> fr \<Longrightarrow> flight_inv (net_nodes N n)"
    "n \<in> V \<Longrightarrow> ev \<in> set (pending_events (net_nodes N n)) \<Longrightarrow> ev_ok owner c N n ev"
    "(n, ev) \<in> returned N \<Longrightarrow> n \<in> V" "(n, ev) \<in> returned N \<Longrightarrow> ev_ok owner c N n ev"
  using assms unfolding net_sim_def by blast+

text \<open>A permitted event is backed by the cluster that has followed the call.\<close>

lemma new_ev_ok:
  assumes "permitted S C R x ev" "honest_map owner (peer_map x)"
    and "next_correlation_id (net_nodes N n) = next_correlation_id x" "pending (net_nodes N n) = pending x"
    and "\<And>d m. S d m \<Longrightarrow> in_flight c n d m \<and> \<not> is_response m" "\<And>es. C es \<Longrightarrow> (n, Apply es) \<in> history c"
    and "\<And>p cid m. R p cid m \<Longrightarrow> answer_behind owner c (returned N) n p cid m"
  shows "ev_ok owner c N n ev"
proof (cases "(S, C, R, x, ev)" rule: permitted.cases)
  case (1 S C R x p t cid m)
  then obtain d where d: "pm_peer_id (peer_map x) d = Some p" "S d m" "cid < next_correlation_id x"
      "\<forall>r. map_of (pending x) cid = Some r \<longrightarrow> pr_to r = d \<and> pr_msg r = m"
    using assms(1) by auto
  have "owner p = d" using assms(2) 1 d(1) unfolding honest_map_def by blast
  then show ?thesis using 1 d assms(3-5) by simp
qed (use assms in auto)

text \<open>
  The step: \<open>x\<close> is the behaviour before \<open>poll\<close> takes its event (and the behaviour itself in every other call).
\<close>

lemma net_sim_step:
  fixes N :: "('p, 'a, 'c) Network"
  assumes sim: "net_sim fr V owner c N" and n: "n \<in> V"
    and x: "engine b' = engine x" "peer_map b' = peer_map x" "next_correlation_id b' = next_correlation_id x"
      "pending b' = pending x" "set (pending_events b') \<subseteq> set (pending_events x)" "out \<subseteq> set (pending_events x)"
    and q: "queues S C R (net_nodes N n) x"
    and c': "nodes c' = (nodes c)(n := engine x)" "later c c'"
    and just: "\<And>d m. S d m \<Longrightarrow> in_flight c' n d m \<and> \<not> is_response m" "\<And>es. C es \<Longrightarrow> (n, Apply es) \<in> history c'"
      "\<And>p cid m. R p cid m \<Longrightarrow> answer_behind owner c' (returned N) n p cid m"
    and inv: "behaviour_inv b'" "fr \<longrightarrow> flight_inv b'"
  shows "net_sim fr V owner c' (N\<lparr>net_nodes := (net_nodes N)(n := b'), returned := returned N \<union> Pair n ` out\<rparr>)"
proof -
  let ?N = "N\<lparr>net_nodes := (net_nodes N)(n := b'), returned := returned N \<union> Pair n ` out\<rparr>"
  note D = net_simD [OF sim]
  have g: "grows (net_nodes N n) x" using q by (simp add: queues_def)
  then have gN: "grows (net_nodes N m) (net_nodes ?N m)" for m using x(2-4) by (simp add: grows_def)
  have hm: "honest_map owner (peer_map x)" using D(2) [OF n] g by (simp add: grows_def)
  have old: "ev_ok owner c' ?N m ev" if "ev_ok owner c N m ev" for m ev
    by (rule ev_ok_mono [OF that c'(2) _ gN]) simp
  have queued: "ev_ok owner c' ?N n ev" if "ev \<in> set (pending_events x)" for ev
  proof (cases "ev \<in> set (pending_events (net_nodes N n))")
    case True
    then show ?thesis by (rule old [OF D(5) [OF n]])
  next
    case False
    then have p: "permitted S C R x ev" using q that by (auto simp: queues_def)
    have R: "answer_behind owner c' (returned ?N) n p cid m" if "R p cid m" for p cid m
      by (rule answer_behind_mono [OF just(3) [OF that]]) auto
    show ?thesis by (rule new_ev_ok [OF p hm _ _ just(1,2) R]) (simp_all add: x(3,4))
  qed
  show ?thesis
    unfolding net_sim_def
  proof (intro conjI ballI)
    fix m assume m: "m \<in> V"
    show "nodes c' m = engine (net_nodes ?N m)" using D(1) [OF m] c'(1) x(1) by simp
    show "honest_map owner (peer_map (net_nodes ?N m))" using D(2) [OF m] hm x(2) by simp
    show "behaviour_inv (net_nodes ?N m)" "fr \<longrightarrow> flight_inv (net_nodes ?N m)" using D(3,4) [OF m] inv by simp_all
    fix ev assume "ev \<in> set (pending_events (net_nodes ?N m))"
    then show "ev_ok owner c' ?N m ev" using queued x(5) old [OF D(5) [OF m]] by (auto split: if_splits)
  next
    fix y assume "y \<in> returned ?N"
    then show "case y of (m, ev) \<Rightarrow> m \<in> V \<and> ev_ok owner c' ?N m ev"
      using D(6,7) old queued x(6) n by (auto split: prod.split)
  qed
qed

text \<open>\<open>b'\<close> is what a call leaves of \<open>x\<close>, and \<open>out\<close> what it returns.\<close>

definition leaves ::
  "('p, 'a, 'c) RaftBehaviour \<Rightarrow> ('p, 'a, 'c) RaftBehaviour \<Rightarrow> ('p, 'a, 'c) ToSwarm set \<Rightarrow> bool" where
  "leaves x b' out \<longleftrightarrow> engine b' = engine x \<and> peer_map b' = peer_map x \<and>
     next_correlation_id b' = next_correlation_id x \<and> pending b' = pending x \<and>
     set (pending_events b') \<subseteq> set (pending_events x) \<and> out \<subseteq> set (pending_events x)"

abbreviation net_upd ::
  "('p, 'a, 'c) Network \<Rightarrow> NodeId \<Rightarrow> ('p, 'a, 'c) RaftBehaviour \<Rightarrow> ('p, 'a, 'c) ToSwarm set \<Rightarrow> ('p, 'a, 'c) Network" where
  "net_upd N n b' out \<equiv> N\<lparr>net_nodes := (net_nodes N)(n := b'), returned := returned N \<union> Pair n ` out\<rparr>"

lemma quiet_net_step:
  fixes N :: "('p, 'a, 'c) Network"
  assumes "net_sim fr V owner c N" "follows fr V c0 c" "n \<in> V" "quiet (net_nodes N n) x" "leaves x b' out"
    and "behaviour_inv b'" "fr \<longrightarrow> flight_inv b'"
  shows "\<exists>c'. follows fr V c0 c' \<and> net_sim fr V owner c' (net_upd N n b' out)"
proof -
  have "failing (nodes c n) (engine x)" using net_simD(1) [OF assms(1,3)] quietD(1) [OF assms(4)] by simp
  from cluster_failing [OF this assms(2,3)] obtain c' where c': "follows fr V c0 c'"
      "nodes c' = (nodes c)(n := engine x)" "later c c'" by blast
  note x = assms(5) [unfolded leaves_def]
  have "queues (\<lambda>d m. False) (\<lambda>es. False) (\<lambda>p cid m. False) (net_nodes N n) x" by (rule quietD(2) [OF assms(4)])
  then have "net_sim fr V owner c' (net_upd N n b' out)"
    by (rule net_sim_step [OF assms(1,3) _ _ _ _ _ _ _ c'(2,3) _ _ _ assms(6,7), rotated 6]) (use x in simp_all)
  with c'(1) show ?thesis by blast
qed

lemma calls_net_step:
  fixes N :: "('p, 'a, 'c) Network"
  assumes "net_sim fr V owner c N" "follows fr V c0 c" "n \<in> V" "calls i R (net_nodes N n) x" "leaves x b' out"
    and "behaviour_inv b'" "fr \<longrightarrow> flight_inv b'"
    and "fr \<longrightarrow> credited (nodes c n) i" "has_room (nodes c n) i"
    and "\<And>c' e. nodes c' n = e \<Longrightarrow> failing (nodes c n) e \<Longrightarrow> later c c' \<Longrightarrow> admissible c' n i"
    and "\<And>c' (e :: ('p, 'a) RaftEngine) p cid m. later c c' \<Longrightarrow> Pair n ` set (snd (engine_apply e i)) \<subseteq> history c' \<Longrightarrow>
      R (snd (engine_apply e i)) p cid m \<Longrightarrow> answer_behind owner c' (returned N) n p cid m"
  shows "\<exists>c'. follows fr V c0 c' \<and> net_sim fr V owner c' (net_upd N n b' out)"
proof -
  obtain e1 where e1: "failing (nodes c n) e1" "failing (fst (engine_apply e1 i)) (engine x)"
    and q: "queues (sends_of i e1 (snd (engine_apply e1 i))) (applied_by (snd (engine_apply e1 i)))
      (R (snd (engine_apply e1 i))) (net_nodes N n) x"
    using assms(4) net_simD(1) [OF assms(1,3)] unfolding calls_def Let_def by auto
  from cluster_call [OF e1 assms(2,3,8,9)] assms(10) e1(1) obtain c' where c': "follows fr V c0 c'"
      "nodes c' = (nodes c)(n := engine x)" "later c c'" and h: "Pair n ` set (snd (engine_apply e1 i)) \<subseteq> history c'"
    by blast
  note x = assms(5) [unfolded leaves_def]
  have "engine_other_voters (nodes c' n) = engine_other_voters e1"
    using c'(3) failing_other_voters [OF e1(1)] by (simp add: later_def)
  then have S: "in_flight c' n d m \<and> \<not> is_response m" if "sends_of i e1 (snd (engine_apply e1 i)) d m" for d m
    using that h sends_no_response [OF that] by (auto simp: in_flight_def sends_of_def sent_by_def)
  have "net_sim fr V owner c' (net_upd N n b' out)"
    by (rule net_sim_step [OF assms(1,3) _ _ _ _ _ _ q c'(2,3) S _ _ assms(6,7)])
      (use x h assms(11) [OF c'(3) h] in auto)
  with c'(1) show ?thesis by blast
qed

lemma counters_fit_ok:
  assumes "counters_fit ho b i" "\<And>p conn cid msg ch. i = HandlerEvent p conn (Request cid msg ch) \<Longrightarrow> \<not> is_response msg"
    and "\<And>p conn cid msg r. i = HandlerEvent p conn (Response cid msg) \<Longrightarrow> map_of (pending b) cid = Some r \<Longrightarrow> answers (pr_msg r) msg"
  shows "behaviour_input_ok b i"
  using assms by (auto simp: counters_fit_def split: BehaviourInput.split ToBehaviour.split option.split)

text \<open>What is known of an answer when it arrives.\<close>

lemma response_behind:
  assumes sim: "net_sim fr V owner c N" and n: "n \<in> V"
    and d: "delivered owner N n (HandlerEvent p conn (Response cid msg))"
    and r: "map_of (pending (net_nodes N n)) cid = Some r"
  shows "in_flight c (pr_to r) n msg" "true_answer (pr_msg r) msg" "fr \<Longrightarrow> credited (nodes c n) (InRpc (pr_to r) msg now)"
proof -
  note D = net_simD [OF sim]
  from d obtain q t ch where "(owner p, NotifyHandler q t (SendResponse ch cid msg)) \<in> returned N" "owner q = n" by auto
  from D(7) [OF this(1)] this(2) have "answer_behind owner c (returned N) (owner p) q cid msg" by simp
  then obtain q' t' req where ans: "(owner p, Send n msg) \<in> history c" "true_answer req msg"
      "(n, NotifyHandler q' t' (SendRequest cid req)) \<in> returned N" "owner q' = owner p"
    unfolding answer_behind_def \<open>owner q = n\<close> by blast
  have pr: "pr_to r = owner p" "pr_msg r = req" using D(7) [OF ans(3)] r ans(4) by auto
  show "in_flight c (pr_to r) n msg" using ans(1) pr by (simp add: in_flight_def)
  show ta: "true_answer (pr_msg r) msg" using ans(2) pr by simp
  assume fr: fr
  show "credited (nodes c n) (InRpc (pr_to r) msg now)"
  proof (cases "\<exists>t k. msg = AppendEntriesResp t True k \<and> role (nodes c n) = Leader")
    case True
    then obtain t k where m: "msg = AppendEntriesResp t True k" "role (nodes c n) = Leader" by blast
    with ta obtain l pi pt es lc where req: "pr_msg r = AppendEntries t l pi pt es lc" "k = pi + of_nat (length es)"
      unfolding true_answer_def by blast
    have "role (engine (net_nodes N n)) = Leader" using m(2) D(1) [OF n] by simp
    from flight_recorded(2) [OF D(4) [OF n fr] this r req(1)] show ?thesis using m(1) req(2) D(1) [OF n] by simp
  next
    case False
    then show ?thesis by (cases "(nodes c n, InRpc (pr_to r) msg now)" rule: credited.cases) auto
  qed
qed

lemma net_sim_apply:
  fixes N :: "('p, 'a, 'c) Network"
  assumes sim: "net_sim fr V owner c N" and reach: "follows fr V c0 c" and n: "n \<in> V"
    and del: "delivered owner N n i" and lim: "counters_fit ho (net_nodes N n) i"
    and fresh: "fr \<Longrightarrow> fresh_leader (net_nodes N n) (behaviour_step ho (net_nodes N n) i)"
  shows "\<exists>c'. follows fr V c0 c' \<and> net_sim fr V owner c' (net_apply ho N n i)"
proof -
  note D = net_simD [OF sim]
  let ?b = "net_nodes N n" and ?b' = "behaviour_step ho (net_nodes N n) i" and ?out = "poll_returns ho (net_nodes N n) i"
  have req: "in_flight c (owner p) n msg \<and> \<not> is_response msg" if "i = HandlerEvent p conn (Request cid msg ch)" for p conn cid msg ch
  proof -
    from del that obtain q t where "(owner p, NotifyHandler q t (SendRequest cid msg)) \<in> returned N" "owner q = n" by auto
    from D(7) [OF this(1)] this(2) show ?thesis by simp
  qed
  have resp: "true_answer (pr_msg r) msg" if "i = HandlerEvent p conn (Response cid msg)" "map_of (pending ?b) cid = Some r"
    for p conn cid msg r
    using response_behind(2) [OF sim n _ that(2)] del that(1) by simp
  have ok: "behaviour_input_ok ?b i"
    by (rule counters_fit_ok [OF lim]) (use req resp in \<open>auto simp: true_answer_def\<close>)
  have inv': "behaviour_inv ?b'" by (rule behaviour_step_inv [OF D(3) [OF n] ok])
  have finv': "fr \<longrightarrow> flight_inv ?b'"
    using flight_inv_step [OF D(4) [OF n] ok fresh] by blast
  have ids: "ids_ok ?b (Suc (other_count ?b))" using lim by (intro ids_room [OF D(3) [OF n]]) (simp add: counters_fit_def)
  have upd: "net_apply ho N n i = net_upd N n ?b' ?out" by (simp add: net_apply_def)
  have self: "leaves ?b' ?b' {}" by (simp add: leaves_def)
  note quiet_step = quiet_net_step [OF sim reach n _ _ inv' finv'] and calls_step = calls_net_step [OF sim reach n _ _ inv' finv']
  show ?thesis
  proof (cases i)
    case (SwarmEvent ev)
    have "quiet ?b ?b'" using SwarmEvent by (simp add: swarm_quiet)
    from quiet_step [OF this self] show ?thesis unfolding upd using SwarmEvent by simp
  next
    case (DialSeed peer)
    have "quiet ?b ?b'" using DialSeed by (simp add: quiet_dial)
    from quiet_step [OF this self] show ?thesis unfolding upd using DialSeed by simp
  next
    case PollPass
    obtain x where x: "poll_effect ho ?b x" using poll_effect_exists [OF D(3) [OF n] ids] by blast
    then have l: "leaves x ?b' ?out" using PollPass
      by (auto simp: poll_effect_def popped_from_def leaves_def split: PollPass.splits)
    from x consider "quiet ?b x" | "calls (InTick (clock ?b (readings ?b))) no_replies ?b x" by (auto simp: poll_effect_def)
    then show ?thesis
    proof cases
      case 1
      from quiet_step [OF this l] show ?thesis unfolding upd .
    next
      case 2
      have "admissible c' n (InTick (clock ?b (readings ?b)))" if "nodes c' n = e" "failing (nodes c n) e" for c' e
        using that(1) failing_inputs(4) [OF that(2)] lim PollPass D(1) [OF n]
        by (simp add: counters_fit_def del: term_overflow.simps)
      then show ?thesis unfolding upd by (intro calls_step [OF 2 l]) (simp_all del: admissible.simps)
    qed
  next
    case (Propose data)
    have call: "calls (InPropose data) no_replies ?b ?b'" using Propose propose_calls [OF ids] by simp
    have "has_room (nodes c n) (InPropose data)" using lim Propose D(1) [OF n] by (simp add: counters_fit_def)
    then have "\<exists>c'. follows fr V c0 c' \<and> net_sim fr V owner c' (net_upd N n ?b' {})"
      by (intro calls_step [OF call self]) simp_all
    then show ?thesis unfolding upd using Propose by simp
  next
    case (HandlerEvent p conn ev)
    then have out: "?out = {}" by simp
    show ?thesis
    proof (cases ev)
      case (Failure cid err)
      have "quiet ?b ?b'" using HandlerEvent Failure by (simp add: failure_quiet)
      from quiet_step [OF this self] show ?thesis unfolding upd out .
    next
      case (Response cid msg)
      show ?thesis
      proof (cases "map_of (pending ?b) cid")
        case None
        have "quiet ?b ?b'" using HandlerEvent Response response_ignored [OF None] by simp
        from quiet_step [OF this self] show ?thesis unfolding upd out .
      next
        case (Some r)
        have del': "delivered owner N n (HandlerEvent p conn (Response cid msg))" using del HandlerEvent Response by simp
        note behind = response_behind [OF sim n del' Some]
        have "\<not> is_request msg" using behind(2) by (cases "(pr_msg r, msg)" rule: answers.cases) (auto simp: true_answer_def)
        then have call: "calls (InRpc (pr_to r) msg (clock ?b (readings ?b))) no_replies ?b ?b'"
          using response_calls [OF Some ids] HandlerEvent Response by simp
        have "admissible c' n (InRpc (pr_to r) msg now)" if "later c c'" for c' now
          using later_in_flight [OF that behind(1)] by simp
        then show ?thesis unfolding upd out using behind(3) by (intro calls_step [OF call self]) simp_all
      qed
    next
      case (Request cid msg ch)
      have r: "in_flight c (owner p) n msg" "\<not> is_response msg" using req HandlerEvent Request by blast+
      show ?thesis
      proof (cases "is_request msg \<and> pm_node_id (peer_map ?b) p \<noteq> None")
        case False
        then have "quiet ?b ?b'" using HandlerEvent Request r(2) request_ignored [of ?b p msg] by auto
        from quiet_step [OF this self] show ?thesis unfolding upd out .
      next
        case True
        then obtain src where src: "pm_node_id (peer_map ?b) p = Some src" and isr: "is_request msg" by auto
        have own: "owner p = src" using D(2) [OF n] src by (simp add: honest_map_def)
        have call: "calls (InRpc src msg (clock ?b (readings ?b))) (replies_to p cid src) ?b ?b'"
          using request_calls [OF src isr] HandlerEvent Request by simp
        have adm: "admissible c' n (InRpc src msg now)" if "later c c'" for c' now
          using later_in_flight [OF that r(1)] own by simp
        have cred: "fr \<longrightarrow> credited (nodes c n) (InRpc src msg now)" for now
          using isr by (cases msg) simp_all
        have ans: "answer_behind owner c' (returned N) n p' cid' m"
          if "later c c'" "Pair n ` set (snd (engine_apply e (InRpc src msg now))) \<subseteq> history c'"
            "replies_to p cid src (snd (engine_apply e (InRpc src msg now))) p' cid' m" for c' e p' cid' m now
        proof -
          from that(3) have s: "p' = p" "cid' = cid" "Send src m \<in> set (snd (handle_rpc e src msg now))"
            by (simp_all add: replies_to_def)
          have "(n, Send src m) \<in> history c'" using that(2) s(3) by auto
          moreover obtain q t where "(owner p, NotifyHandler q t (SendRequest cid msg)) \<in> returned N" "owner q = n"
            using del HandlerEvent Request by auto
          moreover have "true_answer msg m" using engine_true_answer [OF isr s(3)] by simp
          ultimately show ?thesis unfolding answer_behind_def s(1,2) own by blast
        qed
        show ?thesis unfolding upd out
        proof (rule calls_step [OF call self cred])
          show "has_room (nodes c n) (InRpc src msg (clock ?b (readings ?b)))" by simp
        qed (rule adm, assumption, rule ans, assumption+)
      qed
    qed
  qed
qed

lemma net_sim_init:
  assumes "\<forall>n \<in> V. honest_seeds owner (cfgs n)"
  shows "net_sim fr V owner (cluster_init hos (\<lambda>n. clks n 0) cfgs) (net_init hos clks rnds rdys cfgs)"
proof -
  have sel: "engine (RaftBehaviour_new hov clk rnd rdy cfg st) = engine_new hov (clk 0) cfg st"
    "peer_map (RaftBehaviour_new hov clk rnd rdy cfg st) = from_seeds (cfg_seed_peers cfg)"
    "pending_events (RaftBehaviour_new hov clk rnd rdy cfg st) =
      map (\<lambda>seed. GenerateEvent (PeerMapped (sp_peer_id seed) (sp_node_id seed))) (cfg_seed_peers cfg)"
    for hov clk rnd rdy cfg st by (simp_all add: RaftBehaviour_new_def Let_def)
  show ?thesis
    using assms by (auto simp: net_sim_def net_init_def cluster_init_def sel honest_from_seeds behaviour_inv_new flight_inv_new)
qed

text \<open>The simulation, for fresh leaders and for any.\<close>

lemma net_sim_run:
  assumes "\<forall>n \<in> V. honest_seeds owner (cfgs n)" "net_reachable lim V owner (net_init hos clks rnds rdys cfgs) N"
    and "\<And>ho b i. lim ho b i \<Longrightarrow> counters_fit ho b i \<and> (fr \<longrightarrow> fresh_leader b (behaviour_step ho b i))"
  shows "\<exists>c. follows fr V (cluster_init hos (\<lambda>n. clks n 0) cfgs) c \<and> net_sim fr V owner c N"
  using assms(2)
proof induction
  case start
  show ?case using net_sim_init [OF assms(1)] follows_start by blast
next
  case (step N n ho i)
  then show ?case using net_sim_apply assms(3) by blast
qed

lemma net_sim_reachable:
  assumes "\<forall>n \<in> V. honest_seeds owner (cfgs n)"
  shows "net_reachable within_limits V owner (net_init hos clks rnds rdys cfgs) N \<Longrightarrow>
      \<exists>c. credited_reachable V (cluster_init hos (\<lambda>n. clks n 0) cfgs) c \<and> net_sim True V owner c N"
    "net_reachable counters_fit V owner (net_init hos clks rnds rdys cfgs) N \<Longrightarrow>
      \<exists>c. roomy_reachable V (cluster_init hos (\<lambda>n. clks n 0) cfgs) c \<and> net_sim False V owner c N"
  using net_sim_run [OF assms, of within_limits hos clks rnds rdys N True]
    net_sim_run [OF assms, of counters_fit hos clks rnds rdys N False]
  by (simp_all add: within_limits_def follows_def)

subsection \<open>Properties\<close>

text \<open>A cluster mirrors a network: its engines are those of the behaviours, and what they have reported as committed was applied.\<close>

definition mirrors :: "NodeId set \<Rightarrow> ('p, 'a) Cluster \<Rightarrow> ('p, 'a, 'c) Network \<Rightarrow> bool" where
  "mirrors V c N \<longleftrightarrow> (\<forall>n \<in> V. nodes c n = engine (net_nodes N n)) \<and>
     (\<forall>n es. (n, GenerateEvent (Committed es)) \<in> returned N \<longrightarrow> (n, Apply es) \<in> history c)"

lemma net_sim_mirrors: "net_sim fr V owner c N \<Longrightarrow> mirrors V c N"
  unfolding mirrors_def using net_simD(1,7) by fastforce

text \<open>
  C4: A network of complete behaviours, whose configured seeds name the nodes that hold the keys, refines the cluster of
  engines. Every run in which no 64-bit counter wraps, whatever is pending when a node becomes leader, is mirrored by a
  run of the cluster: its engines are those of the behaviours, and every batch of entries a behaviour has reported as
  committed was applied there. If besides no AppendEntries of an earlier leadership is pending whenever a node
  becomes leader, it is mirrored by a run in which every success is credited with no more than its sender stores.
\<close>

theorem network_refines_cluster:
  assumes "\<forall>n \<in> V. honest_seeds owner (cfgs n)"
  shows "(net_reachable counters_fit V owner (net_init hos clks rnds rdys cfgs) N \<longrightarrow>
      (\<exists>c. roomy_reachable V (cluster_init hos (\<lambda>n. clks n 0) cfgs) c \<and> mirrors V c N)) \<and>
    (net_reachable within_limits V owner (net_init hos clks rnds rdys cfgs) N \<longrightarrow>
      (\<exists>c. credited_reachable V (cluster_init hos (\<lambda>n. clks n 0) cfgs) c \<and> mirrors V c N))"
  using net_sim_reachable [OF assms] net_sim_mirrors by blast

text \<open>What two nodes have reported agrees.\<close>

lemma reported_agree:
  assumes "deployment V hos cfgs" "\<forall>n \<in> V. honest_seeds owner (cfgs n)"
    and "net_reachable within_limits V owner (net_init hos clks rnds rdys cfgs) N"
    and "(m, GenerateEvent (Committed es)) \<in> returned N" "x \<in> set es"
    and "(n, GenerateEvent (Committed es')) \<in> returned N" "y \<in> set es'" "le_index x = le_index y"
  shows "x = y"
proof -
  obtain c where c: "credited_reachable V (cluster_init hos (\<lambda>n. clks n 0) cfgs) c" "net_sim True V owner c N"
    using net_sim_reachable(1) [OF assms(2,3)] by blast
  obtain tlog where inv: "full_inv V tlog c" using full_inv_reachable [OF assms(1) c(1)] by blast
  have "(m, Apply es) \<in> history c" "(n, Apply es') \<in> history c"
    using net_simD(7) [OF c(2) assms(4)] net_simD(7) [OF c(2) assms(6)] by simp_all
  then show ?thesis using applied_agree [OF inv _ assms(5) _ assms(7,8)] by blast
qed

text \<open>
  C3: What the applications see agrees: whatever the network delays, reorders, duplicates or loses, whichever
  requests fail and whichever nodes are elected, two entries with the same index in the \<open>Committed\<close> events of any
  two nodes are the same entry, if the seeds are honest, no counter wraps and no AppendEntries of an earlier leadership
  is pending whenever a node becomes leader.
\<close>

theorem applications_agree:
  assumes "deployment V hos cfgs" "\<forall>n \<in> V. honest_seeds owner (cfgs n)"
    and "net_reachable within_limits V owner (net_init hos clks rnds rdys cfgs) N"
    and "(m, GenerateEvent (Committed es)) \<in> returned N" "x \<in> set es"
    and "(n, GenerateEvent (Committed es')) \<in> returned N" "y \<in> set es'" "le_index x = le_index y"
  shows "x = y"
  using assms by (rule reported_agree)

text \<open>What holds of the nodes in every run, whatever is pending when a node becomes leader.\<close>

lemma net_cluster_inv:
  assumes "deployment V hos cfgs" "\<forall>n \<in> V. honest_seeds owner (cfgs n)"
    and "net_reachable counters_fit V owner (net_init hos clks rnds rdys cfgs) N"
  obtains c tlog where "election_inv V c" "log_inv V tlog c" "\<forall>n \<in> V. nodes c n = engine (net_nodes N n)"
proof -
  obtain c where c: "roomy_reachable V (cluster_init hos (\<lambda>n. clks n 0) cfgs) c" "net_sim False V owner c N"
    using net_sim_reachable(2) [OF assms(2,3)] by blast
  with roomy_inv [OF assms(1) c(1)] net_simD(1) [OF c(2)] show thesis using that by blast
qed

lemma net_leaders_unique:
  assumes "deployment V hos cfgs" "\<forall>n \<in> V. honest_seeds owner (cfgs n)"
    and "net_reachable counters_fit V owner (net_init hos clks rnds rdys cfgs) N" "m \<in> V" "n \<in> V"
    and "role (engine (net_nodes N m)) = Leader" "role (engine (net_nodes N n)) = Leader"
    and "engine_current_term (engine (net_nodes N m)) = engine_current_term (engine (net_nodes N n))"
  shows "m = n"
proof -
  obtain c tlog where c: "election_inv V c" "\<forall>n \<in> V. nodes c n = engine (net_nodes N n)"
    using net_cluster_inv [OF assms(1-3)] by metis
  have "(k, BecomeLeader (engine_current_term (engine (net_nodes N k)))) \<in> history c"
    if "k \<in> V" "role (engine (net_nodes N k)) = Leader" for k
    using c that unfolding election_inv_def elections_ok_def by metis
  then show ?thesis using elected_unique [OF c(1)] assms(4-8) by metis
qed

lemma net_logs_match:
  assumes "deployment V hos cfgs" "\<forall>n \<in> V. honest_seeds owner (cfgs n)"
    and "net_reachable counters_fit V owner (net_init hos clks rnds rdys cfgs) N" "m \<in> V" "n \<in> V"
    and "entry (storage (engine (net_nodes N m))) i = Some x" "entry (storage (engine (net_nodes N n))) i = Some y"
    and "le_term x = le_term y" "j \<le> i"
  shows "entry (storage (engine (net_nodes N m))) j = entry (storage (engine (net_nodes N n))) j"
proof -
  obtain c tlog where c: "log_inv V tlog c" "\<forall>n \<in> V. nodes c n = engine (net_nodes N n)"
    using net_cluster_inv [OF assms(1-3)] by metis
  then show ?thesis using log_inv_matching [OF c(1) assms(4,5), of i x y j] assms(4-9) by simp
qed

text \<open>
  C16: The data of every node stays well formed in every run of the network (with honest seeds) in which no 64-bit counter
  wraps: its identity and voters are those of the deployment and its log is numbered from 1. If besides no AppendEntries
  of an earlier leadership is pending whenever a node becomes leader, what it has applied is what it has
  committed and lies within its log, and a node that leads names itself as the leader.
\<close>

theorem network_well_formed:
  assumes "deployment V hos cfgs" "\<forall>n \<in> V. honest_seeds owner (cfgs n)" "n \<in> V"
    and "net_reachable counters_fit V owner (net_init hos clks rnds rdys cfgs) N"
  shows "let e = engine (net_nodes N n) in
    cfg_node_id (config e) = n \<and> distinct (voters (membership e)) \<and> set (voters (membership e)) = V \<and>
    (\<forall>k < length (ms_entries (storage e)). unat (le_index (ms_entries (storage e) ! k)) = Suc k) \<and>
    (net_reachable within_limits V owner (net_init hos clks rnds rdys cfgs) N \<longrightarrow>
      last_applied e = commit_index e \<and> unat (commit_index e) \<le> length (ms_entries (storage e)) \<and>
      (role e = Leader \<longrightarrow> leader e = Some n))"
proof -
  let ?e = "engine (net_nodes N n)"
  obtain c tlog where c: "election_inv V c" "log_inv V tlog c" "\<forall>n \<in> V. nodes c n = engine (net_nodes N n)"
    using net_cluster_inv [OF assms(1,2,4)] by blast
  have e: "nodes c n = ?e" using c(3) assms(3) by blast
  have id: "cfg_node_id (config ?e) = n" and v: "distinct (voters (membership ?e))" "set (voters (membership ?e)) = V"
    using c(1) assms(3) unfolding e [symmetric] by (auto simp: election_inv_def static_ok_def)
  have l: "\<forall>k < length (ms_entries (storage ?e)). unat (le_index (ms_entries (storage ?e) ! k)) = Suc k"
    using numbered_nth [OF log_invD(3) [OF c(2) assms(3)]] by (simp add: e)
  have inv: "engine_inv ?e" if w: "net_reachable within_limits V owner (net_init hos clks rnds rdys cfgs) N"
  proof -
    obtain c' where c': "credited_reachable V (cluster_init hos (\<lambda>n. clks n 0) cfgs) c'" "net_sim True V owner c' N"
      using net_sim_reachable(1) [OF assms(2) w] by blast
    obtain tlog' where full: "full_inv V tlog' c'" using full_inv_reachable [OF assms(1) c'(1)] by blast
    from commit_invD(1) [OF full_invD(5) [OF full] assms(3)] show ?thesis
      by (simp add: net_simD(1) [OF c'(2) assms(3)])
  qed
  from id v l inv show ?thesis unfolding Let_def by (simp add: engine_inv_def)
qed

text \<open>A run as a function of a schedule.\<close>

fun net_run ::
  "('p, 'a, 'c) Limit \<Rightarrow> NodeId set \<Rightarrow> ('p \<Rightarrow> NodeId) \<Rightarrow> (u64 set \<Rightarrow> u64 list) \<Rightarrow> ('p, 'a, 'c) Network \<Rightarrow>
    (NodeId \<times> ('p, 'c) BehaviourInput) list \<Rightarrow> ('p, 'a, 'c) Network option" where
  "net_run lim V owner ho N [] = Some N"
| "net_run lim V owner ho N ((n, i) # sched) =
     (if n \<in> V \<and> delivered owner N n i \<and> lim ho (net_nodes N n) i
      then net_run lim V owner ho (net_apply ho N n i) sched else None)"

lemma net_run_reachable:
  "hash_order ho \<Longrightarrow> net_reachable lim V owner N0 N \<Longrightarrow> net_run lim V owner ho N sched = Some N' \<Longrightarrow> net_reachable lim V owner N0 N'"
proof (induction sched arbitrary: N)
  case (Cons a sched)
  obtain n i where a: "a = (n, i)" by (cases a)
  with Cons.prems(3) have ok: "n \<in> V" "delivered owner N n i" "lim ho (net_nodes N n) i"
    and r: "net_run lim V owner ho (net_apply ho N n i) sched = Some N'"
    by (auto split: if_splits)
  show ?case by (rule Cons.IH [OF Cons.prems(1) net_reachable.step [OF Cons.prems(2) ok(1) Cons.prems(1) ok(2,3)] r])
qed simp

text \<open>
  Two nodes: node 1 is elected, takes a proposal, replicates it to node 2, commits it, and tells node 2 with the next
  heartbeat; both report it.
\<close>

definition duo_owner :: "nat \<Rightarrow> NodeId" where
  "duo_owner p = of_nat (p - 100)"

definition duo_config :: "NodeId \<Rightarrow> (nat, nat) RaftConfig" where
  "duo_config n = demo_node_config\<lparr>cfg_node_id := n, cfg_voters := [1, 2], cfg_heartbeat_interval := 0,
     cfg_seed_peers := (if n = 1 then [demo_seed 2] else [demo_seed 1]), cfg_election_timeout := (if n = 1 then 0 else 50)\<rparr>"

definition duo_init :: "(nat, nat, nat) Network" where
  "duo_init = net_init (\<lambda>_. sorted_list_of_set) (\<lambda>_ _. 0) (\<lambda>_ _. 0) (\<lambda>_ _. False) duo_config"

abbreviation duo_entry :: LogEntry where
  "duo_entry \<equiv> \<lparr>le_index = 1, le_term = 1, entry_type = Command [5]\<rparr>"

definition duo_election :: "(NodeId \<times> (nat, nat) BehaviourInput) list" where
  "duo_election =
     [(1, SwarmEvent (ConnectionEstablished 102 7)), (1, PollPass), (1, PollPass), (1, PollPass),
      (2, HandlerEvent 101 7 (Request 1 (RequestVote 1 1 0 0) 1)), (2, PollPass), (2, PollPass), (2, PollPass),
      (1, HandlerEvent 102 7 (Response 1 (RequestVoteResp 1 True)))]"

definition duo_replication :: "(NodeId \<times> (nat, nat) BehaviourInput) list" where
  "duo_replication =
     [(1, Propose [5]), (1, PollPass), (1, PollPass),
      (2, HandlerEvent 101 7 (Request 2 (AppendEntries 1 1 0 0 [duo_entry] 0) 2)), (2, PollPass),
      (1, HandlerEvent 102 7 (Response 2 (AppendEntriesResp 1 True 1))), (1, PollPass), (1, PollPass),
      (2, HandlerEvent 101 7 (Request 3 (AppendEntries 1 1 1 1 [] 1) 3)), (2, PollPass)]"

lemmas duo_eval = behaviour_eval duo_owner_def duo_config_def duo_init_def net_init_def net_apply_def
  demo_node_config_def demo_seed_def within_limits_def counters_fit_def fresh_leader_def fits_u64_def

abbreviation duo_schedule :: "(NodeId \<times> (nat, nat) BehaviourInput) list" where
  "duo_schedule \<equiv> duo_election @ duo_replication"

lemma duo_outcome:
  "case net_run within_limits {1, 2} duo_owner sorted_list_of_set duo_init duo_schedule of
    None \<Rightarrow> False
  | Some N \<Rightarrow> (1, GenerateEvent (Committed [duo_entry])) \<in> returned N \<and> (2, GenerateEvent (Committed [duo_entry])) \<in> returned N"
  by (simp add: duo_eval duo_election_def duo_replication_def cong: let_weak_cong)

lemma duo_ready:
  "deployment {1, 2} (\<lambda>_. sorted_list_of_set) duo_config" "\<forall>n \<in> {1, 2}. honest_seeds duo_owner (duo_config n)"
  by (auto simp: deployment_def duo_config_def hash_order_sorted honest_seeds_def demo_seed_def duo_owner_def)

lemma duo_reached:
  obtains N where "net_run within_limits {1, 2} duo_owner sorted_list_of_set duo_init duo_schedule = Some N"
    "net_reachable within_limits {1, 2} duo_owner (net_init (\<lambda>_. sorted_list_of_set) (\<lambda>_ _. 0) (\<lambda>_ _. 0) (\<lambda>_ _. False) duo_config) N"
    "(1, GenerateEvent (Committed [duo_entry])) \<in> returned N" "(2, GenerateEvent (Committed [duo_entry])) \<in> returned N"
proof -
  obtain N where N: "net_run within_limits {1, 2} duo_owner sorted_list_of_set duo_init duo_schedule = Some N"
      "(1, GenerateEvent (Committed [duo_entry])) \<in> returned N" "(2, GenerateEvent (Committed [duo_entry])) \<in> returned N"
    using duo_outcome by (auto split: option.splits)
  have "net_reachable within_limits {1, 2} duo_owner duo_init N"
    by (rule net_run_reachable [OF hash_order_sorted net_reachable.start N(1)])
  with N show thesis by (intro that) (simp_all add: duo_init_def)
qed

theorem network_refines_cluster_witness:
  "\<exists>N c. net_run within_limits {1, 2} duo_owner sorted_list_of_set duo_init duo_schedule = Some N \<and>
     credited_reachable {1, 2} (cluster_init (\<lambda>_. sorted_list_of_set) (\<lambda>_. 0) duo_config) c \<and>
     nodes c 2 = engine (net_nodes N 2) \<and> (1, Apply [duo_entry]) \<in> history c \<and> (2, Apply [duo_entry]) \<in> history c"
proof -
  obtain N where N: "net_run within_limits {1, 2} duo_owner sorted_list_of_set duo_init duo_schedule = Some N"
    "net_reachable within_limits {1, 2} duo_owner (net_init (\<lambda>_. sorted_list_of_set) (\<lambda>_ _. 0) (\<lambda>_ _. 0) (\<lambda>_ _. False) duo_config) N"
    "(1, GenerateEvent (Committed [duo_entry])) \<in> returned N" "(2, GenerateEvent (Committed [duo_entry])) \<in> returned N"
    by (rule duo_reached)
  from network_refines_cluster [OF duo_ready(2)] N obtain c where
    "credited_reachable {1, 2} (cluster_init (\<lambda>_. sorted_list_of_set) (\<lambda>_. 0) duo_config) c" "mirrors {1, 2} c N"
    by blast
  with N(1,3,4) show ?thesis unfolding mirrors_def by blast
qed

theorem applications_agree_witness:
  "\<exists>N. net_run within_limits {1, 2} duo_owner sorted_list_of_set duo_init duo_schedule = Some N \<and>
     (1, GenerateEvent (Committed [duo_entry])) \<in> returned N \<and>
     (\<forall>es' y. (2, GenerateEvent (Committed es')) \<in> returned N \<and> y \<in> set es' \<and> le_index y = 1 \<longrightarrow> y = duo_entry)"
proof -
  obtain N where N: "net_run within_limits {1, 2} duo_owner sorted_list_of_set duo_init duo_schedule = Some N"
    "net_reachable within_limits {1, 2} duo_owner (net_init (\<lambda>_. sorted_list_of_set) (\<lambda>_ _. 0) (\<lambda>_ _. 0) (\<lambda>_ _. False) duo_config) N"
    "(1, GenerateEvent (Committed [duo_entry])) \<in> returned N"
    by (rule duo_reached)
  have "y = duo_entry" if "(2, GenerateEvent (Committed es')) \<in> returned N" "y \<in> set es'" "le_index y = 1" for es' y
    by (rule applications_agree [OF duo_ready N(2) that(1,2) N(3)]) (simp_all add: that(3))
  with N show ?thesis by blast
qed

theorem network_well_formed_witness:
  "\<exists>N. net_run within_limits {1, 2} duo_owner sorted_list_of_set duo_init duo_schedule = Some N \<and>
     set (voters (membership (engine (net_nodes N 2)))) = {1, 2} \<and>
     last_applied (engine (net_nodes N 2)) = commit_index (engine (net_nodes N 2))"
proof -
  obtain N where N: "net_run within_limits {1, 2} duo_owner sorted_list_of_set duo_init duo_schedule = Some N"
    "net_reachable within_limits {1, 2} duo_owner (net_init (\<lambda>_. sorted_list_of_set) (\<lambda>_ _. 0) (\<lambda>_ _. 0) (\<lambda>_ _. False) duo_config) N"
    by (rule duo_reached)
  from network_well_formed [OF duo_ready _ within_limits_fit [OF N(2)], of 2] N show ?thesis by (auto simp: Let_def)
qed

end
