(* ===== verification/StaleAnswer.thy ===== *)
theory StaleAnswer
  imports Network
begin

text \<open>
  What goes wrong when an AppendEntries of an earlier leadership is still pending as a node becomes leader again.

  The engine keeps one record per peer, \<open>last_ae\<close>, of the request sent last, and credits every answer to it; the
  correlation id, which the behaviour has, is not passed on. A leader that steps down and is elected again within
  the RPC timeout still has a request of its old term pending. The rejection of that request carries the new
  term, so it counts as the answer to the request in flight, clears the mark and sends another request; two are now
  in flight, and the success of the first is credited to the second, which may carry entries the first did not.
  In a run of the network of three complete behaviours an entry is committed in this way that only the leader holds,
  and another node commits a different entry at its index. So the condition \<open>within_limits\<close> of the agreement
  theorems cannot be weakened to \<open>counters_fit\<close>.
\<close>

subsection \<open>The cause\<close>


subsection \<open>A run\<close>

text \<open>Three nodes whose elections and heartbeats are due at every poll that has nothing else to return.\<close>

definition trio_config :: "NodeId \<Rightarrow> (nat, nat) RaftConfig" where
  "trio_config n = demo_node_config\<lparr>cfg_node_id := n, cfg_voters := [1, 2, 3], cfg_heartbeat_interval := 0,
     cfg_seed_peers := map demo_seed (filter (\<lambda>m. m \<noteq> n) [1, 2, 3]), cfg_election_timeout := 0\<rparr>"

definition trio_init :: "(nat, nat, nat) Network" where
  "trio_init = net_init (\<lambda>_. sorted_list_of_set) (\<lambda>_ _. 0) (\<lambda>_ _. 0) (\<lambda>_ _. False) trio_config"

abbreviation entry_y :: LogEntry where
  "entry_y \<equiv> \<lparr>le_index = 1, le_term = 3, entry_type = Command [5]\<rparr>"

abbreviation entry_z :: LogEntry where
  "entry_z \<equiv> \<lparr>le_index = 1, le_term = 4, entry_type = Command [6]\<rparr>"

text \<open>Some polls of a node; the arrival of a request or an answer at it.\<close>

definition polls :: "NodeId \<Rightarrow> nat \<Rightarrow> (NodeId \<times> (nat, nat) BehaviourInput) list" where
  "polls n k = replicate k (n, PollPass)"

abbreviation link :: "NodeId \<Rightarrow> nat \<Rightarrow> NodeId \<times> (nat, nat) BehaviourInput" where
  "link n p \<equiv> (n, SwarmEvent (ConnectionEstablished p 7))"

abbreviation gets :: "NodeId \<Rightarrow> nat \<Rightarrow> u64 \<Rightarrow> RaftMessage \<Rightarrow> u64 \<Rightarrow> NodeId \<times> (nat, nat) BehaviourInput" where
  "gets n p cid msg ch \<equiv> (n, HandlerEvent p 7 (Request cid msg ch))"

abbreviation hears :: "NodeId \<Rightarrow> nat \<Rightarrow> u64 \<Rightarrow> RaftMessage \<Rightarrow> NodeId \<times> (nat, nat) BehaviourInput" where
  "hears n p cid msg \<equiv> (n, HandlerEvent p 7 (Response cid msg))"

text \<open>
  Node 3 stands in the terms 1 and 2; node 1 is elected in term 1 and sends node 2 a heartbeat (its request 3), which is
  slow; node 3's request for a vote in term 2 reaches node 1, which is elected again in term 3, sends request 7 and
  takes a proposal. The stale request 3 reaches node 2 and is rejected, request 7 is accepted; the rejection arrives.
\<close>

definition trio_crossing :: "(NodeId \<times> (nat, nat) BehaviourInput) list" where
  "trio_crossing =
     [link 3 101, link 3 102] @ polls 3 7 @
     [link 1 102, link 1 103] @ polls 1 4 @
     [link 2 101, link 2 103, gets 2 101 1 (RequestVote 1 1 0 0) 1] @ polls 2 4 @
     [hears 1 102 1 (RequestVoteResp 1 True)] @ polls 1 3 @
     [gets 1 103 3 (RequestVote 2 3 0 0) 1] @ polls 1 5 @
     [gets 2 101 5 (RequestVote 3 1 0 0) 2] @ polls 2 2 @
     [hears 1 102 5 (RequestVoteResp 3 True)] @ polls 1 3 @ [(1, Propose [5])] @
     [gets 2 101 3 (AppendEntries 1 1 0 0 [] 0) 3] @ polls 2 1 @
     [gets 2 101 7 (AppendEntries 3 1 0 0 [] 0) 4] @ polls 2 1 @
     [hears 1 102 3 (AppendEntriesResp 3 False 0)]"

text \<open>
  The success of request 7 arrives and node 1 commits. Node 2, whose log is empty, is elected in term 4 by node 3, takes a
  proposal, replicates it to node 3 and commits it.
\<close>

definition trio_takeover :: "(NodeId \<times> (nat, nat) BehaviourInput) list" where
  "trio_takeover =
     [hears 1 102 7 (AppendEntriesResp 3 True 0)] @ polls 1 3 @
     polls 2 3 @ [gets 3 102 2 (RequestVote 4 2 0 0) 1] @ polls 3 3 @
     [hears 2 103 2 (RequestVoteResp 4 True)] @ polls 2 3 @ [(2, Propose [6])] @
     [gets 3 102 4 (AppendEntries 4 2 0 0 [] 0) 2] @ polls 3 1 @ [hears 2 103 4 (AppendEntriesResp 4 True 0)] @ polls 2 1 @
     [gets 3 102 5 (AppendEntries 4 2 0 0 [entry_z] 0) 3] @ polls 3 1 @ [hears 2 103 5 (AppendEntriesResp 4 True 1)] @ polls 2 1"

lemma polls_unfold:
  "polls n (Suc 0) = [(n, PollPass)]" "polls n 2 = [(n, PollPass), (n, PollPass)]"
  "polls n 3 = [(n, PollPass), (n, PollPass), (n, PollPass)]"
  "polls n 4 = [(n, PollPass), (n, PollPass), (n, PollPass), (n, PollPass)]"
  "polls n 5 = [(n, PollPass), (n, PollPass), (n, PollPass), (n, PollPass), (n, PollPass)]"
  "polls n 7 = [(n, PollPass), (n, PollPass), (n, PollPass), (n, PollPass), (n, PollPass), (n, PollPass), (n, PollPass)]"
  by (simp_all add: polls_def eval_nat_numeral)

lemmas trio_eval = polls_unfold behaviour_eval duo_owner_def trio_config_def trio_init_def net_init_def net_apply_def
  demo_node_config_def demo_seed_def counters_fit_def fits_u64_def

lemma trio_run:
  "case net_run counters_fit {1, 2, 3} duo_owner sorted_list_of_set trio_init trio_crossing of
    None \<Rightarrow> False
  | Some N \<Rightarrow> role (engine (net_nodes N 1)) = Leader \<and> engine_current_term (engine (net_nodes N 1)) = 3 \<and>
      last_ae (engine (net_nodes N 1)) 2 = Some (0, 1) \<and> ids_ok (net_nodes N 1) (Suc (other_count (net_nodes N 1))) \<and>
      map_of (pending (net_nodes N 1)) 7 = Some \<lparr>pr_correlation_id = 7, pr_to = 2, pr_peer = 102, pr_kind = KAppendEntries,
        pr_sent_at = 0, pr_msg = AppendEntries 3 1 0 0 [] 0\<rparr> \<and>
      (2, NotifyHandler 101 (One 7) (SendResponse 4 7 (AppendEntriesResp 3 True 0))) \<in> returned N \<and>
      ms_entries (storage (engine (net_nodes N 2))) = [] \<and>
      (case net_run counters_fit {1, 2, 3} duo_owner sorted_list_of_set N trio_takeover of
        None \<Rightarrow> False
      | Some N' \<Rightarrow> (1, GenerateEvent (Committed [entry_y])) \<in> returned N' \<and>
          (2, GenerateEvent (Committed [entry_z])) \<in> returned N')"
  by (simp add: trio_eval trio_crossing_def trio_takeover_def ids_ok_def cong: let_weak_cong)


lemma trio_ready:
  "deployment {1, 2, 3} (\<lambda>_. sorted_list_of_set) trio_config" "\<forall>n \<in> {1, 2, 3}. honest_seeds duo_owner (trio_config n)"
  by (auto simp: deployment_def trio_config_def hash_order_sorted honest_seeds_def demo_seed_def duo_owner_def)

lemma net_run_append:
  "net_run lim V owner ho N (xs @ ys) = Option.bind (net_run lim V owner ho N xs) (\<lambda>N. net_run lim V owner ho N ys)"
  by (induction xs arbitrary: N) auto

text \<open>
  Committed entries can be lost: in this run of the network, with honest seeds and without a counter wrapping, two nodes report
  different entries for index 1 as committed. The agreement theorems do need \<open>within_limits\<close>.
\<close>

lemma committed_entry_lost:
  "\<exists>N :: (nat, nat, nat) Network. net_reachable counters_fit {1, 2, 3} duo_owner
      (net_init (\<lambda>_. sorted_list_of_set) (\<lambda>_ _. 0) (\<lambda>_ _. 0) (\<lambda>_ _. False) trio_config) N \<and>
    (1, GenerateEvent (Committed [entry_y])) \<in> returned N \<and> (2, GenerateEvent (Committed [entry_z])) \<in> returned N \<and>
    le_index entry_y = le_index entry_z \<and> entry_y \<noteq> entry_z"
proof -
  let ?run = "net_run counters_fit {1, 2, 3} duo_owner sorted_list_of_set"
  obtain N where N: "?run trio_init trio_crossing = Some N"
    using trio_run by (auto split: option.splits)
  note f = trio_run [unfolded N option.case]
  then obtain N' where N': "?run N trio_takeover = Some N'" "(1, GenerateEvent (Committed [entry_y])) \<in> returned N'"
      "(2, GenerateEvent (Committed [entry_z])) \<in> returned N'"
    by (auto split: option.splits)
  have "?run trio_init (trio_crossing @ trio_takeover) = Some N'" by (simp add: net_run_append N N'(1))
  then have "net_reachable counters_fit {1, 2, 3} duo_owner trio_init N'"
    by (rule net_run_reachable [OF hash_order_sorted net_reachable.start])
  with N'(2,3) show ?thesis by (intro exI [of _ N']) (simp add: trio_init_def)
qed

end
