(* ===== verification/BehaviourPoll.thy ===== *)
theory BehaviourPoll
  imports BehaviourProps
begin

text \<open>
  How \<open>poll\<close> and its timer behave: when the loop returns, when the timer is armed for, how long a peer
  is left alone after a failed dial.
\<close>

subsection \<open>The loop returns\<close>

lemma expire_frame [simp]:
  "sleep_ready (fold (\<lambda>id b. fail_pending b id err emit) ids b) = sleep_ready b"
  "readings (fold (\<lambda>id b. fail_pending b id err emit) ids b) = readings b"
  by (induction ids arbitrary: b) simp_all

lemma poll_pass_again:
  assumes "poll_pass ho b = (b', PollAgain)"
  shows "\<exists>i. readings b < Suc i \<and> i < readings b' \<and> sleep_ready b i" and "sleep_ready b' = sleep_ready b"
proof -
  have sleep: "readings x \<le> i \<and> i < readings y \<and> sleep_ready x i \<and> sleep_ready y = sleep_ready x"
    if "poll_sleep x = (y, PollAgain)" "i = readings x" for x y :: "('a, 'b, 'c) RaftBehaviour" and i
    using that by (auto simp: poll_sleep_def Let_def split: if_splits)
  have tick: "readings x \<le> readings (tick_if_due x now)" "sleep_ready (tick_if_due x now) = sleep_ready x"
    for x :: "('a, 'b, 'c) RaftBehaviour" and now
    using execute_actions_readings [of "x\<lparr>engine := fst (tick (engine x) now)\<rparr>"]
    by (simp_all add: tick_if_due_def Let_def case_prod_unfold le_SucI)
  let ?b2 = "expire_pending ho (b\<lparr>readings := Suc (readings b)\<rparr>) (clock b (readings b))"
  have b2: "readings ?b2 = Suc (readings b)" "sleep_ready ?b2 = sleep_ready b" by (simp_all add: expire_pending_def)
  from assms have "poll_sleep ?b2 = (b', PollAgain) \<or> (\<exists>now. poll_sleep (tick_if_due ?b2 now) = (b', PollAgain))"
    by (auto simp: poll_pass_def Let_def case_prod_unfold split: option.splits if_splits)
  then have "(\<exists>i. readings b < Suc i \<and> i < readings b' \<and> sleep_ready b i) \<and> sleep_ready b' = sleep_ready b"
  proof (elim disjE exE)
    assume "poll_sleep ?b2 = (b', PollAgain)"
    from sleep [OF this refl] b2 show ?thesis by (intro conjI exI [of _ "readings ?b2"]) simp_all
  next
    fix now assume "poll_sleep (tick_if_due ?b2 now) = (b', PollAgain)"
    from sleep [OF this refl] b2 tick [of ?b2 now] show ?thesis
      by (intro conjI exI [of _ "readings (tick_if_due ?b2 now)"]) simp_all
  qed
  then show "\<exists>i. readings b < Suc i \<and> i < readings b' \<and> sleep_ready b i" "sleep_ready b' = sleep_ready b"
    by blast+
qed

lemma poll_loop_returns:
  "\<forall>i \<ge> N. \<not> sleep_ready b i \<Longrightarrow> N - readings b < fuel \<Longrightarrow> \<exists>r. poll_loop ho fuel b = Some r"
proof (induction fuel arbitrary: b)
  case (Suc fuel)
  obtain b' r where p: "poll_pass ho b = (b', r)" by fastforce
  show ?case
  proof (cases r)
    case PollAgain
    with p have again: "poll_pass ho b = (b', PollAgain)" by simp
    then obtain i where i: "readings b \<le> i" "i < readings b'" "sleep_ready b i"
      using poll_pass_again(1) by (metis less_Suc_eq_le)
    then have "i < N" using Suc.prems(1) by (metis not_le)
    then have "N - readings b' < fuel" using Suc.prems(2) i(1,2) by linarith
    with Suc.IH [of b'] Suc.prems(1) poll_pass_again(2) [OF again] p PollAgain show ?thesis by simp
  qed (use p in simp_all)
qed simp

text \<open>
  C24: \<open>poll\<close> returns: each round of its loop that does not return has found the sleep ready, so if the
  sleep is not ready from some reading on, the loop ends, and one more round than the readings up to
  there is enough.
\<close>

theorem poll_returns:
  assumes "\<And>i. N \<le> i \<Longrightarrow> \<not> sleep_ready b i"
  shows "\<exists>b' r. behaviour_poll ho (Suc (N - readings b)) b = Some (b', r)"
  using poll_loop_returns [of N "b\<lparr>waker := True\<rparr>" "Suc (N - readings b)" ho] assms
  by (simp add: behaviour_poll_def)

theorem poll_returns_witness:
  "\<exists>b' r. behaviour_poll sorted_list_of_set 1 demo_linked = Some (b', r)"
proof -
  have "sleep_ready demo_linked i = False" for i
    by (simp add: demo_linked_def demo_node_def RaftBehaviour_new_def Let_def)
  then show ?thesis using poll_returns [of 0 demo_linked sorted_list_of_set] by simp
qed

subsection \<open>The timer\<close>

lemma wake_fold:
  fixes ps :: "(u64 \<times> 'p PendingRequest) list"
  defines "f \<equiv> \<lambda>c. fold (\<lambda>(id, p) wake. let t = pr_sent_at p + c in if t < wake then t else wake)"
  shows "f c ps w \<le> w" and "(cid, p) \<in> set ps \<Longrightarrow> f c ps w \<le> pr_sent_at p + c"
    and "f c ps w = w \<or> (\<exists>(cid, p) \<in> set ps. f c ps w = pr_sent_at p + c)"
proof -
  have step: "f c ((i, q) # ps) w = f c ps (min (pr_sent_at q + c) w)" for i q ps w
    by (simp add: f_def Let_def min_def)
  show le: "f c ps w \<le> w" for ps w
  proof (induction ps arbitrary: w)
    case (Cons x ps)
    obtain i q where x: "x = (i, q)" by (cases x)
    show ?case using Cons.IH [of "min (pr_sent_at q + c) w"] by (simp add: x step)
  qed (simp add: f_def)
  show "f c ps w \<le> pr_sent_at p + c" if "(cid, p) \<in> set ps"
    using that
  proof (induction ps arbitrary: w)
    case (Cons x ps)
    obtain i q where x: "x = (i, q)" by (cases x)
    show ?case using Cons le [of ps "min (pr_sent_at q + c) w"] by (auto simp: x step)
  qed simp
  show "f c ps w = w \<or> (\<exists>(cid, p) \<in> set ps. f c ps w = pr_sent_at p + c)"
  proof (induction ps arbitrary: w)
    case (Cons x ps)
    obtain i q where x: "x = (i, q)" by (cases x)
    show ?case using Cons.IH [of "min (pr_sent_at q + c) w"] by (auto simp: x step min_def)
  qed (simp add: f_def)
qed

text \<open>
  The timer is armed for the right moment: \<open>earliest_wake\<close> is the earliest of the engine's next
  deadline and the timeouts of all pending requests, so no timeout and no tick is slept through.
\<close>

lemma earliest_wake_is_least:
  "earliest_wake b \<le> next_deadline (engine b) \<and>
    (\<forall>(cid, p) \<in> set (pending b). earliest_wake b \<le> pr_sent_at p + cfg_rpc_timeout (b_config b)) \<and>
    (earliest_wake b = next_deadline (engine b) \<or>
     (\<exists>(cid, p) \<in> set (pending b). earliest_wake b = pr_sent_at p + cfg_rpc_timeout (b_config b)))"
  unfolding earliest_wake_def
  using wake_fold [where c = "cfg_rpc_timeout (b_config b)" and ps = "pending b" and w = "next_deadline (engine b)"]
  by auto

lemma earliest_wake_is_least_witness:
  "earliest_wake (send_rpc demo_linked 2 (RequestVote 1 1 0 0)) \<le> 12"
proof -
  let ?b = "send_rpc demo_linked 2 (RequestVote 1 1 0 0)"
  let ?p = "\<lparr>pr_correlation_id = 1, pr_to = 2, pr_peer = 102, pr_kind = KRequestVote, pr_sent_at = 2,
    pr_msg = RequestVote 1 1 0 0\<rparr>"
  have "pending ?b = [(1, ?p)]" "cfg_rpc_timeout (b_config ?b) = 10" by (simp_all add: demo_eval cong: let_weak_cong)
  then show ?thesis using earliest_wake_is_least [of ?b] by simp
qed

text \<open>What the expiry of requests leaves alone: it queues nothing and only clears marks of the engine.\<close>

lemma fail_silent:
  "pending_events (fail_pending b i err False) = pending_events b"
  "role (engine (fail_pending b i err False)) = role (engine b)"
  "election_deadline (engine (fail_pending b i err False)) = election_deadline (engine b)"
  "heartbeat_deadline (engine (fail_pending b i err False)) = heartbeat_deadline (engine b)"
  by (simp_all add: fail_pending_def handle_rpc_failure_def Let_def split: option.split)

lemma fail_all_silent:
  "pending_events (fold (\<lambda>id b. fail_pending b id err False) ids b) = pending_events b"
  "role (engine (fold (\<lambda>id b. fail_pending b id err False) ids b)) = role (engine b)"
  "election_deadline (engine (fold (\<lambda>id b. fail_pending b id err False) ids b)) = election_deadline (engine b)"
  "heartbeat_deadline (engine (fold (\<lambda>id b. fail_pending b id err False) ids b)) = heartbeat_deadline (engine b)"
  "clock (fold (\<lambda>id b. fail_pending b id err False) ids b) = clock b"
  by (induction ids arbitrary: b) (simp_all add: fail_silent)

lemma expire_silent:
  "pending_events (expire_pending ho b now) = pending_events b" "role (engine (expire_pending ho b now)) = role (engine b)"
  "election_deadline (engine (expire_pending ho b now)) = election_deadline (engine b)"
  "heartbeat_deadline (engine (expire_pending ho b now)) = heartbeat_deadline (engine b)"
  "clock (expire_pending ho b now) = clock b" "sleep_ready (expire_pending ho b now) = sleep_ready b"
  "readings (expire_pending ho b now) = readings b"
  by (simp_all add: expire_pending_def fail_all_silent)

text \<open>
  C33: A leader whose election deadline has passed (it never moves it while it leads) spins: between heartbeats every
  pass of the poll loop that has no event to return, whether or not requests are pending, does nothing but expire the
  requests that have timed out and arm the sleep with a duration of zero, so the task is woken again immediately.
\<close>

theorem leader_poll_spins:
  assumes "role (engine b) = Leader" "pending_events b = []"
    and "election_deadline (engine b) \<le> clock b (readings b)"
    and "clock b (readings b) < heartbeat_deadline (engine b)"
    and "\<And>i j. i \<le> j \<Longrightarrow> clock b i \<le> clock b j"
  shows "let (b', r) = poll_pass ho b; x = expire_pending ho (b\<lparr>readings := Suc (readings b)\<rparr>) (clock b (readings b)) in
    sleep b' = 0 \<and> engine b' = engine x \<and> pending b' = pending x \<and> pending_events b' = [] \<and>
    r = (if sleep_ready b (Suc (Suc (readings b))) then PollAgain else PollPending)"
proof -
  let ?b1 = "b\<lparr>readings := Suc (readings b)\<rparr>"
  let ?now = "clock b (readings b)"
  let ?x = "expire_pending ho ?b1 ?now"
  note x = expire_silent [of ho ?b1 ?now]
  have nd: "next_deadline (engine ?x) = election_deadline (engine b)"
    using assms(1,3,4) x by (simp add: next_deadline_def min_def)
  have tick: "tick (engine ?x) ?now = (engine ?x, \<lparr>out_actions = [], out_next_deadline = election_deadline (engine b)\<rparr>)"
    using assms(1,3,4) nd x by (simp add: tick_def)
  have wake: "earliest_wake y \<le> clock b j" if "engine y = engine ?x" "readings b \<le> j"
    for y :: "('a, 'b, 'c) RaftBehaviour" and j
    using wake_fold(1) [where w = "next_deadline (engine y)" and ps = "pending y" and c = "cfg_rpc_timeout (b_config y)"]
      that(1) nd assms(3) assms(5) [OF that(2)] unfolding earliest_wake_def by simp
  let ?b3 = "arm_sleep ?x (earliest_wake ?x)"
  have due: "tick_if_due ?x ?now = ?b3" by (simp add: tick_if_due_def tick Let_def)
  have "poll_pass ho b = poll_sleep ?b3"
    using assms(2,3) nd due x by (simp add: poll_pass_def pop_event_def Let_def case_prod_unfold)
  then show ?thesis
    using assms(2) wake x by (auto simp: poll_sleep_def Let_def)
qed

definition demo_idle_leader :: "(nat, nat, nat) RaftBehaviour" where
  "demo_idle_leader = demo_linked\<lparr>engine := (engine demo_linked)
     \<lparr>role := Leader, election_deadline := 1, heartbeat_deadline := 50\<rparr>\<rparr>"

theorem leader_poll_spins_witness:
  "sleep (fst (poll_pass sorted_list_of_set demo_idle_leader)) = 0"
proof -
  have "role (engine demo_idle_leader) = Leader" by (simp add: demo_idle_leader_def demo_eval cong: let_weak_cong)
  moreover have "pending_events demo_idle_leader = []" by (simp add: demo_idle_leader_def demo_eval cong: let_weak_cong)
  moreover have "pending demo_idle_leader = []" by (simp add: demo_idle_leader_def demo_eval cong: let_weak_cong)
  moreover have "readings demo_idle_leader = 2" by (simp add: demo_idle_leader_def demo_eval cong: let_weak_cong)
  moreover have "election_deadline (engine demo_idle_leader) = 1" "heartbeat_deadline (engine demo_idle_leader) = 50"
    by (simp_all add: demo_idle_leader_def)
  moreover have "clock demo_idle_leader = (\<lambda>i. i)"
    by (simp add: demo_idle_leader_def demo_linked_def demo_node_def RaftBehaviour_new_def Let_def)
  ultimately show ?thesis
    using leader_poll_spins [of demo_idle_leader sorted_list_of_set] by (simp add: Let_def case_prod_unfold)
qed

subsection \<open>Back-off\<close>

text \<open>
  After a failed dial of the benign kind the peer is left alone for at least five and less than five
  and a half seconds, whatever the node ids: the jitter computed with wrapping arithmetic stays
  below 500 milliseconds.
\<close>

lemma dial_backoff_bounds:
  "let now = clock b (readings b) in
   \<exists>until. dial_backoff_until (dial_backoff b peer) peer = Some until \<and>
     now + 5000000000 \<le> until \<and> until < now + 5500000000"
proof -
  have "unat (x mod 500) < 500" for x :: u64
    using word_mod_less_divisor [of 500 x] by (simp add: word_less_nat_alt)
  then have j: "unat (dial_backoff_jitter_ms b peer) < 500" by (simp add: dial_backoff_jitter_ms_def Let_def)
  then have "unat (dial_backoff_jitter_ms b peer) * 1000000 < 500 * 1000000" by simp
  then show ?thesis by (simp add: dial_backoff_def Let_def case_prod_unfold)
qed

end
