(* ===== verification/Stack.thy ===== *)
theory Stack
  imports Network Handler
begin

text \<open>
  The network of \<open>Network\<close> with what it left out: the connection handlers and the substreams between them. A
  request travels from \<open>poll\<close> of a behaviour to the handler of a connection, as a frame over a substream
  to the handler at the other end, and to the behaviour there; the answer comes back on the same substream.
  Whatever a behaviour is handed in this way was sent to it: the relation \<open>delivered\<close>, which \<open>Network\<close> assumes of
  its wire, is what the handlers and the frames provide.
\<close>

subsection \<open>State\<close>

text \<open>
  A connection has two ends, each the connection id of one node; \<open>far e\<close> is the other end of the connection of
  \<open>e\<close> and \<open>remote e\<close> the peer id its node is known by there.
\<close>

type_synonym 'c End = "NodeId \<times> 'c"

definition wiring :: "('p \<Rightarrow> NodeId) \<Rightarrow> ('c End \<Rightarrow> 'p) \<Rightarrow> ('c End \<Rightarrow> 'c End) \<Rightarrow> bool" where
  "wiring owner remote far \<longleftrightarrow> (\<forall>e. far (far e) = e \<and> far e \<noteq> e \<and> owner (remote e) = fst (far e))"

text \<open>
  \<open>opened s\<close> is the end that opened the substream \<open>s\<close>, \<open>wire s True\<close> the bytes written to it by that end and
  \<open>wire s False\<close> those written by the other; \<open>asked\<close> are the substreams the handlers have asked their swarm for, and
  \<open>handed\<close> the events they have handed up.
\<close>

record ('p, 'a, 'c, 's) Stack =
  st_net :: "('p, 'a, 'c) Network"
  handlers :: "'c End \<Rightarrow> 's RaftHandler"
  opened :: "'s \<rightharpoonup> 'c End"
  wire :: "'s \<Rightarrow> bool \<Rightarrow> u8 list"
  asked :: "('c End \<times> OutboundInfo) set"
  handed :: "('c End \<times> ToBehaviour) set"

definition stack_init :: "('p, 'a, 'c) Network \<Rightarrow> ('p, 'a, 'c, 's) Stack" where
  "stack_init N = \<lparr>st_net = N, handlers = (\<lambda>e. RaftHandler_new), opened = Map.empty, wire = (\<lambda>s side. []),
     asked = {}, handed = {}\<rparr>"

subsection \<open>Steps\<close>

text \<open>
  A call of a behaviour; the swarm opens a substream; it hands the handler of an end an event of the behaviour or of
  the connection; it polls the handler, whose I/O then has these results: of \<open>write_all\<close> and of \<open>flush\<close>, the text of a
  read error, how many bytes have arrived, and which finished tasks it takes.
\<close>

datatype ('p, 'c, 's) StackInput =
    CallBehaviour NodeId "('p, 'c) BehaviourInput"
  | OpenSubstream "'c End" 's
  | ToHandler "'c End" FromBehaviour
  | Negotiated "'c End" "'s ConnectionEvent"
  | PollHandler "'c End" "'s \<Rightarrow> string + unit" "'s \<Rightarrow> string + unit" "'s \<Rightarrow> string" "'s \<Rightarrow> nat" "nat list"

fun stack_ok ::
  "('p, 'a, 'c) Limit \<Rightarrow> NodeId set \<Rightarrow> ('c End \<Rightarrow> 'p) \<Rightarrow> ('c End \<Rightarrow> 'c End) \<Rightarrow> (u64 set \<Rightarrow> u64 list) \<Rightarrow>
    ('p, 'a, 'c, 's) Stack \<Rightarrow> ('p, 'c, 's) StackInput \<Rightarrow> bool" where
  "stack_ok lim V remote far ho W (CallBehaviour n i) =
     (n \<in> V \<and> lim ho (net_nodes (st_net W) n) i \<and>
      (case i of HandlerEvent p conn ev \<Rightarrow> p = remote (n, conn) \<and> ((n, conn), ev) \<in> handed W | _ \<Rightarrow> True))"
| "stack_ok lim V remote far ho W (OpenSubstream e s) = (opened W s = None)"
| "stack_ok lim V remote far ho W (ToHandler e ev) =
     ((fst e, NotifyHandler (remote e) Any ev) \<in> returned (st_net W) \<or>
      (fst e, NotifyHandler (remote e) (One (snd e)) ev) \<in> returned (st_net W))"
| "stack_ok lim V remote far ho W (Negotiated e ev) =
     (case ev of
        FullyNegotiatedInbound s \<Rightarrow> (case opened W s of None \<Rightarrow> False | Some e' \<Rightarrow> far e' = e)
      | FullyNegotiatedOutbound s info \<Rightarrow> opened W s = Some e \<and> (e, info) \<in> asked W
      | DialUpgradeError info error \<Rightarrow> (e, info) \<in> asked W
      | OtherConnectionEvent \<Rightarrow> True)"
| "stack_ok lim V remote far ho W (PollHandler e w fl io got picks) = True"

text \<open>A frame written to a side of a substream.\<close>

definition put_frame ::
  "(WireEnvelope \<Rightarrow> string + u8 list) \<Rightarrow> 's \<Rightarrow> bool \<Rightarrow> WireEnvelope \<Rightarrow> ('s \<Rightarrow> bool \<Rightarrow> u8 list) \<Rightarrow> ('s \<Rightarrow> bool \<Rightarrow> u8 list)" where
  "put_frame ser s side env wi =
     (case write_frame ser (Inr ()) (Inr ()) env of
        Inl e \<Rightarrow> wi
      | Inr bytes \<Rightarrow> wi(s := (wi s)(side := wi s side @ bytes)))"

definition put_frames ::
  "(WireEnvelope \<Rightarrow> string + u8 list) \<Rightarrow> ('s \<times> bool \<times> WireEnvelope) list \<Rightarrow> ('s \<Rightarrow> bool \<Rightarrow> u8 list) \<Rightarrow> ('s \<Rightarrow> bool \<Rightarrow> u8 list)" where
  "put_frames ser fs wi = fold (\<lambda>(s, side, env). put_frame ser s side env) fs wi"

text \<open>What a task writes: a request at once, an answer when it has been sent to its channel.\<close>

fun task_frame :: "Oneshot list \<Rightarrow> 's Task \<Rightarrow> ('s \<times> bool \<times> WireEnvelope) option" where
  "task_frame os (OutboundIo s cid req) = Some (s, True, req)"
| "task_frame os (InboundReadIo s ch) = None"
| "task_frame os (InboundWriteIo s ch cid rx) =
     (case os ! rx of Sent c resp \<Rightarrow> Some (s, False, \<lparr>correlation_id = c, env_msg = resp\<rparr>) | _ \<Rightarrow> None)"

text \<open>The frames the tasks of \<open>h'\<close> have and those of \<open>h\<close> had not.\<close>

definition new_frames :: "'s RaftHandler \<Rightarrow> 's RaftHandler \<Rightarrow> ('s \<times> bool \<times> WireEnvelope) list" where
  "new_frames h h' = concat (map (\<lambda>t.
     case task_frame (oneshots h') t of
       None \<Rightarrow> []
     | Some f \<Rightarrow> if t \<in> set (inflight h) \<and> task_frame (oneshots h) t \<noteq> None then [] else [f]) (inflight h'))"

fun stack_apply ::
  "(WireEnvelope \<Rightarrow> string + u8 list) \<Rightarrow> (u8 list \<Rightarrow> string + WireEnvelope) \<Rightarrow> (u64 set \<Rightarrow> u64 list) \<Rightarrow>
    ('p, 'a, 'c, 's) Stack \<Rightarrow> ('p, 'c, 's) StackInput \<Rightarrow> ('p, 'a, 'c, 's) Stack" where
  "stack_apply ser deser ho W (CallBehaviour n i) = W\<lparr>st_net := net_apply ho (st_net W) n i\<rparr>"
| "stack_apply ser deser ho W (OpenSubstream e s) = W\<lparr>opened := (opened W)(s \<mapsto> e)\<rparr>"
| "stack_apply ser deser ho W (ToHandler e ev) =
     (let h = on_behaviour_event (handlers W e) ev
      in W\<lparr>handlers := (handlers W)(e := h), wire := put_frames ser (new_frames (handlers W e) h) (wire W)\<rparr>)"
| "stack_apply ser deser ho W (Negotiated e ev) =
     (let h = on_connection_event (handlers W e) ev
      in W\<lparr>handlers := (handlers W)(e := h), wire := put_frames ser (new_frames (handlers W e) h) (wire W)\<rparr>)"
| "stack_apply ser deser ho W (PollHandler e w fl io got picks) =
     (let wr = (\<lambda>s env. map_sum (\<lambda>x. x) (\<lambda>_. ()) (write_frame ser (w s) (fl s) env));
          rd = (\<lambda>s. read_frame deser (io s) (take (got s) (wire W s (opened W s \<noteq> Some e))));
          (h, out) = handler_poll wr rd picks (handlers W e);
          W1 = W\<lparr>handlers := (handlers W)(e := h)\<rparr>
      in case out of
           NotifyBehaviour ev \<Rightarrow> W1\<lparr>handed := insert (e, ev) (handed W1)\<rparr>
         | OutboundSubstreamRequest info \<Rightarrow> W1\<lparr>asked := insert (e, info) (asked W1)\<rparr>
         | HandlerPending \<Rightarrow> W1)"

inductive stack_reachable ::
  "('p, 'a, 'c) Limit \<Rightarrow> NodeId set \<Rightarrow> ('c End \<Rightarrow> 'p) \<Rightarrow> ('c End \<Rightarrow> 'c End) \<Rightarrow> (WireEnvelope \<Rightarrow> string + u8 list) \<Rightarrow>
    (u8 list \<Rightarrow> string + WireEnvelope) \<Rightarrow> ('p, 'a, 'c, 's) Stack \<Rightarrow> ('p, 'a, 'c, 's) Stack \<Rightarrow> bool"
  for lim V remote far ser deser W0 where
  start: "stack_reachable lim V remote far ser deser W0 W0"
| step: "stack_reachable lim V remote far ser deser W0 W \<Longrightarrow> hash_order ho \<Longrightarrow> stack_ok lim V remote far ho W i \<Longrightarrow>
    stack_reachable lim V remote far ser deser W0 (stack_apply ser deser ho W i)"

subsection \<open>What stands behind what is on the way\<close>

definition sent_req :: "('p \<Rightarrow> NodeId) \<Rightarrow> ('c End \<Rightarrow> 'c End) \<Rightarrow> ('p, 'a, 'c) Network \<Rightarrow> 'c End \<Rightarrow> u64 \<Rightarrow> RaftMessage \<Rightarrow> bool" where
  "sent_req owner far N e cid msg \<longleftrightarrow>
     (\<exists>q t. (fst e, NotifyHandler q t (SendRequest cid msg)) \<in> returned N \<and> owner q = fst (far e))"

definition sent_resp :: "('p \<Rightarrow> NodeId) \<Rightarrow> ('c End \<Rightarrow> 'c End) \<Rightarrow> ('p, 'a, 'c) Network \<Rightarrow> 'c End \<Rightarrow> u64 \<Rightarrow> RaftMessage \<Rightarrow> bool" where
  "sent_resp owner far N e cid msg \<longleftrightarrow>
     (\<exists>q t ch. (fst e, NotifyHandler q t (SendResponse ch cid msg)) \<in> returned N \<and> owner q = fst (far e))"

fun event_behind :: "('p \<Rightarrow> NodeId) \<Rightarrow> ('c End \<Rightarrow> 'c End) \<Rightarrow> ('p, 'a, 'c) Network \<Rightarrow> 'c End \<Rightarrow> ToBehaviour \<Rightarrow> bool" where
  "event_behind owner far N e (Request cid msg ch) = sent_req owner far N (far e) cid msg"
| "event_behind owner far N e (Response cid msg) = sent_resp owner far N (far e) cid msg"
| "event_behind owner far N e (Failure cid err) = True"

text \<open>A task works on a substream its end has opened, with a request that was sent, or the other end has opened.\<close>

fun task_behind ::
  "('p \<Rightarrow> NodeId) \<Rightarrow> ('c End \<Rightarrow> 'c End) \<Rightarrow> ('p, 'a, 'c) Network \<Rightarrow> ('s \<rightharpoonup> 'c End) \<Rightarrow> 'c End \<Rightarrow> 's Task \<Rightarrow> bool" where
  "task_behind owner far N op e (OutboundIo s cid env) =
     (op s = Some e \<and> sent_req owner far N e (correlation_id env) (env_msg env))"
| "task_behind owner far N op e (InboundReadIo s ch) = (op s = Some (far e))"
| "task_behind owner far N op e (InboundWriteIo s ch cid rx) = (op s = Some (far e))"

definition handler_ok ::
  "(u64 \<Rightarrow> RaftMessage \<Rightarrow> bool) \<Rightarrow> (u64 \<Rightarrow> RaftMessage \<Rightarrow> bool) \<Rightarrow> ('s Task \<Rightarrow> bool) \<Rightarrow> (ToBehaviour \<Rightarrow> bool) \<Rightarrow>
    's RaftHandler \<Rightarrow> bool" where
  "handler_ok Q S T B h \<longleftrightarrow> (\<forall>oi \<in> set (pending_outbound h). Q (oi_correlation_id oi) (oi_msg oi)) \<and>
     (\<forall>cid msg. Sent cid msg \<in> set (oneshots h) \<longrightarrow> S cid msg) \<and>
     (\<forall>t \<in> set (inflight h). T t) \<and> (\<forall>ev \<in> set (h_pending_events h). B ev)"

abbreviation end_ok ::
  "('p \<Rightarrow> NodeId) \<Rightarrow> ('c End \<Rightarrow> 'c End) \<Rightarrow> ('p, 'a, 'c) Network \<Rightarrow> ('s \<rightharpoonup> 'c End) \<Rightarrow> 'c End \<Rightarrow> 's RaftHandler \<Rightarrow> bool" where
  "end_ok owner far N op e \<equiv>
     handler_ok (sent_req owner far N e) (sent_resp owner far N e) (task_behind owner far N op e) (event_behind owner far N e)"

definition frame_behind ::
  "('p \<Rightarrow> NodeId) \<Rightarrow> ('c End \<Rightarrow> 'c End) \<Rightarrow> ('p, 'a, 'c) Network \<Rightarrow> 'c End \<Rightarrow> bool \<Rightarrow> WireEnvelope \<Rightarrow> bool" where
  "frame_behind owner far N e side env \<longleftrightarrow>
     (if side then sent_req owner far N e (correlation_id env) (env_msg env)
      else sent_resp owner far N (far e) (correlation_id env) (env_msg env))"

definition wire_ok ::
  "('p \<Rightarrow> NodeId) \<Rightarrow> ('c End \<Rightarrow> 'c End) \<Rightarrow> (WireEnvelope \<Rightarrow> string + u8 list) \<Rightarrow> ('p, 'a, 'c) Network \<Rightarrow> ('s \<rightharpoonup> 'c End) \<Rightarrow>
    's \<Rightarrow> bool \<Rightarrow> u8 list \<Rightarrow> bool" where
  "wire_ok owner far ser N op s side bs \<longleftrightarrow> bs = [] \<or>
     (\<exists>e env bytes rest. op s = Some e \<and> write_frame ser (Inr ()) (Inr ()) env = Inr bytes \<and>
        bs = bytes @ rest \<and> frame_behind owner far N e side env)"

definition stack_inv ::
  "('p \<Rightarrow> NodeId) \<Rightarrow> ('c End \<Rightarrow> 'c End) \<Rightarrow> (WireEnvelope \<Rightarrow> string + u8 list) \<Rightarrow> ('p, 'a, 'c, 's) Stack \<Rightarrow> bool" where
  "stack_inv owner far ser W \<longleftrightarrow>
     (\<forall>e. end_ok owner far (st_net W) (opened W) e (handlers W e) \<and> handler_inv (handlers W e)) \<and>
     (\<forall>s side. wire_ok owner far ser (st_net W) (opened W) s side (wire W s side)) \<and>
     (\<forall>(e, oi) \<in> asked W. sent_req owner far (st_net W) e (oi_correlation_id oi) (oi_msg oi)) \<and>
     (\<forall>(e, ev) \<in> handed W. event_behind owner far (st_net W) e ev)"

lemma stack_invD:
  assumes "stack_inv owner far ser W"
  shows "end_ok owner far (st_net W) (opened W) e (handlers W e)" "handler_inv (handlers W e)"
    "wire_ok owner far ser (st_net W) (opened W) s side (wire W s side)"
    "(e, oi) \<in> asked W \<Longrightarrow> sent_req owner far (st_net W) e (oi_correlation_id oi) (oi_msg oi)"
    "(e, ev) \<in> handed W \<Longrightarrow> event_behind owner far (st_net W) e ev"
  using assms unfolding stack_inv_def by blast+

text \<open>More events returned and more substreams opened keep it.\<close>

lemma sent_mono:
  assumes "returned N \<subseteq> returned N'"
  shows "sent_req owner far N e cid msg \<Longrightarrow> sent_req owner far N' e cid msg"
    "sent_resp owner far N e cid msg \<Longrightarrow> sent_resp owner far N' e cid msg"
  using assms unfolding sent_req_def sent_resp_def by blast+

lemma event_behind_mono: "returned N \<subseteq> returned N' \<Longrightarrow> event_behind owner far N e ev \<Longrightarrow> event_behind owner far N' e ev"
  by (cases ev) (auto intro: sent_mono)

lemma task_behind_mono:
  "returned N \<subseteq> returned N' \<Longrightarrow> op \<subseteq>\<^sub>m op' \<Longrightarrow> task_behind owner far N op e t \<Longrightarrow> task_behind owner far N' op' e t"
  by (cases t) (auto simp: map_le_def dom_def intro: sent_mono)

lemma handler_ok_mono:
  "handler_ok Q S T B h \<Longrightarrow> (\<And>cid m. Q cid m \<Longrightarrow> Q' cid m) \<Longrightarrow> (\<And>cid m. S cid m \<Longrightarrow> S' cid m) \<Longrightarrow>
    (\<And>t. T t \<Longrightarrow> T' t) \<Longrightarrow> (\<And>ev. B ev \<Longrightarrow> B' ev) \<Longrightarrow> handler_ok Q' S' T' B' h"
  unfolding handler_ok_def by blast

lemma end_ok_mono:
  assumes "end_ok owner far N op e h" "returned N \<subseteq> returned N'" "op \<subseteq>\<^sub>m op'"
  shows "end_ok owner far N' op' e h"
  by (rule handler_ok_mono [OF assms(1) sent_mono [OF assms(2)] task_behind_mono [OF assms(2,3)] event_behind_mono [OF assms(2)]])

lemma frame_behind_mono:
  "returned N \<subseteq> returned N' \<Longrightarrow> frame_behind owner far N e side env \<Longrightarrow> frame_behind owner far N' e side env"
  by (auto simp: frame_behind_def intro: sent_mono split: if_splits)

lemma wire_ok_mono:
  assumes "wire_ok owner far ser N op s side bs" "returned N \<subseteq> returned N'" "op \<subseteq>\<^sub>m op'"
  shows "wire_ok owner far ser N' op' s side bs"
proof -
  have "op' s = Some e" if "op s = Some e" for e using assms(3) that by (auto simp: map_le_def dom_def)
  with assms(1) frame_behind_mono [OF assms(2)] show ?thesis unfolding wire_ok_def by blast
qed

text \<open>A task writes its frame.\<close>

lemma put_frame_ok:
  assumes "\<And>s' side'. wire_ok owner far ser N op s' side' (wi s' side')" "op s = Some e" "frame_behind owner far N e side env"
  shows "wire_ok owner far ser N op s' side' (put_frame ser s side env wi s' side')"
proof (cases "write_frame ser (Inr ()) (Inr ()) env")
  case (Inl x)
  then show ?thesis using assms(1) by (simp add: put_frame_def)
next
  case (Inr bytes)
  have "wire_ok owner far ser N op s side (wi s side @ bytes)"
  proof (cases "wi s side = []")
    case True
    then show ?thesis using Inr assms(2,3) unfolding wire_ok_def by fastforce
  next
    case False
    with assms(1) [of s side] obtain e1 env1 bytes1 rest where
      "op s = Some e1" "write_frame ser (Inr ()) (Inr ()) env1 = Inr bytes1" "wi s side = bytes1 @ rest"
      "frame_behind owner far N e1 side env1"
      unfolding wire_ok_def by blast
    then show ?thesis unfolding wire_ok_def by (metis append_assoc)
  qed
  then show ?thesis using Inr assms(1) by (simp add: put_frame_def)
qed

lemma put_frames_ok:
  assumes "\<And>s' side'. wire_ok owner far ser N op s' side' (wi s' side')"
    "\<forall>(s, side, env) \<in> set fs. \<exists>e. op s = Some e \<and> frame_behind owner far N e side env"
  shows "wire_ok owner far ser N op s' side' (put_frames ser fs wi s' side')"
  using assms
proof (induction fs arbitrary: wi s' side')
  case (Cons f fs)
  obtain s side env where f: "f = (s, side, env)" by (cases f)
  then obtain e where "op s = Some e" "frame_behind owner far N e side env" using Cons.prems(2) by auto
  then show ?case using Cons.IH [OF put_frame_ok [OF Cons.prems(1)]] Cons.prems(2) by (simp add: f put_frames_def)
qed (simp add: put_frames_def)

text \<open>What the tasks of an end write is backed.\<close>

lemma new_frames_behind:
  assumes "end_ok owner far N op e h'" "handler_inv h'" "far (far e) = e"
  shows "\<forall>(s, side, env) \<in> set (new_frames h h'). \<exists>e'. op s = Some e' \<and> frame_behind owner far N e' side env"
proof clarify
  fix s side env assume "(s, side, env) \<in> set (new_frames h h')"
  then obtain t where t: "t \<in> set (inflight h')" "task_frame (oneshots h') t = Some (s, side, env)"
    by (auto simp: new_frames_def split: option.splits if_splits)
  have b: "task_behind owner far N op e t" using assms(1) t(1) by (simp add: handler_ok_def)
  show "\<exists>e'. op s = Some e' \<and> frame_behind owner far N e' side env"
  proof (cases t)
    case (InboundWriteIo s' ch c rx)
    then obtain c' resp where r: "oneshots h' ! rx = Sent c' resp" "s' = s" "side = False" "env = \<lparr>correlation_id = c', env_msg = resp\<rparr>"
      using t(2) by (auto split: Oneshot.splits)
    have "rx \<in> set (concat (map rx_of (inflight h')))" using t(1) InboundWriteIo by force
    then have "rx < length (oneshots h')" using assms(2) unfolding handler_inv_def by blast
    then have "Sent c' resp \<in> set (oneshots h')" using r(1) nth_mem by metis
    then have "sent_resp owner far N e c' resp" using assms(1) by (simp add: handler_ok_def)
    then show ?thesis using b InboundWriteIo r assms(3) by (simp add: frame_behind_def)
  qed (use b t(2) in \<open>auto simp: frame_behind_def\<close>)
qed

lemma stack_inv_mono:
  assumes "stack_inv owner far ser W" "returned (st_net W) \<subseteq> returned (st_net W')" "opened W \<subseteq>\<^sub>m opened W'"
    "handlers W' = handlers W" "wire W' = wire W" "asked W' = asked W" "handed W' = handed W"
  shows "stack_inv owner far ser W'"
  unfolding stack_inv_def assms(4,6,7)
proof (intro conjI allI ballI)
  note D = stack_invD [OF assms(1)]
  fix e s side x y
  show "end_ok owner far (st_net W') (opened W') e (handlers W e)" by (rule end_ok_mono [OF D(1) assms(2,3)])
  show "handler_inv (handlers W e)" by (rule D(2))
  show "wire_ok owner far ser (st_net W') (opened W') s side (wire W' s side)"
    unfolding assms(5) by (rule wire_ok_mono [OF D(3) assms(2,3)])
  show "x \<in> asked W \<Longrightarrow> case x of (e, oi) \<Rightarrow> sent_req owner far (st_net W') e (oi_correlation_id oi) (oi_msg oi)"
    using D(4) sent_mono(1) [OF assms(2)] by (auto split: prod.split)
  show "y \<in> handed W \<Longrightarrow> case y of (e, ev) \<Rightarrow> event_behind owner far (st_net W') e ev"
    using D(5) event_behind_mono [OF assms(2)] by (auto split: prod.split)
qed

text \<open>What is read from a substream was written to it by the other side.\<close>

lemma wire_read:
  assumes "bincode_law ser deser" "wire_ok owner far ser N op s side bs" "op s = Some e" "read_frame deser io (take k bs) = Inr env"
  shows "frame_behind owner far N e side env"
proof -
  have "bs \<noteq> []" using assms(4) by (auto simp: read_frame_def read_exact_def)
  with assms(2,3) obtain env' bytes rest where w: "write_frame ser (Inr ()) (Inr ()) env' = Inr bytes"
      "bs = bytes @ rest" and b: "frame_behind owner far N e side env'"
    unfolding wire_ok_def by auto
  have "env = env'" by (rule frame_start [OF assms(1) w(1) assms(4) [unfolded w(2)]])
  with b show ?thesis by simp
qed

subsection \<open>The handler keeps it\<close>

lemma drop_tx_sel [simp]:
  "pending_outbound (drop_tx h ch) = pending_outbound h" "inflight (drop_tx h ch) = inflight h"
  "h_pending_events (drop_tx h ch) = h_pending_events h"
  by (simp_all add: drop_tx_def split: option.split)

lemma sent_update: "Sent cid msg \<in> set (os[i := v]) \<Longrightarrow> Sent cid msg \<in> set os \<or> Sent cid msg = v"
  using set_update_subset_insert [of os i v] by blast

lemma drop_tx_sent: "Sent cid msg \<in> set (oneshots (drop_tx h ch)) \<Longrightarrow> Sent cid msg \<in> set (oneshots h)"
  by (auto simp: drop_tx_def split: option.splits dest: sent_update)

lemma behaviour_event_ok:
  assumes "handler_ok Q S T B h" "\<And>cid msg. ev = SendRequest cid msg \<Longrightarrow> Q cid msg"
    "\<And>ch cid msg. ev = SendResponse ch cid msg \<Longrightarrow> S cid msg" "\<And>c e. B (Failure c e)"
  shows "handler_ok Q S T B (on_behaviour_event h ev)"
  using assms by (cases ev) (auto simp: handler_ok_def split: option.split dest!: sent_update)

lemma connection_event_ok:
  assumes "handler_ok Q S T B h" "\<And>s ch. ev = FullyNegotiatedInbound s \<Longrightarrow> T (InboundReadIo s ch)"
    "\<And>s info. ev = FullyNegotiatedOutbound s info \<Longrightarrow>
      T (OutboundIo s (oi_correlation_id info) \<lparr>correlation_id = oi_correlation_id info, env_msg = oi_msg info\<rparr>)"
    "\<And>c e. B (Failure c e)"
  shows "handler_ok Q S T B (on_connection_event h ev)"
  using assms by (cases ev)
    (auto simp: handler_ok_def push_inbound_read_def push_outbound_io_def alloc_channel_id_def)

text \<open>What a finished task may report, and what it leaves behind.\<close>

fun outcome_ok :: "('s Task \<Rightarrow> bool) \<Rightarrow> (ToBehaviour \<Rightarrow> bool) \<Rightarrow> 's IoOutcome \<Rightarrow> bool" where
  "outcome_ok T B (OutboundDone cid msg) = B (Response cid msg)"
| "outcome_ok T B (InboundRead ch s env) =
     (B (Request (correlation_id env) (env_msg env) ch) \<and> (\<forall>rx. T (InboundWriteIo s ch (correlation_id env) rx)))"
| "outcome_ok T B _ = True"

lemma on_outcome_ok:
  assumes "handler_ok Q S T B h" "outcome_ok T B out" "\<And>c e. B (Failure c e)"
  shows "handler_ok Q S T B (on_outcome h out)"
  using assms by (cases out) (auto simp: handler_ok_def Let_def push_inbound_write_def dest: drop_tx_sent)

fun result_ok :: "(u64 \<Rightarrow> RaftMessage \<Rightarrow> bool) \<Rightarrow> (ToBehaviour \<Rightarrow> bool) \<Rightarrow> HandlerPoll \<Rightarrow> bool" where
  "result_ok Q B (NotifyBehaviour ev) = B ev"
| "result_ok Q B (OutboundSubstreamRequest info) = Q (oi_correlation_id info) (oi_msg info)"
| "result_ok Q B HandlerPending = True"

lemma handler_poll_ok:
  assumes "handler_ok Q S T B h" "\<And>os t out. T t \<Longrightarrow> task_outcome wr rd os t = Some out \<Longrightarrow> outcome_ok T B out"
    "\<And>c e. B (Failure c e)"
  shows "handler_ok Q S T B (fst (handler_poll wr rd picks h)) \<and> result_ok Q B (snd (handler_poll wr rd picks h))"
  using assms
proof (induction wr rd picks h rule: handler_poll.induct)
  case (1 wr rd picks h)
  note IH = 1
  show ?case
  proof (cases "h_pending_events h = [] \<and> pending_outbound h = []")
    case False
    then show ?thesis using IH(2)
      by (subst (1 2) handler_poll.simps) (auto simp: handler_ok_def split: list.splits)
  next
    case True
    show ?thesis
    proof (cases "\<exists>k ks out. picks = k # ks \<and> k < length (inflight h) \<and> task_outcome wr rd (oneshots h) (inflight h ! k) = Some out")
      case False
      then have "handler_poll wr rd picks h = (h, HandlerPending)"
        using True by (auto simp: handler_poll.simps [of _ _ _ h] split: list.split option.split)
      then show ?thesis using IH(2) by simp
    next
      case some: True
      then obtain k ks out where p: "picks = k # ks" "k < length (inflight h)"
          "task_outcome wr rd (oneshots h) (inflight h ! k) = Some out" by blast
      let ?h = "h\<lparr>inflight := remove_nth k (inflight h)\<rparr>"
      have "set (remove_nth k (inflight h)) \<subseteq> set (inflight h)" using set_remove_nth [OF p(2)] by auto
      then have "handler_ok Q S T B ?h" using IH(2) by (auto simp: handler_ok_def)
      moreover have "T (inflight h ! k)" using IH(2) p(2) by (simp add: handler_ok_def)
      then have "outcome_ok T B out" using IH(3) p(3) by blast
      ultimately have "handler_ok Q S T B (on_outcome ?h out)" using IH(4) by (rule on_outcome_ok)
      then show ?thesis using IH(1) IH(3,4) True p by (simp add: handler_poll.simps [of _ _ _ h])
    qed
  qed
qed

subsection \<open>The steps keep it\<close>

text \<open>A handler is given an event.\<close>

lemma stack_inv_handler:
  assumes inv: "stack_inv owner far ser W" and "end_ok owner far (st_net W) (opened W) e h" "handler_inv h" "far (far e) = e"
  shows "stack_inv owner far ser
    (W\<lparr>handlers := (handlers W)(e := h), wire := put_frames ser (new_frames (handlers W e) h) (wire W)\<rparr>)"
proof -
  note D = stack_invD [OF inv]
  have "wire_ok owner far ser (st_net W) (opened W) s side (put_frames ser (new_frames (handlers W e) h) (wire W) s side)" for s side
    by (rule put_frames_ok [OF D(3) new_frames_behind [OF assms(2-4)]])
  then show ?thesis using D assms(2,3) unfolding stack_inv_def by auto
qed

lemma stack_inv_step:
  fixes W :: "('p, 'a, 'c, 's) Stack"
  assumes law: "bincode_law ser deser" and w: "wiring owner remote far" and inv: "stack_inv owner far ser W"
    and ok: "stack_ok lim V remote far ho W i"
  shows "stack_inv owner far ser (stack_apply ser deser ho W i)"
proof -
  note D = stack_invD [OF inv]
  have far: "far (far e) = e" "far e \<noteq> e" "owner (remote e) = fst (far e)" for e
    using w unfolding wiring_def by blast+
  show ?thesis
  proof (cases i)
    case (CallBehaviour n j)
    have "returned (st_net W) \<subseteq> returned (net_apply ho (st_net W) n j)" by (simp add: net_apply_def)
    then show ?thesis using CallBehaviour by (intro stack_inv_mono [OF inv]) simp_all
  next
    case (OpenSubstream e s)
    then have "opened W s = None" using ok by simp
    then show ?thesis using OpenSubstream by (intro stack_inv_mono [OF inv]) (auto simp: map_le_def)
  next
    case (ToHandler e ev)
    have sent: "\<exists>q t. (fst e, NotifyHandler q t ev) \<in> returned (st_net W) \<and> owner q = fst (far e)"
      using ok far(3) [of e] unfolding ToHandler stack_ok.simps by blast
    have "end_ok owner far (st_net W) (opened W) e (on_behaviour_event (handlers W e) ev)"
      by (rule behaviour_event_ok [OF D(1)]) (use sent in \<open>auto simp: sent_req_def sent_resp_def\<close>)
    from stack_inv_handler [OF inv this handler_inv_behaviour [OF D(2)] far(1)] show ?thesis
      unfolding ToHandler stack_apply.simps Let_def .
  next
    case (Negotiated e ev)
    have opened: "opened W s = Some (far e)" if "ev = FullyNegotiatedInbound s" for s
      using ok Negotiated that far(1) by (auto split: option.splits)
    have asked: "opened W s = Some e \<and> sent_req owner far (st_net W) e (oi_correlation_id info) (oi_msg info)"
      if "ev = FullyNegotiatedOutbound s info" for s info
      using ok Negotiated that D(4) by simp
    have "end_ok owner far (st_net W) (opened W) e (on_connection_event (handlers W e) ev)"
      by (rule connection_event_ok [OF D(1)]) (use opened asked in simp_all)
    from stack_inv_handler [OF inv this handler_inv_connection [OF D(2)] far(1)] show ?thesis
      unfolding Negotiated stack_apply.simps Let_def .
  next
    case (PollHandler e wa fl io got picks)
    let ?wr = "\<lambda>s env. map_sum (\<lambda>x. x) (\<lambda>_. ()) (write_frame ser (wa s) (fl s) env)"
    let ?rd = "\<lambda>s. read_frame deser (io s) (take (got s) (wire W s (opened W s \<noteq> Some e)))"
    obtain h out where p: "handler_poll ?wr ?rd picks (handlers W e) = (h, out)" by fastforce
    have read: "frame_behind owner far (st_net W) e' (e' \<noteq> e) env" if "opened W s = Some e'" "?rd s = Inr env" for s e' env
      using wire_read [OF law D(3) that(1)] that by auto
    have outcome: "outcome_ok (task_behind owner far (st_net W) (opened W) e) (event_behind owner far (st_net W) e) out'"
      if t: "task_behind owner far (st_net W) (opened W) e t" "task_outcome ?wr ?rd os t = Some out'" for os t out'
    proof (cases t)
      case (OutboundIo s cid env)
      have o: "opened W s = Some e" using t(1) OutboundIo by simp
      show ?thesis
      proof (cases "?rd s")
        case (Inr env')
        from read [OF o this] have "sent_resp owner far (st_net W) (far e) (correlation_id env') (env_msg env')"
          by (simp add: frame_behind_def)
        then show ?thesis using t(2) OutboundIo Inr by (auto split: sum.splits)
      qed (use t(2) OutboundIo in \<open>auto split: sum.splits\<close>)
    next
      case (InboundReadIo s ch)
      have o: "opened W s = Some (far e)" using t(1) InboundReadIo by simp
      show ?thesis
      proof (cases "?rd s")
        case (Inr env')
        from read [OF o this] have "sent_req owner far (st_net W) (far e) (correlation_id env') (env_msg env')"
          by (simp add: frame_behind_def far(2))
        then show ?thesis using t(2) InboundReadIo Inr o by auto
      qed (use t(2) InboundReadIo in auto)
    qed (use t(2) in \<open>auto split: Oneshot.splits sum.splits\<close>)
    have "end_ok owner far (st_net W) (opened W) e
        (fst (handler_poll ?wr ?rd picks (handlers W e))) \<and>
      result_ok (sent_req owner far (st_net W) e) (event_behind owner far (st_net W) e)
        (snd (handler_poll ?wr ?rd picks (handlers W e)))"
      by (rule handler_poll_ok [OF D(1)], erule (1) outcome, simp)
    then have "end_ok owner far (st_net W) (opened W) e h"
      "result_ok (sent_req owner far (st_net W) e) (event_behind owner far (st_net W) e) out"
      unfolding p by simp_all
    moreover have "handler_inv h" using handler_inv_poll [OF D(2), of ?wr ?rd picks e] p by simp
    ultimately show ?thesis using D PollHandler p unfolding stack_inv_def by (cases out) auto
  qed
qed

lemma stack_inv_init: "stack_inv owner far ser (stack_init N)"
  by (simp add: stack_inv_def stack_init_def handler_ok_def wire_ok_def handler_inv_new) (simp add: RaftHandler_new_def)

lemma stack_handed:
  assumes "wiring owner remote far" "stack_inv owner far ser W" "stack_ok lim V remote far ho W (CallBehaviour n i)"
  shows "delivered owner (st_net W) n i"
proof (cases i)
  case (HandlerEvent p conn ev)
  then have p: "p = remote (n, conn)" and h: "((n, conn), ev) \<in> handed W" using assms(3) by simp_all
  have far: "far (far (n, conn)) = (n, conn)" "owner p = fst (far (n, conn))" using assms(1) unfolding p wiring_def by blast+
  from stack_invD(5) [OF assms(2) h] show ?thesis
    using HandlerEvent far by (cases ev) (auto simp: sent_req_def sent_resp_def)
qed simp_all

lemma stack_reachable_net:
  assumes "bincode_law ser deser" "wiring owner remote far" "stack_reachable lim V remote far ser deser (stack_init N0) W"
  shows "net_reachable lim V owner N0 (st_net W) \<and> stack_inv owner far ser W"
  using assms(3)
proof induction
  case start
  show ?case using net_reachable.start stack_inv_init by (simp add: stack_init_def) fastforce
next
  case (step W ho i)
  have inv: "stack_inv owner far ser (stack_apply ser deser ho W i)"
    by (rule stack_inv_step [OF assms(1,2) _ step.hyps(3)]) (use step.IH in simp)
  show ?case
  proof (cases i)
    case (CallBehaviour n j)
    have "delivered owner (st_net W) n j" using stack_handed [OF assms(2)] step CallBehaviour by blast
    then have "net_reachable lim V owner N0 (net_apply ho (st_net W) n j)"
      using step CallBehaviour by (intro net_reachable.step) simp_all
    with inv show ?thesis using CallBehaviour by simp
  next
    case (PollHandler e wa fl io got picks)
    then have "st_net (stack_apply ser deser ho W i) = st_net W"
      by (simp add: Let_def case_prod_unfold split: HandlerPoll.split)
    with inv step.IH show ?thesis by simp
  qed (use inv step.IH in \<open>simp_all add: Let_def\<close>)
qed

subsection \<open>Properties\<close>

text \<open>
  C5: The whole stack, with the handlers, the substreams and the bytes of the frames between the behaviours: a
  behaviour is handed a request or an answer only if another has sent exactly it to this node, so every run of the stack
  is a run of the network under the same limit \<open>lim\<close> on the calls. If no 64-bit counter wraps (\<open>counters_fit\<close>), no two nodes
  lead in one term, and two logs with an entry of the same term at an index are the same up to there, whatever is
  pending when a node becomes leader. If besides no AppendEntries of an earlier leadership is pending then
  (\<open>within_limits\<close>), no two nodes report different entries for an index as committed. (Deserialising gives back what was
  serialised; the substreams are reliable streams of bytes between authenticated peers, which may stop or fail at any
  point; the configured seeds name the nodes that hold the keys.)
\<close>

theorem stack_agrees:
  assumes "bincode_law ser deser" "wiring owner remote far"
    and "deployment V hos cfgs" "\<forall>n \<in> V. honest_seeds owner (cfgs n)"
    and "stack_reachable lim V remote far ser deser (stack_init (net_init hos clks rnds rdys cfgs)) W"
  defines "node \<equiv> \<lambda>n. engine (net_nodes (st_net W) n)"
  shows "net_reachable lim V owner (net_init hos clks rnds rdys cfgs) (st_net W) \<and>
    (lim = counters_fit \<or> lim = within_limits \<longrightarrow>
      (\<forall>m \<in> V. \<forall>n \<in> V. role (node m) = Leader \<and> role (node n) = Leader \<and>
        engine_current_term (node m) = engine_current_term (node n) \<longrightarrow> m = n) \<and>
      (\<forall>m \<in> V. \<forall>n \<in> V. \<forall>i j x y. entry (storage (node m)) i = Some x \<and> entry (storage (node n)) i = Some y \<and>
        le_term x = le_term y \<and> j \<le> i \<longrightarrow> entry (storage (node m)) j = entry (storage (node n)) j)) \<and>
    (lim = within_limits \<longrightarrow> (\<forall>m n es es'. (m, GenerateEvent (Committed es)) \<in> returned (st_net W) \<and>
       (n, GenerateEvent (Committed es')) \<in> returned (st_net W) \<longrightarrow>
       (\<forall>x \<in> set es. \<forall>y \<in> set es'. le_index x = le_index y \<longrightarrow> x = y)))"
proof -
  have net: "net_reachable lim V owner (net_init hos clks rnds rdys cfgs) (st_net W)"
    using stack_reachable_net [OF assms(1,2,5)] by blast
  have fit: "net_reachable counters_fit V owner (net_init hos clks rnds rdys cfgs) (st_net W)"
    if "lim = counters_fit \<or> lim = within_limits"
    using that net within_limits_fit by blast
  have leaders: "m = n" if "lim = counters_fit \<or> lim = within_limits" "m \<in> V" "n \<in> V" "role (node m) = Leader"
      "role (node n) = Leader" "engine_current_term (node m) = engine_current_term (node n)" for m n
    using net_leaders_unique [OF assms(3,4) fit [OF that(1)]] that(2-6) unfolding node_def by blast
  have logs: "entry (storage (node m)) j = entry (storage (node n)) j" if "lim = counters_fit \<or> lim = within_limits"
      "m \<in> V" "n \<in> V" "entry (storage (node m)) i = Some x" "entry (storage (node n)) i = Some y" "le_term x = le_term y" "j \<le> i"
    for m n i j x y
    using net_logs_match [OF assms(3,4) fit [OF that(1)]] that(2-7) unfolding node_def by blast
  have agree: "x = y" if "lim = within_limits" "(m, GenerateEvent (Committed es)) \<in> returned (st_net W)" "x \<in> set es"
      "(n, GenerateEvent (Committed es')) \<in> returned (st_net W)" "y \<in> set es'" "le_index x = le_index y" for m n es es' x y
    using reported_agree [OF assms(3,4) _ that(2-6)] net that(1) by blast
  show ?thesis using net leaders logs agree by blast
qed

text \<open>A run as a function of a schedule.\<close>

fun stack_run ::
  "('p, 'a, 'c) Limit \<Rightarrow> NodeId set \<Rightarrow> ('c End \<Rightarrow> 'p) \<Rightarrow> ('c End \<Rightarrow> 'c End) \<Rightarrow> (WireEnvelope \<Rightarrow> string + u8 list) \<Rightarrow>
    (u8 list \<Rightarrow> string + WireEnvelope) \<Rightarrow> (u64 set \<Rightarrow> u64 list) \<Rightarrow> ('p, 'a, 'c, 's) Stack \<Rightarrow>
    ('p, 'c, 's) StackInput list \<Rightarrow> ('p, 'a, 'c, 's) Stack option" where
  "stack_run lim V remote far ser deser ho W [] = Some W"
| "stack_run lim V remote far ser deser ho W (i # sched) =
     (if stack_ok lim V remote far ho W i then stack_run lim V remote far ser deser ho (stack_apply ser deser ho W i) sched else None)"

lemma stack_run_reachable:
  "hash_order ho \<Longrightarrow> stack_reachable lim V remote far ser deser W0 W \<Longrightarrow>
    stack_run lim V remote far ser deser ho W sched = Some W' \<Longrightarrow> stack_reachable lim V remote far ser deser W0 W'"
proof (induction sched arbitrary: W)
  case (Cons i sched)
  then have ok: "stack_ok lim V remote far ho W i"
    and r: "stack_run lim V remote far ser deser ho (stack_apply ser deser ho W i) sched = Some W'"
    by (auto split: if_splits)
  show ?case by (rule Cons.IH [OF Cons.prems(1) stack_reachable.step [OF Cons.prems(2,1) ok] r])
qed simp

text \<open>
  The run of \<open>duo_schedule\<close> over one connection with the id 7 at both ends: the vote request and two requests of the
  leader cross the substreams 0, 1 and 2, the answers to the first two come back on theirs. The
  serialiser knows these five envelopes.
\<close>

definition duo_far :: "nat End \<Rightarrow> nat End" where
  "duo_far e = (3 - fst e, snd e)"

definition duo_remote :: "nat End \<Rightarrow> nat" where
  "duo_remote e = 100 + unat (3 - fst e)"

abbreviation (input) envelope :: "u64 \<Rightarrow> RaftMessage \<Rightarrow> WireEnvelope" where
  "envelope cid msg \<equiv> \<lparr>correlation_id = cid, env_msg = msg\<rparr>"

abbreviation vote_req :: RaftMessage where
  "vote_req \<equiv> RequestVote 1 1 0 0"

abbreviation vote_resp :: RaftMessage where
  "vote_resp \<equiv> RequestVoteResp 1 True"

abbreviation append_req :: RaftMessage where
  "append_req \<equiv> AppendEntries 1 1 0 0 [duo_entry] 0"

abbreviation append_resp :: RaftMessage where
  "append_resp \<equiv> AppendEntriesResp 1 True 1"

abbreviation commit_req :: RaftMessage where
  "commit_req \<equiv> AppendEntries 1 1 1 1 [] 1"

definition duo_ser :: "WireEnvelope \<Rightarrow> string + u8 list" where
  "duo_ser env = (if env = envelope 1 vote_req then Inr [1] else if env = envelope 1 vote_resp then Inr [2]
     else if env = envelope 2 append_req then Inr [3] else if env = envelope 2 append_resp then Inr [4]
     else if env = envelope 3 commit_req then Inr [5] else Inl ''unsupported'')"

definition duo_deser :: "u8 list \<Rightarrow> string + WireEnvelope" where
  "duo_deser bytes = (if bytes = [1] then Inr (envelope 1 vote_req) else if bytes = [2] then Inr (envelope 1 vote_resp)
     else if bytes = [3] then Inr (envelope 2 append_req) else if bytes = [4] then Inr (envelope 2 append_resp)
     else if bytes = [5] then Inr (envelope 3 commit_req) else Inl ''unsupported'')"

abbreviation poll_handler :: "nat End \<Rightarrow> nat list \<Rightarrow> (nat, nat, nat) StackInput" where
  "poll_handler e picks \<equiv> PollHandler e (\<lambda>s. Inr ()) (\<lambda>s. Inr ()) (\<lambda>s. ''eof'') (\<lambda>s. 5) picks"

text \<open>A request from node 1 over the substream \<open>s\<close>, taken at node 2 with \<open>picks\<close>; an answer back.\<close>

abbreviation ask :: "nat \<Rightarrow> u64 \<Rightarrow> RaftMessage \<Rightarrow> nat list \<Rightarrow> (nat, nat, nat) StackInput list" where
  "ask s cid msg picks \<equiv>
     [ToHandler (1, 7) (SendRequest cid msg), poll_handler (1, 7) [], OpenSubstream (1, 7) s,
      Negotiated (1, 7) (FullyNegotiatedOutbound s \<lparr>oi_correlation_id = cid, oi_msg = msg\<rparr>),
      Negotiated (2, 7) (FullyNegotiatedInbound s), poll_handler (2, 7) picks,
      CallBehaviour 2 (HandlerEvent 101 7 (Request cid msg cid)), CallBehaviour 2 PollPass]"

abbreviation answer :: "u64 \<Rightarrow> RaftMessage \<Rightarrow> (nat, nat, nat) StackInput list" where
  "answer cid msg \<equiv>
     [ToHandler (2, 7) (SendResponse cid cid msg), poll_handler (1, 7) [0],
      CallBehaviour 1 (HandlerEvent 102 7 (Response cid msg))]"

definition duo_stack :: "(nat, nat, nat) StackInput list" where
  "duo_stack =
     [CallBehaviour 1 (SwarmEvent (ConnectionEstablished 102 7)),
      CallBehaviour 1 PollPass, CallBehaviour 1 PollPass, CallBehaviour 1 PollPass] @
     ask 0 1 vote_req [0] @ [CallBehaviour 2 PollPass, CallBehaviour 2 PollPass] @ answer 1 vote_resp @
     [CallBehaviour 1 (Propose [5]), CallBehaviour 1 PollPass, CallBehaviour 1 PollPass] @
     ask 1 2 append_req [0, 0] @ answer 2 append_resp @
     [CallBehaviour 1 PollPass, CallBehaviour 1 PollPass] @ ask 2 3 commit_req [0, 0]"

lemma duo_bincode: "bincode_law duo_ser duo_deser"
  by (auto simp: bincode_law_def duo_ser_def duo_deser_def split: if_splits)

lemma duo_wiring: "wiring duo_owner duo_remote duo_far"
proof -
  have "3 - n \<noteq> n" for n :: NodeId
  proof
    assume "3 - n = n"
    then have "3 = n + n" by (simp add: diff_eq_eq)
    moreover have "even (n + n)" by simp
    ultimately have "even (3 :: NodeId)" by simp
    then show False by simp
  qed
  then show ?thesis by (auto simp: wiring_def duo_far_def duo_remote_def duo_owner_def)
qed

lemma write_duo:
  "write_frame duo_ser (Inr ()) (Inr ()) (envelope 1 vote_req) = Inr [0, 0, 0, 1, 1]"
  "write_frame duo_ser (Inr ()) (Inr ()) (envelope 1 vote_resp) = Inr [0, 0, 0, 1, 2]"
  "write_frame duo_ser (Inr ()) (Inr ()) (envelope 2 append_req) = Inr [0, 0, 0, 1, 3]"
  "write_frame duo_ser (Inr ()) (Inr ()) (envelope 2 append_resp) = Inr [0, 0, 0, 1, 4]"
  "write_frame duo_ser (Inr ()) (Inr ()) (envelope 3 commit_req) = Inr [0, 0, 0, 1, 5]"
  by (simp_all add: write_frame_def encode_envelope_def duo_ser_def u32_be_def MAX_FRAME_BYTES_def)

lemma read_duo:
  "read_frame duo_deser io [0, 0, 0, 1, 1] = Inr (envelope 1 vote_req)"
  "read_frame duo_deser io [0, 0, 0, 1, 2] = Inr (envelope 1 vote_resp)"
  "read_frame duo_deser io [0, 0, 0, 1, 3] = Inr (envelope 2 append_req)"
  "read_frame duo_deser io [0, 0, 0, 1, 4] = Inr (envelope 2 append_resp)"
  "read_frame duo_deser io [0, 0, 0, 1, 5] = Inr (envelope 3 commit_req)"
  using write_duo [THEN frame_read [OF duo_bincode], of io "[]"] by simp_all

lemma duo_stack_run:
  "case stack_run within_limits {1, 2} duo_remote duo_far duo_ser duo_deser sorted_list_of_set (stack_init duo_init) duo_stack of
    None \<Rightarrow> False
  | Some W \<Rightarrow> (1, GenerateEvent (Committed [duo_entry])) \<in> returned (st_net W) \<and>
      (2, GenerateEvent (Committed [duo_entry])) \<in> returned (st_net W)"
  by (simp add: duo_eval duo_stack_def stack_init_def duo_far_def duo_remote_def put_frame_def put_frames_def new_frames_def write_duo read_duo
      RaftHandler_new_def handler_poll.simps push_inbound_read_def push_outbound_io_def alloc_channel_id_def
      push_inbound_write_def drop_tx_def remove_nth_def cong: let_weak_cong)

theorem stack_agrees_witness:
  "\<exists>W. stack_run within_limits {1, 2} duo_remote duo_far duo_ser duo_deser sorted_list_of_set (stack_init duo_init) duo_stack = Some W \<and>
     net_reachable within_limits {1, 2} duo_owner duo_init (st_net W) \<and> (1, GenerateEvent (Committed [duo_entry])) \<in> returned (st_net W) \<and>
     (\<forall>es' y. (2, GenerateEvent (Committed es')) \<in> returned (st_net W) \<and> y \<in> set es' \<and> le_index y = 1 \<longrightarrow> y = duo_entry)"
proof -
  let ?run = "stack_run within_limits {1, 2} duo_remote duo_far duo_ser duo_deser sorted_list_of_set (stack_init duo_init) duo_stack"
  obtain W where W: "?run = Some W" "(1, GenerateEvent (Committed [duo_entry])) \<in> returned (st_net W)"
    using duo_stack_run by (auto split: option.splits)
  have "stack_reachable within_limits {1, 2} duo_remote duo_far duo_ser duo_deser (stack_init duo_init) W"
    by (rule stack_run_reachable [OF hash_order_sorted stack_reachable.start W(1)])
  note agrees = stack_agrees [OF duo_bincode duo_wiring duo_ready this [unfolded duo_init_def]]
  have "y = duo_entry" if "(2, GenerateEvent (Committed es')) \<in> returned (st_net W)" "y \<in> set es'" "le_index y = 1" for es' y
    using conjunct2 [OF conjunct2 [OF agrees]] W(2) that by fastforce
  with agrees W show ?thesis by (auto simp: duo_init_def)
qed

end
