(* ===== verification/NodeConfig.thy ===== *)
theory NodeConfig
  imports PeerMap Codec
begin

text \<open>
  \<open>src/node_identity.rs\<close> and \<open>src/cluster_config.rs\<close>: the deterministic identity of a node and the
  static topology read from a TOML file. The outside world is the record \<open>NodeWorld\<close>: files, the TOML
  parser, name resolution, the Multiaddr parser, and libp2p's ed25519 keys (a secret key stands
  for the keypair made from it). An address of the standard library is represented by its text.
\<close>

subsection \<open>The world\<close>

datatype IpAddr = V4 string | V6 string

record ClusterNodeSpec =
  cn_id :: NodeId
  cn_host :: string
  cn_port :: u16

record ClusterConfig =
  cc_voters :: "NodeId list"
  propose_hello_node :: "NodeId option"
  cc_nodes :: "ClusterNodeSpec list"

record ('p, 'a, 'k) NodeWorld =
  w_env :: "string \<Rightarrow> string option"
  w_is_file :: "string \<Rightarrow> bool"
  w_read_to_string :: "string \<Rightarrow> string + string"
  w_toml :: "string \<Rightarrow> string + ClusterConfig"
  w_socket_addrs :: "string \<Rightarrow> u16 \<Rightarrow> string + IpAddr list"
  w_multiaddr :: "string \<Rightarrow> string + 'a"
  w_secret_key :: "u8 list \<Rightarrow> string + 'k"
  w_peer_id :: "'k \<Rightarrow> 'p"

subsection \<open>Node identity\<close>

definition str_bytes :: "string \<Rightarrow> u8 list" where
  "str_bytes s = map (\<lambda>c. of_nat (of_char c)) s"

text \<open>\<open>let mut seed = [0u8; 32]; seed[0] = node_id as u8; seed[1..9].copy_from_slice(b"libp2prf")\<close>.\<close>

definition node_seed :: "NodeId \<Rightarrow> u8 list" where
  "node_seed node_id =
     (let seed = (replicate 32 0)[0 := ucast node_id]
      in take 1 seed @ str_bytes ''libp2prf'' @ drop 9 seed)"

definition keypair_for_node :: "('p, 'a, 'k) NodeWorld \<Rightarrow> NodeId \<Rightarrow> Error + 'k" where
  "keypair_for_node w node_id =
     (case w_secret_key w (node_seed node_id) of
        Inl e \<Rightarrow> Inl (Rpc (''invalid node key seed: '' @ e))
      | Inr secret \<Rightarrow> Inr secret)"

definition peer_id_for_node :: "('p, 'a, 'k) NodeWorld \<Rightarrow> NodeId \<Rightarrow> Error + 'p" where
  "peer_id_for_node w node_id =
     (case keypair_for_node w node_id of Inl e \<Rightarrow> Inl e | Inr kp \<Rightarrow> Inr (w_peer_id w kp))"

subsection \<open>Cluster configuration\<close>

definition ClusterConfig_load :: "('p, 'a, 'k) NodeWorld \<Rightarrow> string \<Rightarrow> string + ClusterConfig" where
  "ClusterConfig_load w path =
     (case w_read_to_string w path of
        Inl e \<Rightarrow> Inl (''read cluster config '' @ path @ '': '' @ e)
      | Inr raw \<Rightarrow>
          (case w_toml w raw of
             Inl e \<Rightarrow> Inl (''parse cluster config '' @ path @ '': '' @ e)
           | Inr c \<Rightarrow> Inr c))"

definition node_ids :: "ClusterConfig \<Rightarrow> NodeId list" where
  "node_ids c = map cn_id (cc_nodes c)"

definition listen_port :: "ClusterConfig \<Rightarrow> NodeId \<Rightarrow> u16 option" where
  "listen_port c node_id = map_option cn_port (find (\<lambda>n. cn_id n = node_id) (cc_nodes c))"

definition show_port :: "u16 \<Rightarrow> string" where
  "show_port p = show_nat (unat p)"

definition resolve_host_port :: "('p, 'a, 'k) NodeWorld \<Rightarrow> string \<Rightarrow> u16 \<Rightarrow> string + 'a" where
  "resolve_host_port w host port =
     (case w_socket_addrs w host port of
        Inl e \<Rightarrow> Inl (''resolve '' @ host @ '':'' @ show_port port @ '': '' @ e)
      | Inr [] \<Rightarrow> Inl (''could not resolve '' @ host @ '':'' @ show_port port)
      | Inr (ip # _) \<Rightarrow>
          (case w_multiaddr w
                  (case ip of
                     V4 text \<Rightarrow> ''/ip4/'' @ text @ ''/tcp/'' @ show_port port
                   | V6 text \<Rightarrow> ''/ip6/'' @ text @ ''/tcp/'' @ show_port port) of
             Inl e \<Rightarrow> Inl (''multiaddr for '' @ host @ '':'' @ show_port port @ '': '' @ e)
           | Inr addr \<Rightarrow> Inr addr))"

text \<open>The loop of \<open>seed_peers\<close>: the first host or key that fails ends it.\<close>

fun seed_peers_of ::
  "('p, 'a, 'k) NodeWorld \<Rightarrow> NodeId \<Rightarrow> ClusterNodeSpec list \<Rightarrow> string + ('p, 'a) SeedPeer list" where
  "seed_peers_of w self [] = Inr []"
| "seed_peers_of w self (n # ns) =
     (if cn_id n = self then seed_peers_of w self ns
      else
        (case resolve_host_port w (cn_host n) (cn_port n) of
           Inl e \<Rightarrow> Inl e
         | Inr addr \<Rightarrow>
             (case peer_id_for_node w (cn_id n) of
                Inl e \<Rightarrow> Inl (''peer id for node '' @ show_nat (unat (cn_id n)) @ '': '' @ show_error e)
              | Inr peer \<Rightarrow>
                  (case seed_peers_of w self ns of
                     Inl e \<Rightarrow> Inl e
                   | Inr out \<Rightarrow> Inr (\<lparr>sp_node_id = cn_id n, sp_peer_id = peer, sp_addrs = [addr]\<rparr> # out)))))"

definition seed_peers :: "('p, 'a, 'k) NodeWorld \<Rightarrow> ClusterConfig \<Rightarrow> NodeId \<Rightarrow> string + ('p, 'a) SeedPeer list" where
  "seed_peers w c self = seed_peers_of w self (cc_nodes c)"

subsection \<open>Lemmas\<close>

text \<open>
  What is relied on of ed25519 and of peer ids, for the 256 seeds \<open>node_seed\<close> can give: 32 bytes are a secret key
  (\<open>SecretKey::try_from_bytes\<close> only checks the length), and the public keys of these seeds, which a peer id contains
  as they are, differ. Nothing is asked of any other seed.
\<close>

definition key_law :: "('p, 'a, 'k) NodeWorld \<Rightarrow> bool" where
  "key_law w \<longleftrightarrow> (\<forall>n. \<not> isl (w_secret_key w (node_seed n))) \<and>
     inj_on (\<lambda>s. w_peer_id w (projr (w_secret_key w s))) (range node_seed)"

lemma node_seed_eq: "node_seed n = ucast n # str_bytes ''libp2prf'' @ replicate 23 0"
proof -
  have "take 1 ((replicate 32 0)[0 := ucast n]) = [ucast n :: u8]"
    by (simp add: numeral_eq_Suc)
  moreover have "drop 9 ((replicate 32 0)[0 := ucast n]) = replicate 23 (0 :: u8)"
    by (simp add: drop_update_cancel)
  ultimately show ?thesis by (simp add: node_seed_def Let_def)
qed

lemma length_node_seed [simp]: "length (node_seed n) = 32"
  by (simp add: node_seed_eq str_bytes_def)

lemma node_seed_inject: "node_seed m = node_seed n \<longleftrightarrow> m mod 256 = n mod 256"
proof -
  have "(ucast m :: u8) = ucast n \<longleftrightarrow> unat (m mod 256) = unat (n mod 256)"
    by (simp add: word_unat_eq_iff unsigned_ucast_eq unat_mod take_bit_eq_mod)
  then show ?thesis by (simp add: node_seed_eq word_unat_eq_iff)
qed

lemma peer_id_for_node_eq:
  assumes "key_law w"
  shows "peer_id_for_node w n = Inr (w_peer_id w (projr (w_secret_key w (node_seed n))))"
  using assms by (cases "w_secret_key w (node_seed n)")
    (auto simp: key_law_def peer_id_for_node_def keypair_for_node_def dest: spec [of _ n])

lemma peer_id_for_node_inject:
  assumes "key_law w"
  shows "peer_id_for_node w m = peer_id_for_node w n \<longleftrightarrow> m mod 256 = n mod 256"
  using assms unfolding peer_id_for_node_eq [OF assms] node_seed_inject [symmetric] key_law_def
  by (auto dest: inj_onD)

lemma seed_peers_of_nodes:
  "seed_peers_of w self ns = Inr seeds \<Longrightarrow> map sp_node_id seeds = filter (\<lambda>n. n \<noteq> self) (map cn_id ns)"
  by (induction ns arbitrary: seeds) (auto split: if_splits sum.splits)

lemma seed_peers_of_ids:
  "seed_peers_of w self ns = Inr seeds \<Longrightarrow> s \<in> set seeds \<Longrightarrow>
    peer_id_for_node w (sp_node_id s) = Inr (sp_peer_id s) \<and>
    (\<exists>n \<in> set ns. cn_id n = sp_node_id s \<and> (\<exists>a. resolve_host_port w (cn_host n) (cn_port n) = Inr a \<and> sp_addrs s = [a]))"
  by (induction ns arbitrary: seeds) (auto split: if_splits sum.splits)

lemma seed_peers_distinct:
  assumes "key_law w" "seed_peers w c self = Inr seeds"
    and "distinct (map (\<lambda>n. cn_id n mod 256) (cc_nodes c))"
  shows "seeds_distinct seeds"
proof -
  have ids: "map sp_node_id seeds = filter (\<lambda>n. n \<noteq> self) (node_ids c)"
    using seed_peers_of_nodes assms(2) by (auto simp: seed_peers_def node_ids_def)
  have inj: "inj_on (\<lambda>n. n mod 256) (set (node_ids c))" and d: "distinct (node_ids c)"
    using assms(3) by (auto simp: node_ids_def distinct_map inj_on_def)
  have peer: "sp_peer_id s = w_peer_id w (projr (w_secret_key w (node_seed (sp_node_id s))))" if "s \<in> set seeds" for s
    using seed_peers_of_ids [OF assms(2) [unfolded seed_peers_def] that] peer_id_for_node_eq [OF assms(1)] by simp
  have "r = s" if "r \<in> set seeds" "s \<in> set seeds" "sp_peer_id r = sp_peer_id s" "sp_node_id r = sp_node_id s \<longrightarrow> r = s" for r s
  proof -
    have "peer_id_for_node w (sp_node_id r) = peer_id_for_node w (sp_node_id s)"
      using that(3) peer that(1,2) peer_id_for_node_eq [OF assms(1)] by simp
    then have "sp_node_id r mod 256 = sp_node_id s mod 256" using peer_id_for_node_inject [OF assms(1)] by simp
    moreover have "sp_node_id r \<in> set (node_ids c)" "sp_node_id s \<in> set (node_ids c)"
      using that(1,2) arg_cong [OF ids, of set] by auto
    ultimately show ?thesis using inj that(4) by (auto dest: inj_onD)
  qed
  moreover have "distinct (map sp_node_id seeds)" unfolding ids using d by simp
  ultimately show ?thesis by (auto simp: seeds_distinct_def distinct_map inj_on_def)
qed

text \<open>
  C36: In a cluster whose node ids differ modulo 256, if the 256 seeds the program can use give keys with different
  peer ids, the seeds computed from the topology give a peer map that knows every other node: its id resolves to the
  peer id of its key and to the address its host resolved to, and that peer id resolves back to the node and to no other.
\<close>

theorem cluster_peers_resolve:
  assumes "key_law w" "seed_peers w c self = Inr seeds"
    and "distinct (map (\<lambda>n. cn_id n mod 256) (cc_nodes c))" "n \<in> set (cc_nodes c)" "cn_id n \<noteq> self"
  shows "\<exists>p a. peer_id_for_node w (cn_id n) = Inr p \<and> resolve_host_port w (cn_host n) (cn_port n) = Inr a \<and>
    pm_peer_id (from_seeds seeds) (cn_id n) = Some p \<and> pm_addrs_of (from_seeds seeds) (cn_id n) = Some [a] \<and>
    pm_node_id (from_seeds seeds) p = Some (cn_id n)"
proof -
  have "cn_id n \<in> set (map sp_node_id seeds)"
    using seed_peers_of_nodes [OF assms(2) [unfolded seed_peers_def]] assms(4,5) by auto
  then obtain s where s: "s \<in> set seeds" "sp_node_id s = cn_id n" by auto
  from seed_peers_of_ids [OF assms(2) [unfolded seed_peers_def] s(1)] obtain m a where
    m: "peer_id_for_node w (cn_id n) = Inr (sp_peer_id s)" "m \<in> set (cc_nodes c)" "cn_id m = cn_id n"
      "resolve_host_port w (cn_host m) (cn_port m) = Inr a" "sp_addrs s = [a]"
    using s(2) by auto
  have "m = n" using assms(3,4) m(2,3) by (auto simp: distinct_map inj_on_def)
  with from_seeds_lookup [OF seed_peers_distinct [OF assms(1-3)]] s m show ?thesis by blast
qed

text \<open>A world in which the key of a seed is the seed, every host resolves and the address is its text.\<close>

definition demo_world :: "(u8 list, string, u8 list) NodeWorld" where
  "demo_world =
     \<lparr>w_env = Map.empty, w_is_file = (\<lambda>p. False), w_read_to_string = Inr, w_toml = (\<lambda>s. Inl s),
      w_socket_addrs = (\<lambda>h p. Inr [V4 h]), w_multiaddr = Inr, w_secret_key = Inr, w_peer_id = (\<lambda>k. k)\<rparr>"

definition demo_cluster :: ClusterConfig where
  "demo_cluster = \<lparr>cc_voters = [1, 2], propose_hello_node = None,
     cc_nodes = [\<lparr>cn_id = 1, cn_host = ''10.0.0.1'', cn_port = 41\<rparr>, \<lparr>cn_id = 2, cn_host = ''10.0.0.2'', cn_port = 42\<rparr>]\<rparr>"

lemma demo_key_law: "key_law demo_world"
  by (simp add: key_law_def demo_world_def inj_on_def)

theorem cluster_peers_resolve_witness:
  "\<exists>seeds. seed_peers demo_world demo_cluster 1 = Inr seeds \<and>
     pm_addrs_of (from_seeds seeds) 2 = Some [''/ip4/10.0.0.2/tcp/42'']"
proof -
  let ?n = "\<lparr>cn_id = 2, cn_host = ''10.0.0.2'', cn_port = 42\<rparr>"
  have a: "resolve_host_port demo_world ''10.0.0.2'' 42 = Inr ''/ip4/10.0.0.2/tcp/42''"
    by code_simp
  obtain seeds where s: "seed_peers demo_world demo_cluster 1 = Inr seeds"
    using a peer_id_for_node_eq [OF demo_key_law] by (simp add: seed_peers_def demo_cluster_def)
  have "distinct (map (\<lambda>n. cn_id n mod 256) (cc_nodes demo_cluster))" "?n \<in> set (cc_nodes demo_cluster)"
    by (simp_all add: demo_cluster_def)
  from cluster_peers_resolve [OF demo_key_law s this] a s show ?thesis by auto
qed

text \<open>
  The peer id of a node depends on its id modulo 256 only (\<open>seed[0] = node_id as u8\<close>): two ids that
  agree there have the same identity, whatever the key library does, although \<open>NodeId\<close> is 64 bits wide.
\<close>

lemma identity_mod_256:
  assumes "m mod 256 = n mod 256"
  shows "keypair_for_node w m = keypair_for_node w n \<and> peer_id_for_node w m = peer_id_for_node w n"
proof -
  have "node_seed m = node_seed n" using assms node_seed_inject by blast
  then show ?thesis by (simp add: keypair_for_node_def peer_id_for_node_def)
qed

lemma identity_mod_256_demo: "peer_id_for_node demo_world 1 = peer_id_for_node demo_world 257"
  using identity_mod_256 [of 1 257 demo_world] by simp

end
