(* ===== verification/RaftNode.thy ===== *)
theory RaftNode
  imports NodeConfig Behaviour
begin

text \<open>
  \<open>src/bin/raft-node.rs\<close>: the command-line program around the behaviour. Its environment, files, clock
  and name resolution are the worlds \<open>w 0, w 1, \<dots>\<close> of its successive looks at them; what it prints is a list
  of lines. Strings are ASCII. Building the swarm and opening the listening socket (libp2p) are left out.
\<close>

subsection \<open>Parsing numbers and lists\<close>

text \<open>\<open>str::split\<close> at a character, \<open>str::trim\<close>.\<close>

fun split_on :: "char \<Rightarrow> string \<Rightarrow> string list" where
  "split_on d [] = [[]]"
| "split_on d (c # cs) =
     (if c = d then [] # split_on d cs
      else (case split_on d cs of p # ps \<Rightarrow> (c # p) # ps | [] \<Rightarrow> [[c]]))"

definition is_space :: "char \<Rightarrow> bool" where
  "is_space c \<longleftrightarrow> (of_char c :: nat) \<in> {9, 10, 11, 12, 13, 32}"

definition trim :: "string \<Rightarrow> string" where
  "trim s = rev (dropWhile is_space (rev (dropWhile is_space s)))"

text \<open>\<open>u64::from_str\<close> and \<open>u16::from_str\<close>.\<close>

datatype ParseIntError = EmptyNumber | InvalidDigit | PosOverflow

fun show_parse_error :: "ParseIntError \<Rightarrow> string" where
  "show_parse_error EmptyNumber = ''cannot parse integer from empty string''"
| "show_parse_error InvalidDigit = ''invalid digit found in string''"
| "show_parse_error PosOverflow = ''number too large to fit in target type''"

definition to_digit :: "char \<Rightarrow> nat option" where
  "to_digit c = (let n = of_char c in if 48 \<le> n \<and> n < 58 then Some (n - 48) else None)"

fun parse_digits :: "nat \<Rightarrow> nat \<Rightarrow> string \<Rightarrow> ParseIntError + nat" where
  "parse_digits maximum acc [] = Inr acc"
| "parse_digits maximum acc (c # cs) =
     (case to_digit c of
        None \<Rightarrow> Inl InvalidDigit
      | Some d \<Rightarrow> if acc * 10 + d \<le> maximum then parse_digits maximum (acc * 10 + d) cs else Inl PosOverflow)"

definition parse_uint :: "nat \<Rightarrow> string \<Rightarrow> ParseIntError + nat" where
  "parse_uint maximum s =
     (if s = [] then Inl EmptyNumber
      else if s = ''+'' \<or> s = ''-'' then Inl InvalidDigit
      else if hd s = CHR ''+'' then parse_digits maximum 0 (tl s)
      else parse_digits maximum 0 s)"

definition parse_u64 :: "string \<Rightarrow> ParseIntError + u64" where
  "parse_u64 s = map_sum (\<lambda>e. e) of_nat (parse_uint 18446744073709551615 s)"

definition parse_u16 :: "string \<Rightarrow> ParseIntError + u16" where
  "parse_u16 s = map_sum (\<lambda>e. e) of_nat (parse_uint 65535 s)"

text \<open>\<open>collect()\<close> into a \<open>Result\<close>: the first error ends it.\<close>

fun collect_results :: "('e + 'x) list \<Rightarrow> 'e + 'x list" where
  "collect_results [] = Inr []"
| "collect_results (Inl e # rs) = Inl e"
| "collect_results (Inr x # rs) = (case collect_results rs of Inl e \<Rightarrow> Inl e | Inr xs \<Rightarrow> Inr (x # xs))"

definition comma_list :: "string \<Rightarrow> string list" where
  "comma_list raw = filter (\<lambda>s. s \<noteq> []) (map trim (split_on (CHR '','') raw))"

definition parse_voters :: "string \<Rightarrow> string + u64 list" where
  "parse_voters raw =
     (case collect_results (map parse_u64 (comma_list raw)) of
        Inl e \<Rightarrow> Inl (show_parse_error e)
      | Inr vs \<Rightarrow> if vs = [] then Inl ''RAFT_VOTERS must list at least one node id'' else Inr vs)"

text \<open>One entry of \<open>RAFT_PEERS\<close>; \<open>None\<close> is the node itself, which is skipped.\<close>

definition parse_peer :: "('p, 'a, 'k) NodeWorld \<Rightarrow> NodeId \<Rightarrow> string \<Rightarrow> string + ('p, 'a) SeedPeer option" where
  "parse_peer w self part =
     (let fields = split_on (CHR '':'') part in
      case parse_u64 (hd fields) of
        Inl e \<Rightarrow> Inl (''peer node_id: '' @ show_parse_error e)
      | Inr node \<Rightarrow>
          if node = self then Inr None
          else
            (case tl fields of
               [] \<Rightarrow> Inl ''peer entry missing host''
             | host # others \<Rightarrow>
                 (case others of
                    [] \<Rightarrow> Inl ''peer entry missing port''
                  | p # _ \<Rightarrow>
                      (case parse_u16 p of
                         Inl e \<Rightarrow> Inl (''peer port: '' @ show_parse_error e)
                       | Inr port \<Rightarrow>
                           (case resolve_host_port w host port of
                              Inl e \<Rightarrow> Inl e
                            | Inr addr \<Rightarrow>
                                (case peer_id_for_node w node of
                                   Inl e \<Rightarrow> Inl (show_error e)
                                 | Inr peer \<Rightarrow> Inr (Some \<lparr>sp_node_id = node, sp_peer_id = peer,
                                                       sp_addrs = [addr]\<rparr>)))))))"

definition parse_peers_legacy ::
  "('p, 'a, 'k) NodeWorld \<Rightarrow> string \<Rightarrow> NodeId \<Rightarrow> string + ('p, 'a) SeedPeer list" where
  "parse_peers_legacy w raw self =
     (case collect_results (map (parse_peer w self) (comma_list raw)) of
        Inl e \<Rightarrow> Inl e
      | Inr os \<Rightarrow> Inr (concat (map (\<lambda>oo. case oo of Some s \<Rightarrow> [s] | None \<Rightarrow> []) os)))"

subsection \<open>Resolving the seeds with retries\<close>

text \<open>
  The loop of \<open>seed_peers_with_retry\<close>: \<open>load i\<close> is the result of attempt \<open>i\<close>, \<open>clk (Suc i)\<close> the clock
  after it failed. The result carries the number of the last attempt; \<open>None\<close> is a loop that does not end.
\<close>

definition secs :: "nat \<Rightarrow> Duration" where
  "secs n = n * 1000000000"

partial_function (option) retry_loop ::
  "(nat \<Rightarrow> string + 'x) \<Rightarrow> (nat \<Rightarrow> Instant) \<Rightarrow> Instant \<Rightarrow> nat \<Rightarrow> (nat \<times> (string + 'x)) option" where
  "retry_loop load clk deadline i =
     (case load i of
        Inr peers \<Rightarrow> Some (i, Inr peers)
      | Inl e \<Rightarrow> if clk (Suc i) < deadline then retry_loop load clk deadline (Suc i) else Some (i, Inl e))"

definition seed_peers_with_retry ::
  "(nat \<Rightarrow> string + 'x) \<Rightarrow> (nat \<Rightarrow> Instant) \<Rightarrow> (nat \<times> (string + 'x)) option" where
  "seed_peers_with_retry load clk = retry_loop load clk (clk 0 + secs 60) 0"

subsection \<open>Configuration\<close>

definition DEFAULT_CLUSTER_CONFIG :: string where
  "DEFAULT_CLUSTER_CONFIG = ''config/cluster.local.toml''"

definition cluster_config_path :: "('p, 'a, 'k) NodeWorld \<Rightarrow> string" where
  "cluster_config_path w =
     (case w_env w ''CLUSTER_CONFIG'' of Some p \<Rightarrow> p | None \<Rightarrow> DEFAULT_CLUSTER_CONFIG)"

definition env_u64 :: "('p, 'a, 'k) NodeWorld \<Rightarrow> string \<Rightarrow> u64 \<Rightarrow> u64" where
  "env_u64 w name fallback =
     (case w_env w name of
        None \<Rightarrow> fallback
      | Some v \<Rightarrow> (case parse_u64 v of Inr n \<Rightarrow> n | Inl _ \<Rightarrow> fallback))"

text \<open>\<open>Duration::from_millis\<close>.\<close>

definition from_millis :: "u64 \<Rightarrow> Duration" where
  "from_millis ms = unat ms * 1000000"

definition build_config ::
  "('p, 'a, 'k) NodeWorld \<Rightarrow> NodeId \<Rightarrow> NodeId list \<Rightarrow> ('p, 'a) SeedPeer list \<Rightarrow> ('p, 'a) RaftConfig" where
  "build_config w node_id vs seeds =
     (let election_base = env_u64 w ''ELECTION_TIMEOUT_MS'' (500 + node_id * 200);
          jitter = env_u64 w ''ELECTION_JITTER_MS'' (10 + node_id * 30)
      in \<lparr>cfg_node_id = node_id, cfg_voters = vs, cfg_seed_peers = seeds,
          cfg_election_timeout = from_millis election_base, cfg_election_jitter = from_millis jitter,
          cfg_heartbeat_interval = from_millis (env_u64 w ''HEARTBEAT_MS'' 100),
          cfg_rpc_timeout = from_millis (env_u64 w ''RPC_TIMEOUT_MS'' 500),
          cfg_rpc_max_retries = 0, cfg_snapshot_threshold = 10000\<rparr>)"

record ('p, 'a) NodeRuntimeConfig =
  rt_voters :: "NodeId list"
  rt_seed_peers :: "('p, 'a) SeedPeer list"
  rt_listen_port :: u16
  rt_propose_hello :: bool

text \<open>\<open>str::eq_ignore_ascii_case\<close> with the lower-case \<open>true\<close>.\<close>

definition ascii_lower :: "char \<Rightarrow> char" where
  "ascii_lower c = (let n = (of_char c :: nat) in if 65 \<le> n \<and> n \<le> 90 then char_of (n + 32) else c)"

definition env_propose_hello :: "('p, 'a, 'k) NodeWorld \<Rightarrow> bool" where
  "env_propose_hello w =
     (case w_env w ''PROPOSE_HELLO'' of
        None \<Rightarrow> False
      | Some v \<Rightarrow> v = ''1'' \<or> map ascii_lower v = ''true'')"

definition load_from_cluster ::
  "('p, 'a, 'k) NodeWorld \<Rightarrow> string \<Rightarrow> NodeId \<Rightarrow> string + ('p, 'a) NodeRuntimeConfig" where
  "load_from_cluster w path node_id =
     (case ClusterConfig_load w path of
        Inl e \<Rightarrow> Inl e
      | Inr cluster \<Rightarrow>
          (case listen_port cluster node_id of
             None \<Rightarrow> Inl (''node '' @ show_nat (unat node_id) @ '' not defined in '' @ path)
           | Some port \<Rightarrow>
               (let hello = (propose_hello_node cluster = Some node_id \<or> env_propose_hello w) in
                case seed_peers w cluster node_id of
                  Inl e \<Rightarrow> Inl e
                | Inr seeds \<Rightarrow> Inr \<lparr>rt_voters = cc_voters cluster, rt_seed_peers = seeds,
                                  rt_listen_port = port, rt_propose_hello = hello\<rparr>)))"

text \<open>
  \<open>w i\<close> is the world at attempt \<open>i\<close> of the retry loop; the program reads it once more after the loop. The
  outer option is the retry loop's.
\<close>

definition load_runtime_config ::
  "(nat \<Rightarrow> ('p, 'a, 'k) NodeWorld) \<Rightarrow> (nat \<Rightarrow> Instant) \<Rightarrow> NodeId \<Rightarrow> (string + ('p, 'a) NodeRuntimeConfig) option" where
  "load_runtime_config w clk node_id =
     (let path = cluster_config_path (w 0) in
      if w_is_file (w 0) path then
        (case seed_peers_with_retry
                (\<lambda>i. case ClusterConfig_load (w i) path of Inl e \<Rightarrow> Inl e | Inr c \<Rightarrow> seed_peers (w i) c node_id) clk of
           None \<Rightarrow> None
         | Some (_, Inl e) \<Rightarrow> Some (Inl e)
         | Some (i, Inr seeds) \<Rightarrow>
             (case load_from_cluster (w (Suc i)) path node_id of
                Inl e \<Rightarrow> Some (Inl e)
              | Inr rt \<Rightarrow> Some (Inr (rt\<lparr>rt_seed_peers := seeds\<rparr>))))
      else
        let voters_raw = (case w_env (w 0) ''RAFT_VOTERS'' of Some v \<Rightarrow> v | None \<Rightarrow> ''1,2,3'') in
        case parse_voters voters_raw of
          Inl e \<Rightarrow> Some (Inl e)
        | Inr vs \<Rightarrow>
            (let port = ucast (env_u64 (w 0) ''LISTEN_PORT'' (4100 + node_id));
                 peers_raw = (case w_env (w 0) ''RAFT_PEERS'' of Some v \<Rightarrow> v | None \<Rightarrow> [])
             in case seed_peers_with_retry (\<lambda>i. parse_peers_legacy (w i) peers_raw node_id) clk of
                  None \<Rightarrow> None
                | Some (_, Inl e) \<Rightarrow> Some (Inl e)
                | Some (i, Inr seeds) \<Rightarrow>
                    Some (Inr \<lparr>rt_voters = vs, rt_seed_peers = seeds, rt_listen_port = port,
                             rt_propose_hello = env_propose_hello (w (Suc i))\<rparr>)))"

subsection \<open>main\<close>

text \<open>\<open>--list-nodes\<close>: the lines it prints.\<close>

definition list_nodes :: "('p, 'a, 'k) NodeWorld \<Rightarrow> string + string list" where
  "list_nodes w =
     (case ClusterConfig_load w (cluster_config_path w) of
        Inl e \<Rightarrow> Inl e
      | Inr cluster \<Rightarrow> Inr (map (\<lambda>n. show_nat (unat n)) (node_ids cluster)))"

text \<open>
  \<open>main\<close> up to the swarm: the node list for \<open>--list-nodes\<close>, or the configuration of the behaviour with the
  keypair, the listen address and whether to propose.
\<close>

datatype ('p, 'a, 'k) Startup =
    Listed "string list"
  | Configured "('p, 'a) RaftConfig" 'k 'a bool

definition main_startup ::
  "(nat \<Rightarrow> ('p, 'a, 'k) NodeWorld) \<Rightarrow> (nat \<Rightarrow> Instant) \<Rightarrow> string list \<Rightarrow> (string + ('p, 'a, 'k) Startup) option" where
  "main_startup w clk args =
     (if ''--list-nodes'' \<in> set args then Some (map_sum (\<lambda>e. e) Listed (list_nodes (w 0)))
      else
        let node_id = env_u64 (w 0) ''NODE_ID'' 0 in
        if node_id = 0 then Some (Inl ''NODE_ID must be set (e.g. 1..5)'')
        else
          (case load_runtime_config w clk node_id of
             None \<Rightarrow> None
           | Some (Inl e) \<Rightarrow> Some (Inl e)
           | Some (Inr rt) \<Rightarrow>
               (case keypair_for_node (w 0) node_id of
                  Inl e \<Rightarrow> Some (Inl (show_error e))
                | Inr kp \<Rightarrow>
                    (case w_multiaddr (w 0) (''/ip4/0.0.0.0/tcp/'' @ show_port (rt_listen_port rt)) of
                       Inl e \<Rightarrow> Some (Inl e)
                     | Inr listen \<Rightarrow>
                         Some (Inr (Configured (build_config (w 0) node_id (rt_voters rt) (rt_seed_peers rt))
                           kp listen (rt_propose_hello rt)))))))"

text \<open>Dialling the seeds once the node listens.\<close>

definition dial_seeds :: "('p, 'a) SeedPeer list \<Rightarrow> ('p, 'a, 'c) RaftBehaviour \<Rightarrow> ('p, 'a, 'c) RaftBehaviour" where
  "dial_seeds seeds b = fold (\<lambda>seed b. dial_seed b (sp_peer_id seed)) seeds b"

text \<open>
  \<open>handle_event\<close>: what it prints and what becomes of \<open>stable_leader_since\<close>. The texts of peer ids, addresses
  and payloads are those of \<open>Display\<close> and \<open>Debug\<close>, given as functions.
\<close>

datatype ('p, 'a) SwarmEvent =
    BehaviourEvent "'p Event"
  | NewListenAddr 'a
  | SwarmConnectionEstablished 'p
  | SwarmConnectionClosed 'p
  | OtherEvent

datatype Line = Stdout string | Stderr string

fun show_role :: "Role \<Rightarrow> string" where
  "show_role Follower = ''Follower''"
| "show_role Candidate = ''Candidate''"
| "show_role Leader = ''Leader''"

fun handle_event ::
  "('p \<Rightarrow> string) \<Rightarrow> ('a \<Rightarrow> string) \<Rightarrow> (u8 list \<Rightarrow> string) \<Rightarrow> NodeId \<Rightarrow> ('p, 'a) SwarmEvent \<Rightarrow>
    Instant option \<Rightarrow> Instant option \<times> Line list" where
  "handle_event sp sa sd node_id (BehaviourEvent (RoleChanged r t l)) since =
     (if r \<noteq> Leader then None else since,
      [Stdout (''node '' @ show_nat (unat node_id) @ '' -> '' @ show_role r @ '' term='' @ show_nat (unat t))])"
| "handle_event sp sa sd node_id (BehaviourEvent (Committed es)) since =
     (since, map (\<lambda>e. Stdout (''node '' @ show_nat (unat node_id) @ '' Committed index='' @
        show_nat (unat (le_index e)) @ '' data='' @ sd (command_data (entry_type e)))) es)"
| "handle_event sp sa sd node_id (BehaviourEvent (PeerMapped peer node)) since =
     (since, [Stdout (''node '' @ show_nat (unat node_id) @ '' PeerMapped peer='' @ sp peer @ '' node='' @
        show_nat (unat node))])"
| "handle_event sp sa sd node_id (BehaviourEvent (RpcFailed peer error)) since =
     (since, [Stderr (''node '' @ show_nat (unat node_id) @ '' RpcFailed peer='' @ sp peer @ '' error='' @
        show_error error)])"
| "handle_event sp sa sd node_id (NewListenAddr address) since =
     (since, [Stdout (''node '' @ show_nat (unat node_id) @ '' listening on '' @ sa address)])"
| "handle_event sp sa sd node_id (SwarmConnectionEstablished peer) since =
     (since, [Stdout (''node '' @ show_nat (unat node_id) @ '' connected to '' @ sp peer)])"
| "handle_event sp sa sd node_id (SwarmConnectionClosed peer) since =
     (since, [Stdout (''node '' @ show_nat (unat node_id) @ '' disconnected from '' @ sp peer)])"
| "handle_event sp sa sd node_id OtherEvent since = (since, [])"

fun is_new_listen_addr :: "('p, 'a) SwarmEvent \<Rightarrow> bool" where
  "is_new_listen_addr (NewListenAddr address) = True"
| "is_new_listen_addr ev = False"

text \<open>The line \<open>main\<close> prints before it builds the swarm.\<close>

definition starting_line ::
  "('p \<Rightarrow> string) \<Rightarrow> ('a \<Rightarrow> string) \<Rightarrow> NodeId \<Rightarrow> 'p \<Rightarrow> 'a \<Rightarrow> string \<Rightarrow> ('p, 'a) SeedPeer list \<Rightarrow> Line" where
  "starting_line sp sa node_id self_peer listen path seeds =
     Stdout (''starting node_id='' @ show_nat (unat node_id) @ '' peer_id='' @ sp self_peer @ '' listen='' @ sa listen @
       '' config='' @ path @ '' seeds='' @ show_nat (length seeds))"

text \<open>
  Waiting for the listen address. \<open>evs i\<close> is the event the swarm returns next in turn \<open>i\<close> and when, \<open>clk i\<close> the
  reading at which the sleep of that turn starts; at the same instant \<open>select!\<close> takes either, as \<open>tie\<close> says.
  The result is the last turn, and the error or the address seen; \<open>None\<close> is a loop that does not end.
\<close>

partial_function (option) listen_wait ::
  "(nat \<Rightarrow> (Instant \<times> ('p, 'a) SwarmEvent) option) \<Rightarrow> (nat \<Rightarrow> Instant) \<Rightarrow> (nat \<Rightarrow> bool) \<Rightarrow> nat \<Rightarrow>
    (nat \<times> (string + unit)) option" where
  "listen_wait evs clk tie i =
     (case evs i of
        None \<Rightarrow> Some (i, Inl ''timeout waiting for listen address'')
      | Some (t, ev) \<Rightarrow>
          if t < clk i + secs 5 \<or> t = clk i + secs 5 \<and> tie i then
            if is_new_listen_addr ev then Some (i, Inr ()) else listen_wait evs clk tie (Suc i)
          else Some (i, Inl ''timeout waiting for listen address''))"

text \<open>
  The end of each round of the main loop: a stable leader proposes \<open>hello\<close> once. \<open>now\<close> is the clock
  reading of that round; \<open>Inl\<close> is the \<open>?\<close> that ends the program.
\<close>

record Stability =
  stable_leader_since :: "Instant option"
  proposed :: bool

definition hello :: "u8 list" where
  "hello = str_bytes ''hello''"

definition maybe_propose ::
  "NodeId \<Rightarrow> bool \<Rightarrow> Instant \<Rightarrow> ('p, 'a, 'c) RaftBehaviour \<Rightarrow> Stability \<Rightarrow>
    Error + ('p, 'a, 'c) RaftBehaviour \<times> Stability \<times> Line list" where
  "maybe_propose node_id propose_hello now b st =
     (if propose_hello \<and> \<not> proposed st \<and> behaviour_role b = Leader then
        (case stable_leader_since st of
           None \<Rightarrow> Inr (b, st\<lparr>stable_leader_since := Some now\<rparr>, [])
         | Some since \<Rightarrow>
             if now - since \<ge> secs 1 then
               (case behaviour_propose b hello of
                  (b1, Inl e) \<Rightarrow> Inl e
                | (b1, Inr idx) \<Rightarrow>
                    Inr (b1, st\<lparr>proposed := True\<rparr>,
                      [Stdout (''node '' @ show_nat (unat node_id) @ '' proposed hello at index='' @
                         show_nat (unat idx))]))
             else Inr (b, st, []))
      else Inr (b, st, []))"

text \<open>
  A round of the main loop as the behaviour the swarm has left behind, the events it returned, and the
  clock reading at the end.
\<close>

record ('p, 'a, 'c) Round =
  rd_events :: "('p, 'a) SwarmEvent list"
  rd_behaviour :: "('p, 'a, 'c) RaftBehaviour"
  rd_now :: Instant

definition events_handled ::
  "('p \<Rightarrow> string) \<Rightarrow> ('a \<Rightarrow> string) \<Rightarrow> (u8 list \<Rightarrow> string) \<Rightarrow> NodeId \<Rightarrow> ('p, 'a) SwarmEvent list \<Rightarrow>
    Instant option \<Rightarrow> Instant option" where
  "events_handled sp sa sd node_id evs since =
     fold (\<lambda>ev since. fst (handle_event sp sa sd node_id ev since)) evs since"

definition main_round ::
  "('p \<Rightarrow> string) \<Rightarrow> ('a \<Rightarrow> string) \<Rightarrow> (u8 list \<Rightarrow> string) \<Rightarrow> NodeId \<Rightarrow> bool \<Rightarrow> ('p, 'a, 'c) Round \<Rightarrow> Stability \<Rightarrow>
    Error + ('p, 'a, 'c) RaftBehaviour \<times> Stability \<times> Line list" where
  "main_round sp sa sd node_id propose_hello rd st =
     maybe_propose node_id propose_hello (rd_now rd) (rd_behaviour rd)
       (st\<lparr>stable_leader_since := events_handled sp sa sd node_id (rd_events rd) (stable_leader_since st)\<rparr>)"

end
