(* ===== verification/RaftNodeProps.thy ===== *)
theory RaftNodeProps
  imports RaftNode
begin

text \<open>
  Properties of the node program: the voter list it parses, the retry loop of the seeds, the timers it
  configures by default, and the one proposal it makes when it is asked to.
\<close>

subsection \<open>Numbers\<close>

lemma to_digit_char [simp]: "d < 10 \<Longrightarrow> to_digit (char_of (48 + d)) = Some d"
  by (simp add: to_digit_def Let_def of_char_mod_256 unsigned_of_nat)

lemma parse_show_nat:
  "n \<le> maximum \<Longrightarrow> parse_digits maximum 0 (show_nat n @ cs) = parse_digits maximum n cs"
proof (induction n arbitrary: cs rule: show_nat.induct)
  case (1 n)
  show ?case
  proof (cases "n < 10")
    case True
    then show ?thesis using 1 by (simp add: show_nat.simps [of n])
  next
    case False
    have "n div 10 \<le> maximum" using 1 by linarith
    moreover have "n div 10 * 10 + n mod 10 = n" by simp
    ultimately show ?thesis using False 1 by (simp add: show_nat.simps [of n])
  qed
qed

definition is_digit :: "char \<Rightarrow> bool" where
  "is_digit c \<longleftrightarrow> to_digit c \<noteq> None"

lemma show_nat_digits: "c \<in> set (show_nat n) \<Longrightarrow> is_digit c"
  by (induction n rule: show_nat.induct) (subst (asm) (2) show_nat.simps, auto simp: is_digit_def split: if_splits)

lemma show_nat_nonempty [simp]: "show_nat n \<noteq> []"
  by (subst show_nat.simps) simp

lemma digit_plain:
  assumes "is_digit c"
  shows "c \<noteq> CHR '','' \<and> c \<noteq> CHR ''+'' \<and> c \<noteq> CHR ''-'' \<and> \<not> is_space c"
  using assms by (auto simp: is_digit_def to_digit_def is_space_def Let_def split: if_splits)

lemma parse_u64_show: "parse_u64 (show_nat (unat x)) = Inr x"
proof -
  have h: "is_digit (hd (show_nat (unat x)))" by (rule show_nat_digits [of _ "unat x"]) simp
  have "unat x \<le> 18446744073709551615" using unat_lt_u64_num [of x] by linarith
  then have "parse_digits 18446744073709551615 0 (show_nat (unat x) @ []) = Inr (unat x)"
    by (subst parse_show_nat) simp_all
  then show ?thesis using h digit_plain [OF h] by (auto simp: parse_u64_def parse_uint_def)
qed

subsection \<open>Lists of numbers\<close>

lemma split_on_nonempty [simp]: "split_on d s \<noteq> []"
  by (induction s) (auto split: list.split)

lemma split_on_piece: "d \<notin> set p \<Longrightarrow> split_on d p = [p]"
  by (induction p) auto

lemma split_on_append: "d \<notin> set p \<Longrightarrow> split_on d (p @ d # s) = p # split_on d s"
  by (induction p) auto

text \<open>\<open>join\<close> with commas.\<close>

fun join_commas :: "string list \<Rightarrow> string" where
  "join_commas [] = []"
| "join_commas [p] = p"
| "join_commas (p # ps) = p @ CHR '','' # join_commas ps"

lemma split_join:
  "ps \<noteq> [] \<Longrightarrow> \<forall>p \<in> set ps. CHR '','' \<notin> set p \<Longrightarrow> split_on (CHR '','') (join_commas ps) = ps"
  by (induction ps rule: join_commas.induct) (simp_all add: split_on_piece split_on_append)

lemma trim_padded:
  assumes "\<forall>c \<in> set l. is_space c" "\<forall>c \<in> set r. is_space c" "m \<noteq> []" "\<forall>c \<in> set m. \<not> is_space c"
  shows "trim (l @ m @ r) = m"
proof -
  have drop: "dropWhile is_space (l @ m @ r) = m @ r" if "\<forall>c \<in> set l. is_space c" "m \<noteq> []" "\<forall>c \<in> set m. \<not> is_space c"
    for l m r
    using that by (cases m) (simp_all add: dropWhile_append2)
  have "dropWhile is_space (rev r @ rev m @ []) = rev m @ []"
    using assms by (intro drop) simp_all
  then show ?thesis using drop [OF assms(1,3,4)] by (simp add: trim_def)
qed

lemma collect_results_Inr: "collect_results (map Inr xs) = Inr xs"
  by (induction xs) simp_all

text \<open>
  Printing a list of voters and parsing it gives it back: whatever the ids and however each is padded
  with white space.
\<close>

lemma parse_voters_roundtrip:
  assumes "ps \<noteq> []" "\<forall>(l, v, r) \<in> set ps. \<forall>c \<in> set l \<union> set r. is_space c"
  shows "parse_voters (join_commas (map (\<lambda>(l, v, r). l @ show_nat (unat v) @ r) ps)) = Inr (map (\<lambda>(l, v, r). v) ps)"
proof -
  have space: "c \<noteq> CHR '',''" if "is_space c" for c using that by (auto simp: is_space_def)
  have comma: "CHR '','' \<notin> set (case x of (l, v, r) \<Rightarrow> l @ show_nat (unat v) @ r)" if "x \<in> set ps" for x
    using assms(2) that space show_nat_digits digit_plain by (cases x) fastforce
  have t: "trim (case x of (l, v, r) \<Rightarrow> l @ show_nat (unat v) @ r) = show_nat (unat (case x of (l, v, r) \<Rightarrow> v))" if "x \<in> set ps" for x
    using assms(2) that show_nat_digits digit_plain by (cases x) (auto intro!: trim_padded)
  have "split_on (CHR '','') (join_commas (map (\<lambda>(l, v, r). l @ show_nat (unat v) @ r) ps)) =
      map (\<lambda>(l, v, r). l @ show_nat (unat v) @ r) ps"
    using assms(1) comma by (intro split_join) auto
  then have "comma_list (join_commas (map (\<lambda>(l, v, r). l @ show_nat (unat v) @ r) ps)) =
      map (\<lambda>x. show_nat (unat (case x of (l, v, r) \<Rightarrow> v))) ps"
    using t by (simp add: comma_list_def cong: map_cong)
  then have "map parse_u64 (comma_list (join_commas (map (\<lambda>(l, v, r). l @ show_nat (unat v) @ r) ps))) =
      map Inr (map (\<lambda>(l, v, r). v) ps)"
    by (simp add: parse_u64_show)
  then show ?thesis using assms(1) unfolding parse_voters_def by (simp only: collect_results_Inr) simp
qed

lemma parse_voters_roundtrip_witness: "parse_voters '' 1,2 ,30'' = Inr [1, 2, 30]"
proof -
  let ?ps = "[('' '', 1, []), ([], 2, '' ''), ([], 30, [])] :: (string \<times> u64 \<times> string) list"
  have "\<forall>(l, v, r) \<in> set ?ps. \<forall>c \<in> set l \<union> set r. is_space c" by (simp add: is_space_def)
  moreover have "show_nat 1 = ''1''" by code_simp
  moreover have "show_nat 2 = ''2''" by code_simp
  moreover have "show_nat 30 = ''30''" by code_simp
  ultimately show ?thesis using parse_voters_roundtrip [of ?ps] by simp
qed

subsection \<open>The retry loop\<close>

lemma retry_loop_ends:
  assumes "\<exists>j \<ge> i. \<not> isl (load j) \<or> deadline \<le> clk (Suc j)"
  shows "\<exists>k \<ge> i. retry_loop load clk deadline i = Some (k, load k) \<and>
    (\<forall>j. i \<le> j \<and> j < k \<longrightarrow> isl (load j) \<and> clk (Suc j) < deadline) \<and> (isl (load k) \<longrightarrow> deadline \<le> clk (Suc k))"
  using assms
proof (elim exE)
  fix j assume "i \<le> j \<and> (\<not> isl (load j) \<or> deadline \<le> clk (Suc j))"
  then show ?thesis
  proof (induction "j - i" arbitrary: i rule: less_induct)
    case less
    show ?case
    proof (cases "isl (load i) \<and> clk (Suc i) < deadline")
      case True
      then obtain e where e: "load i = Inl e" by (auto simp: isl_def)
      from True less.prems have "i < j" by (metis le_neq_implies_less not_le)
      then have "j - Suc i < j - i" "Suc i \<le> j \<and> (\<not> isl (load j) \<or> deadline \<le> clk (Suc j))"
        using less.prems by auto
      from less.hyps [OF this] obtain k where k: "Suc i \<le> k" "retry_loop load clk deadline (Suc i) = Some (k, load k)"
          "\<forall>j. Suc i \<le> j \<and> j < k \<longrightarrow> isl (load j) \<and> clk (Suc j) < deadline" "isl (load k) \<longrightarrow> deadline \<le> clk (Suc k)"
        by blast
      have "retry_loop load clk deadline i = Some (k, load k)"
        using True k(2) e by (subst retry_loop.simps) simp
      moreover have "isl (load j) \<and> clk (Suc j) < deadline" if "i \<le> j" "j < k" for j
        using that True k(3) by (cases "i = j") auto
      ultimately show ?thesis using k(1,4) by (intro exI [of _ k]) auto
    next
      case False
      then have "retry_loop load clk deadline i = Some (i, load i)"
        by (subst retry_loop.simps) (auto simp: isl_def split: sum.split)
      with False show ?thesis by (intro exI [of _ i]) auto
    qed
  qed
qed

lemma sleeping_clock:
  assumes "clk 0 \<le> clk 1" and "\<And>i. clk (Suc i) + secs 2 \<le> clk (Suc (Suc i))"
  shows "clk 0 + secs (2 * i) \<le> clk (Suc i)"
proof (induction i)
  case (Suc i)
  then show ?case using assms(2) [of i] by (simp add: secs_def)
qed (use assms(1) in \<open>simp add: secs_def\<close>)

text \<open>
  Resolving the seeds always ends: whatever the attempts give, the loop returns after at most 31 of
  them, because each failed one is followed by two seconds of sleep and the deadline is sixty seconds
  away. It returns the first success, or the failure of the first attempt that ended after the deadline.
\<close>

lemma retry_returns:
  assumes "clk 0 \<le> clk 1" and "\<And>i. clk (Suc i) + secs 2 \<le> clk (Suc (Suc i))"
  shows "\<exists>k \<le> 30. seed_peers_with_retry load clk = Some (k, load k) \<and>
    (\<forall>j < k. isl (load j) \<and> clk (Suc j) < clk 0 + secs 60) \<and>
    (isl (load k) \<longrightarrow> clk 0 + secs 60 \<le> clk (Suc k))"
proof -
  have late: "clk 0 + secs 60 \<le> clk (Suc 30)" using sleeping_clock [OF assms, of 30] by simp
  then have "\<exists>j \<ge> 0. \<not> isl (load j) \<or> clk 0 + secs 60 \<le> clk (Suc j)" by blast
  from retry_loop_ends [OF this] obtain k where k: "seed_peers_with_retry load clk = Some (k, load k)"
      "\<forall>j. 0 \<le> j \<and> j < k \<longrightarrow> isl (load j) \<and> clk (Suc j) < clk 0 + secs 60"
      "isl (load k) \<longrightarrow> clk 0 + secs 60 \<le> clk (Suc k)"
    unfolding seed_peers_with_retry_def by blast
  have "k \<le> 30" using k(2) late by (meson le0 not_le)
  with k show ?thesis by auto
qed

lemma retry_returns_witness:
  "\<exists>k \<le> 30. seed_peers_with_retry (\<lambda>i. Inl ''no such host'' :: string + nat) (\<lambda>i. secs (2 * i)) = Some (k, Inl ''no such host'')"
  using retry_returns [of "\<lambda>i. secs (2 * i)" "\<lambda>i. Inl ''no such host'' :: string + nat"] by (auto simp: secs_def)

subsection \<open>Timers\<close>

text \<open>
  C40: With no variable set, the timers of a node with a small id are sane: requests and heartbeats are
  shorter than an election, and two nodes wait for at least 230 milliseconds apart, so that one of them
  can win before the other stands. (Stated for ids below \<open>2^50\<close>; the products do not wrap around before ids of about \<open>2^56\<close>.)
\<close>

theorem default_timers_staggered:
  assumes "w_env w ''ELECTION_TIMEOUT_MS'' = None" "w_env w ''ELECTION_JITTER_MS'' = None"
    "w_env w ''HEARTBEAT_MS'' = None" "w_env w ''RPC_TIMEOUT_MS'' = None"
    and "m < n" "n < 1125899906842624"
  shows "let wait = (\<lambda>i. cfg_election_timeout (build_config w i vs seeds) + cfg_election_jitter (build_config w i vs seeds))
    in wait m + 230000000 \<le> wait n \<and> cfg_heartbeat_interval (build_config w m vs seeds) < wait m \<and>
      cfg_rpc_timeout (build_config w m vs seeds) < wait m"
proof -
  have t: "unat (500 + i * 200) = 500 + unat i * 200" "unat (10 + i * 30) = 10 + unat i * 30"
    if "unat i < 1125899906842624" for i :: u64
    using that by (simp_all add: unat_word_ariths)
  have "unat m < unat n" "unat n < 1125899906842624"
    using assms(5,6) by (simp_all add: word_less_nat_alt)
  then show ?thesis
    using t [of m] t [of n] assms(1-4) by (simp add: build_config_def env_u64_def from_millis_def Let_def)
qed

theorem default_timers_staggered_witness:
  "cfg_election_timeout (build_config demo_world 1 [1, 2] []) + 230000000 \<le>
     cfg_election_timeout (build_config demo_world 2 [1, 2] []) + cfg_election_jitter (build_config demo_world 2 [1, 2] [])"
  using default_timers_staggered [of demo_world 1 2 "[1, 2]" "[]"] by (simp add: Let_def demo_world_def)

subsection \<open>One proposal\<close>

fun demotes :: "('p, 'a) SwarmEvent \<Rightarrow> bool" where
  "demotes (BehaviourEvent (RoleChanged r t l)) = (r \<noteq> Leader)"
| "demotes ev = False"

lemma events_handled_eq:
  "events_handled sp sa sd n evs since = (if \<exists>ev \<in> set evs. demotes ev then None else since)"
proof (induction evs arbitrary: since)
  case (Cons ev evs)
  have "fst (handle_event sp sa sd n ev since) = (if demotes ev then None else since)"
    by (cases ev rule: demotes.cases) simp_all
  with Cons show ?case by (auto simp: events_handled_def)
qed (simp add: events_handled_def)

text \<open>
  A round has called \<open>propose\<close> if it leaves the log of the behaviour other than the swarm has left it, or prints the
  line that follows the call. Whether \<open>proposed\<close> is set plays no part in it.
\<close>

definition round_proposed :: "('p, 'a, 'c) Round \<Rightarrow> ('p, 'a, 'c) RaftBehaviour \<Rightarrow> Line list \<Rightarrow> bool" where
  "round_proposed rd b lines \<longleftrightarrow> lines \<noteq> [] \<or>
     ms_entries (storage (engine b)) \<noteq> ms_entries (storage (engine (rd_behaviour rd)))"

text \<open>The rounds of the main loop, with a mark for each round that has called \<open>propose\<close>.\<close>

fun main_rounds ::
  "('p \<Rightarrow> string) \<Rightarrow> ('a \<Rightarrow> string) \<Rightarrow> (u8 list \<Rightarrow> string) \<Rightarrow> NodeId \<Rightarrow> bool \<Rightarrow> ('p, 'a, 'c) Round list \<Rightarrow> Stability \<Rightarrow>
    Error + Stability \<times> bool list" where
  "main_rounds sp sa sd n hello_wanted [] st = Inr (st, [])"
| "main_rounds sp sa sd n hello_wanted (rd # rds) st =
     (case main_round sp sa sd n hello_wanted rd st of
        Inl e \<Rightarrow> Inl e
      | Inr (b, st1, lines) \<Rightarrow>
          (case main_rounds sp sa sd n hello_wanted rds st1 of
             Inl e \<Rightarrow> Inl e
           | Inr (st2, ps) \<Rightarrow> Inr (st2, round_proposed rd b lines # ps)))"

lemma main_rounds_snoc:
  "main_rounds sp sa sd n hw (rds @ [rd]) st =
    (case main_rounds sp sa sd n hw rds st of
       Inl e \<Rightarrow> Inl e
     | Inr (st1, ps) \<Rightarrow>
         (case main_round sp sa sd n hw rd st1 of
            Inl e \<Rightarrow> Inl e
          | Inr (b, st2, lines) \<Rightarrow> Inr (st2, ps @ [round_proposed rd b lines])))"
  by (induction rds arbitrary: st) (auto split: sum.split prod.split)

text \<open>A leader's proposal is never refused, so the \<open>?\<close> never ends the program.\<close>

lemma leader_proposes: "role (engine b) = Leader \<Longrightarrow> \<exists>b' idx. behaviour_propose b data = (b', Inr idx)"
  by (simp add: behaviour_propose_def propose_unfold Let_def case_prod_unfold)

text \<open>What \<open>stable_leader_since\<close> stands for after the rounds \<open>rds\<close>.\<close>

definition stable_in :: "('p, 'a, 'c) Round list \<Rightarrow> nat \<Rightarrow> Instant \<Rightarrow> nat \<Rightarrow> bool" where
  "stable_in rds j t k \<longleftrightarrow> j < k \<and> k \<le> length rds \<and> rd_now (rds ! j) = t \<and>
     role (engine (rd_behaviour (rds ! j))) = Leader \<and>
     (\<forall>i. j < i \<and> i < k \<longrightarrow> \<not> (\<exists>ev \<in> set (rd_events (rds ! i)). demotes ev))"

definition rounds_ok :: "('p, 'a, 'c) Round list \<Rightarrow> Stability \<Rightarrow> bool list \<Rightarrow> bool" where
  "rounds_ok rds st ps \<longleftrightarrow> length ps = length rds \<and>
     (\<forall>t. stable_leader_since st = Some t \<longrightarrow> (\<exists>j. stable_in rds j t (length rds))) \<and>
     (proposed st \<longleftrightarrow> True \<in> set ps) \<and>
     (\<forall>j k. j < length ps \<and> k < length ps \<and> ps ! j \<and> ps ! k \<longrightarrow> j = k) \<and>
     (\<forall>k < length ps. ps ! k \<longrightarrow> role (engine (rd_behaviour (rds ! k))) = Leader \<and>
        (\<exists>j t. stable_in rds j t (Suc k) \<and> t + secs 1 \<le> rd_now (rds ! k)))"

lemma stable_in_append:
  "k \<le> length rds \<Longrightarrow> stable_in (rds @ rs) j t k \<longleftrightarrow> stable_in rds j t k"
  by (auto simp: stable_in_def nth_append)

lemma main_round_cases:
  assumes "st1 = st\<lparr>stable_leader_since := events_handled sp sa sd n (rd_events rd) (stable_leader_since st)\<rparr>"
  obtains
    (idle) "main_round sp sa sd n hw rd st = Inr (rd_behaviour rd, st1, [])"
  | (armed) "main_round sp sa sd n hw rd st = Inr (rd_behaviour rd, st1\<lparr>stable_leader_since := Some (rd_now rd)\<rparr>, [])"
      "role (engine (rd_behaviour rd)) = Leader"
  | (hello) b lines t where "main_round sp sa sd n hw rd st = Inr (b, st1\<lparr>proposed := True\<rparr>, lines)"
      "role (engine (rd_behaviour rd)) = Leader" "stable_leader_since st1 = Some t" "t + secs 1 \<le> rd_now rd"
      "\<not> proposed st" "lines \<noteq> []"
proof -
  show thesis
  proof (cases "hw \<and> \<not> proposed st \<and> role (engine (rd_behaviour rd)) = Leader")
    case c: True
    show thesis
    proof (cases "stable_leader_since st1")
      case None
      then show thesis using c assms armed by (simp add: main_round_def maybe_propose_def)
    next
      case (Some t)
      show thesis
      proof (cases "secs 1 \<le> rd_now rd - t")
        case True
        then have "t + secs 1 \<le> rd_now rd" by (simp add: secs_def)
        moreover obtain b idx where "behaviour_propose (rd_behaviour rd) RaftNode.hello = (b, Inr idx)"
          using leader_proposes c by blast
        ultimately show thesis using c Some True assms hello by (simp add: main_round_def maybe_propose_def)
      next
        case False
        then show thesis using c Some assms idle by (simp add: main_round_def maybe_propose_def)
      qed
    qed
  next
    case False
    then show thesis using assms idle by (auto simp: main_round_def maybe_propose_def)
  qed
qed

lemma main_rounds_ok:
  "\<exists>st ps. main_rounds sp sa sd n hw rds \<lparr>stable_leader_since = None, proposed = False\<rparr> = Inr (st, ps) \<and>
    rounds_ok rds st ps"
proof (induction rds rule: rev_induct)
  case Nil
  then show ?case by (simp add: rounds_ok_def)
next
  case (snoc rd rds)
  then obtain st ps where r: "main_rounds sp sa sd n hw rds \<lparr>stable_leader_since = None, proposed = False\<rparr> = Inr (st, ps)"
    and ok: "rounds_ok rds st ps" by blast
  define st1 where "st1 = st\<lparr>stable_leader_since := events_handled sp sa sd n (rd_events rd) (stable_leader_since st)\<rparr>"
  have len: "length ps = length rds" using ok by (simp add: rounds_ok_def)
  have since: "\<exists>j. stable_in (rds @ [rd]) j t (Suc (length rds))" if "stable_leader_since st1 = Some t" for t
  proof -
    from that have s: "stable_leader_since st = Some t" "\<not> (\<exists>ev \<in> set (rd_events rd). demotes ev)"
      by (auto simp: st1_def events_handled_eq split: if_splits)
    with ok obtain j where "stable_in rds j t (length rds)" unfolding rounds_ok_def by blast
    with s(2) have "stable_in (rds @ [rd]) j t (Suc (length rds))"
      by (auto simp: stable_in_def nth_append less_Suc_eq)
    then show ?thesis ..
  qed
  have old: "\<exists>j t. stable_in (rds @ [rd]) j t (Suc k) \<and> t + secs 1 \<le> rd_now ((rds @ [rd]) ! k)"
    if "k < length ps" "ps ! k" for k
    using ok that len unfolding rounds_ok_def by (fastforce simp: stable_in_append nth_append Suc_le_eq)
  have next_ok: "rounds_ok (rds @ [rd]) st2 (ps @ [p])"
    if "\<And>t. stable_leader_since st2 = Some t \<Longrightarrow> \<exists>j. stable_in (rds @ [rd]) j t (Suc (length rds))"
      "proposed st2 = (proposed st \<or> p)" "p \<Longrightarrow> \<not> proposed st \<and> role (engine (rd_behaviour rd)) = Leader \<and>
        (\<exists>j t. stable_in (rds @ [rd]) j t (Suc (length rds)) \<and> t + secs 1 \<le> rd_now rd)" for st2 p
    using that ok old len unfolding rounds_ok_def
    by (auto simp: nth_append less_Suc_eq in_set_conv_nth)
  have p1: "proposed st1 = proposed st" by (simp add: st1_def)
  from st1_def show ?case
  proof (cases rule: main_round_cases [where hw = hw])
    case idle
    then show ?thesis using r next_ok [of st1 False] since p1 by (auto simp: main_rounds_snoc round_proposed_def)
  next
    case armed
    have "stable_in (rds @ [rd]) (length rds) (rd_now rd) (Suc (length rds))"
      using armed(2) by (auto simp: stable_in_def)
    then show ?thesis using armed r next_ok [of "st1\<lparr>stable_leader_since := Some (rd_now rd)\<rparr>" False] p1
      by (auto simp: main_rounds_snoc round_proposed_def)
  next
    case (hello b lines t)
    then show ?thesis using r next_ok [of "st1\<lparr>proposed := True\<rparr>" True] since p1
      by (auto simp: main_rounds_snoc round_proposed_def)
  qed
qed

text \<open>
  C37: The node program calls \<open>propose\<close> in at most one round of its main loop, whatever the swarm does: only one round
  leaves the log other than the swarm has left it or prints that it has proposed, and only as leader, and only when
  it found itself leader in a round at least a second before and no event since has told it that it lost the role.
  The proposal is never refused, so the error of \<open>propose\<close> never ends the main loop.
\<close>

theorem hello_proposed_once:
  "\<exists>st ps. main_rounds sp sa sd n hw rds \<lparr>stable_leader_since = None, proposed = False\<rparr> = Inr (st, ps) \<and>
    length ps = length rds \<and> (\<forall>j k. j < length ps \<and> k < length ps \<and> ps ! j \<and> ps ! k \<longrightarrow> j = k) \<and>
    (\<forall>k < length ps. ps ! k \<longrightarrow> role (engine (rd_behaviour (rds ! k))) = Leader \<and>
      (\<exists>j < k. role (engine (rd_behaviour (rds ! j))) = Leader \<and> rd_now (rds ! j) + secs 1 \<le> rd_now (rds ! k) \<and>
        (\<forall>i. j < i \<and> i \<le> k \<longrightarrow> \<not> (\<exists>ev \<in> set (rd_events (rds ! i)). demotes ev))))"
proof -
  obtain st ps where r: "main_rounds sp sa sd n hw rds \<lparr>stable_leader_since = None, proposed = False\<rparr> = Inr (st, ps)"
    and ok: "rounds_ok rds st ps" using main_rounds_ok by blast
  have "\<exists>j < k. role (engine (rd_behaviour (rds ! j))) = Leader \<and> rd_now (rds ! j) + secs 1 \<le> rd_now (rds ! k) \<and>
      (\<forall>i. j < i \<and> i \<le> k \<longrightarrow> \<not> (\<exists>ev \<in> set (rd_events (rds ! i)). demotes ev))"
    if "k < length ps" "ps ! k" for k
  proof -
    from ok that obtain j t where "stable_in rds j t (Suc k)" "t + secs 1 \<le> rd_now (rds ! k)"
      unfolding rounds_ok_def by blast
    then show ?thesis by (intro exI [of _ j]) (auto simp: stable_in_def secs_def less_Suc_eq)
  qed
  with r ok show ?thesis unfolding rounds_ok_def by blast
qed

definition demo_leading :: "(unit, unit, nat) RaftBehaviour" where
  "demo_leading =
     (let b = RaftBehaviour_new sorted_list_of_set (\<lambda>i. 0) (\<lambda>i. ()) (\<lambda>i. False) (demo_config 1) MemoryStorage_new
      in b\<lparr>engine := (engine b)\<lparr>role := Leader\<rparr>\<rparr>)"

definition demo_rounds :: "(unit, unit, nat) Round list" where
  "demo_rounds =
     [\<lparr>rd_events = [BehaviourEvent (RoleChanged Leader 1 (Some 1))], rd_behaviour = demo_leading, rd_now = 0\<rparr>,
      \<lparr>rd_events = [OtherEvent], rd_behaviour = demo_leading, rd_now = secs 2\<rparr>]"

theorem hello_proposed_once_witness:
  "\<exists>st. main_rounds (\<lambda>p. []) (\<lambda>a. []) (\<lambda>d. []) 1 True demo_rounds \<lparr>stable_leader_since = None, proposed = False\<rparr> =
     Inr (st, [False, True]) \<and> role (engine (rd_behaviour (demo_rounds ! 1))) = Leader"
proof -
  have l: "role (engine demo_leading) = Leader" by (simp add: demo_leading_def Let_def)
  then obtain b idx where p: "behaviour_propose demo_leading hello = (b, Inr idx)" using leader_proposes by blast
  have r: "main_rounds (\<lambda>p. []) (\<lambda>a. []) (\<lambda>d. []) 1 True demo_rounds \<lparr>stable_leader_since = None, proposed = False\<rparr> =
      Inr (\<lparr>stable_leader_since = Some 0, proposed = True\<rparr>, [False, True])"
    by (simp add: demo_rounds_def main_round_def maybe_propose_def events_handled_def secs_def l p round_proposed_def)
  with hello_proposed_once [of "\<lambda>p. []" "\<lambda>a. []" "\<lambda>d. []" 1 True demo_rounds] show ?thesis by fastforce
qed

subsection \<open>Waiting for the listen address\<close>

text \<open>Turn \<open>i\<close> of the wait goes round again.\<close>

definition keeps_waiting ::
  "(nat \<Rightarrow> (Instant \<times> ('p, 'a) SwarmEvent) option) \<Rightarrow> (nat \<Rightarrow> Instant) \<Rightarrow> (nat \<Rightarrow> bool) \<Rightarrow> nat \<Rightarrow> bool" where
  "keeps_waiting evs clk tie i \<longleftrightarrow> (\<exists>t ev. evs i = Some (t, ev) \<and> \<not> is_new_listen_addr ev \<and>
     (t < clk i + secs 5 \<or> t = clk i + secs 5 \<and> tie i))"

lemma listen_wait_turn:
  "keeps_waiting evs clk tie i \<Longrightarrow> listen_wait evs clk tie i = listen_wait evs clk tie (Suc i)"
  "\<not> keeps_waiting evs clk tie i \<Longrightarrow> \<exists>r. listen_wait evs clk tie i = Some (i, r)"
  by (subst listen_wait.simps; auto simp: keeps_waiting_def split: option.split)+

lemma listen_wait_stops:
  assumes "i \<le> k" "\<not> keeps_waiting evs clk tie k" "\<forall>j. i \<le> j \<and> j < k \<longrightarrow> keeps_waiting evs clk tie j"
  shows "\<exists>r. listen_wait evs clk tie i = Some (k, r)"
  using assms
proof (induction "k - i" arbitrary: i)
  case 0
  then show ?case using listen_wait_turn(2) by (metis diff_is_0_eq le_antisym)
next
  case (Suc n)
  then have "i < k" by linarith
  then have w: "keeps_waiting evs clk tie i" using Suc.prems(3) by blast
  have "\<exists>r. listen_wait evs clk tie (Suc i) = Some (k, r)"
    using Suc.hyps(2) Suc.prems \<open>i < k\<close> by (intro Suc.hyps(1)) auto
  then show ?case by (simp add: listen_wait_turn(1) [OF w])
qed

lemma listen_wait_result:
  assumes "listen_wait evs clk tie i = Some y"
  shows "i \<le> fst y \<and> \<not> keeps_waiting evs clk tie (fst y)"
proof (rule listen_wait.raw_induct [OF _ assms])
  fix wait :: "(nat \<Rightarrow> (Instant \<times> ('a, 'b) SwarmEvent) option) \<Rightarrow> (nat \<Rightarrow> Instant) \<Rightarrow> (nat \<Rightarrow> bool) \<Rightarrow> nat \<Rightarrow>
      (nat \<times> (string + unit)) option"
  fix evs clk tie i y
  assume IH: "\<And>evs clk tie i y. wait evs clk tie i = Some y \<Longrightarrow> i \<le> fst y \<and> \<not> keeps_waiting evs clk tie (fst y)"
    and turn: "(case evs i of
        None \<Rightarrow> Some (i, Inl ''timeout waiting for listen address'')
      | Some (t, ev) \<Rightarrow>
          if t < clk i + secs 5 \<or> t = clk i + secs 5 \<and> tie i then
            if is_new_listen_addr ev then Some (i, Inr ()) else wait evs clk tie (Suc i)
          else Some (i, Inl ''timeout waiting for listen address'')) = Some y"
  show "i \<le> fst y \<and> \<not> keeps_waiting evs clk tie (fst y)"
  proof (cases "keeps_waiting evs clk tie i")
    case True
    then have "wait evs clk tie (Suc i) = Some y" using turn by (auto simp: keeps_waiting_def split: if_splits)
    from IH [OF this] show ?thesis by simp
  next
    case False
    then have "fst y = i" using turn by (auto simp: keeps_waiting_def split: option.splits if_splits prod.splits)
    with False show ?thesis by simp
  qed
qed

text \<open>
  The five seconds the node waits for its listen address start again with every event: it waits
  for ever exactly if in every turn some other event arrives within five seconds of the start of that turn, and
  gives up only in a turn in which none did, however long it has waited in all.
\<close>

lemma listen_wait_restarts:
  "(listen_wait evs clk tie 0 = None \<longleftrightarrow> (\<forall>i. keeps_waiting evs clk tie i)) \<and>
   (listen_wait evs clk tie 0 = Some (k, Inl e) \<longrightarrow>
      (\<forall>j < k. keeps_waiting evs clk tie j) \<and> (\<forall>t ev. evs k = Some (t, ev) \<longrightarrow> clk k + secs 5 \<le> t))"
proof (intro conjI impI)
  have stop: "\<exists>j r. listen_wait evs clk tie 0 = Some (j, r) \<and> \<not> keeps_waiting evs clk tie j \<and> (\<forall>i < j. keeps_waiting evs clk tie i)"
    if "\<exists>i. \<not> keeps_waiting evs clk tie i"
  proof -
    define j where "j = (LEAST i. \<not> keeps_waiting evs clk tie i)"
    have "\<not> keeps_waiting evs clk tie j" "\<forall>i < j. keeps_waiting evs clk tie i"
      unfolding j_def using LeastI_ex [OF that] not_less_Least by blast+
    with listen_wait_stops [of 0 j evs clk tie] show ?thesis by blast
  qed
  show "listen_wait evs clk tie 0 = None \<longleftrightarrow> (\<forall>i. keeps_waiting evs clk tie i)"
  proof
    show "\<forall>i. keeps_waiting evs clk tie i" if "listen_wait evs clk tie 0 = None"
      using stop that by fastforce
    show "listen_wait evs clk tie 0 = None" if "\<forall>i. keeps_waiting evs clk tie i"
      using that listen_wait_result [of evs clk tie 0] by (cases "listen_wait evs clk tie 0") auto
  qed
  assume r: "listen_wait evs clk tie 0 = Some (k, Inl e)"
  then have nk: "\<not> keeps_waiting evs clk tie k" using listen_wait_result [OF r] by simp
  then obtain j r' where "listen_wait evs clk tie 0 = Some (j, r')" "\<forall>i < j. keeps_waiting evs clk tie i"
    using stop by blast
  with r show early: "\<forall>j < k. keeps_waiting evs clk tie j" by simp
  have at: "listen_wait evs clk tie k = Some (k, Inl e)"
  proof -
    have eq: "listen_wait evs clk tie 0 = listen_wait evs clk tie n" if "n \<le> k" for n
      using that
    proof (induction n)
      case (Suc n)
      then have "keeps_waiting evs clk tie n" using early by simp
      then show ?case using Suc by (simp add: listen_wait_turn(1))
    qed simp
    from eq [of k] r show ?thesis by simp
  qed
  then show "\<forall>t ev. evs k = Some (t, ev) \<longrightarrow> clk k + secs 5 \<le> t"
    using nk by (subst (asm) listen_wait.simps) (auto simp: keeps_waiting_def split: if_splits)
qed

lemma listen_wait_restarts_witness:
  "listen_wait (\<lambda>i. Some (secs (4 * i + 4), OtherEvent :: (unit, unit) SwarmEvent)) (\<lambda>i. secs (4 * i)) (\<lambda>i. False) 0 = None"
  using listen_wait_restarts [of "\<lambda>i. Some (secs (4 * i + 4), OtherEvent :: (unit, unit) SwarmEvent)" "\<lambda>i. secs (4 * i)" "\<lambda>i. False"]
  by (simp add: keeps_waiting_def secs_def)

end
