(* ===== verification/ThreeNode.thy ===== *)
theory ThreeNode
  imports RaftNodeProps
begin

text \<open>
  \<open>examples/three_node.rs\<close>: three nodes in one process that elect a leader, propose \<open>hello\<close> once the election
  has been stable for a second, and wait until two of them have committed it. The peer ids and addresses
  of the nodes are the functions \<open>p\<close> and \<open>a\<close>; the swarms are libp2p's, so a turn of the loop is given by the event
  the \<open>select!\<close> took, the behaviours the swarms have left behind and the readings of the clock. The
  iteration order of the hash maps is \<open>ho\<close>; \<open>sr\<close>, \<open>sc\<close> and \<open>sk\<close> are the \<open>Debug\<close> texts of
  the two maps and of a list of node ids.
\<close>

subsection \<open>Configuration\<close>

definition three_seeds :: "(NodeId \<Rightarrow> 'p) \<Rightarrow> (NodeId \<Rightarrow> 'a) \<Rightarrow> NodeId \<Rightarrow> ('p, 'a) SeedPeer list" where
  "three_seeds p a self_id =
     map (\<lambda>(node_id, peer_id, addr). \<lparr>sp_node_id = node_id, sp_peer_id = peer_id, sp_addrs = [addr]\<rparr>)
       (filter (\<lambda>(node_id, _, _). node_id \<noteq> self_id) [(1, p 1, a 1), (2, p 2, a 2), (3, p 3, a 3)])"

definition three_cfg :: "(NodeId \<Rightarrow> 'p) \<Rightarrow> (NodeId \<Rightarrow> 'a) \<Rightarrow> NodeId \<Rightarrow> u64 \<Rightarrow> u64 \<Rightarrow> ('p, 'a) RaftConfig" where
  "three_cfg p a nid election_ms jitter_ms =
     \<lparr>cfg_node_id = nid, cfg_voters = [1, 2, 3], cfg_seed_peers = three_seeds p a nid,
      cfg_election_timeout = from_millis election_ms, cfg_election_jitter = from_millis jitter_ms,
      cfg_heartbeat_interval = from_millis 100, cfg_rpc_timeout = from_millis 500,
      cfg_rpc_max_retries = 0, cfg_snapshot_threshold = 10000\<rparr>"

text \<open>The three swarms' behaviours; \<open>clk\<close>, \<open>rnd\<close> and \<open>rdy\<close> are the worlds they read.\<close>

definition three_nodes ::
  "(NodeId set \<Rightarrow> NodeId list) \<Rightarrow> (NodeId \<Rightarrow> nat \<Rightarrow> Instant) \<Rightarrow> (NodeId \<Rightarrow> nat \<Rightarrow> 'p) \<Rightarrow> (NodeId \<Rightarrow> nat \<Rightarrow> bool) \<Rightarrow>
    (NodeId \<Rightarrow> 'p) \<Rightarrow> (NodeId \<Rightarrow> 'a) \<Rightarrow> NodeId \<Rightarrow> ('p, 'a, 'c) RaftBehaviour" where
  "three_nodes hov clk rnd rdy p a n =
     RaftBehaviour_new hov (clk n) (rnd n) (rdy n)
       (if n = 1 then three_cfg p a 1 500 10
        else if n = 2 then three_cfg p a 2 700 40
        else three_cfg p a 3 900 70)
       MemoryStorage_new"

text \<open>
  \<open>wait_listeners\<close>: the events of the three swarms (numbered from 0) in the order they come; the events left
  when all three listen, or \<open>None\<close> if they never do.
\<close>

fun wait_listeners :: "bool list \<Rightarrow> (nat \<times> ('p, 'a) SwarmEvent) list \<Rightarrow> (nat \<times> ('p, 'a) SwarmEvent) list option" where
  "wait_listeners ready [] = (if list_all (\<lambda>x. x) ready then Some [] else None)"
| "wait_listeners ready ((k, ev) # evs) =
     (if list_all (\<lambda>x. x) ready then Some ((k, ev) # evs)
      else wait_listeners (if is_new_listen_addr ev then ready[k := True] else ready) evs)"

definition full_mesh_dial ::
  "(NodeId \<Rightarrow> 'p) \<Rightarrow> (NodeId \<Rightarrow> ('p, 'a, 'c) RaftBehaviour) \<Rightarrow> NodeId \<Rightarrow> ('p, 'a, 'c) RaftBehaviour" where
  "full_mesh_dial p b =
     b(1 := dial_seed (dial_seed (b 1) (p 2)) (p 3),
       2 := dial_seed (dial_seed (b 2) (p 1)) (p 3),
       3 := dial_seed (dial_seed (b 3) (p 1)) (p 2))"

subsection \<open>The state of the loop\<close>

record ThreeState =
  roles :: "NodeId \<rightharpoonup> Role \<times> Term"
  stable_since :: "Instant option"
  ts_proposed :: bool
  committed_nodes :: "NodeId \<rightharpoonup> bool"
  printed :: "string list"

definition three_init :: ThreeState where
  "three_init = \<lparr>roles = Map.empty, stable_since = None, ts_proposed = False, committed_nodes = Map.empty, printed = []\<rparr>"

definition println :: "string \<Rightarrow> ThreeState \<Rightarrow> ThreeState" where
  "println s st = st\<lparr>printed := printed st @ [s]\<rparr>"

fun handle_ev :: "NodeId \<Rightarrow> ('p, 'a) SwarmEvent \<Rightarrow> ThreeState \<Rightarrow> ThreeState" where
  "handle_ev n (BehaviourEvent (RoleChanged r t l)) st =
     (println (''node '' @ show_nat (unat n) @ '' -> '' @ show_role r @ '' term='' @ show_nat (unat t)) st)
       \<lparr>roles := (roles st)(n \<mapsto> (r, t)), stable_since := None\<rparr>"
| "handle_ev n (BehaviourEvent (Committed es)) st =
     (if \<exists>e \<in> set es. command_data (entry_type e) = hello
      then (println (''node '' @ show_nat (unat n) @ '' Committed hello'') st)
             \<lparr>committed_nodes := (committed_nodes st)(n \<mapsto> True)\<rparr>
      else st)"
| "handle_ev n ev st = st"

text \<open>\<open>drain_ready\<close>: the events the swarm has ready.\<close>

definition drain_ready :: "NodeId \<Rightarrow> ('p, 'a) SwarmEvent list \<Rightarrow> ThreeState \<Rightarrow> ThreeState" where
  "drain_ready n evs st = fold (handle_ev n) evs st"

definition map_values :: "('k set \<Rightarrow> 'k list) \<Rightarrow> ('k \<rightharpoonup> 'v) \<Rightarrow> 'v list" where
  "map_values ho m = map (\<lambda>k. the (m k)) (ho (dom m))"

definition consistent_quorum ::
  "(NodeId set \<Rightarrow> NodeId list) \<Rightarrow> (NodeId \<rightharpoonup> Role \<times> Term) \<Rightarrow> (bool \<times> Term) option" where
  "consistent_quorum ho rs =
     (let vs = map_values ho rs in
      if length vs < 3 then None
      else
        let terms = map snd vs; t = hd terms in
        if \<exists>t' \<in> set terms. t' \<noteq> t then Some (False, t)
        else
          let leaders = length (filter (\<lambda>(r, _). r = Leader) vs);
              followers = length (filter (\<lambda>(r, _). r = Follower) vs)
          in Some (leaders = 1 \<and> followers = 2, t))"

subsection \<open>A turn of the loop\<close>

text \<open>What the \<open>select!\<close> took: an event of one of the swarms, or the interval, with what was ready then.\<close>

datatype ('p, 'a) Turn =
    Swarm1 "('p, 'a) SwarmEvent"
  | Swarm2 "('p, 'a) SwarmEvent"
  | Swarm3 "('p, 'a) SwarmEvent"
  | IntervalTick "('p, 'a) SwarmEvent list" "('p, 'a) SwarmEvent list" "('p, 'a) SwarmEvent list"

fun turn_handled :: "('p, 'a) Turn \<Rightarrow> ThreeState \<Rightarrow> ThreeState" where
  "turn_handled (Swarm1 ev) st = handle_ev 1 ev st"
| "turn_handled (Swarm2 ev) st = handle_ev 2 ev st"
| "turn_handled (Swarm3 ev) st = handle_ev 3 ev st"
| "turn_handled (IntervalTick evs1 evs2 evs3) st = drain_ready 3 evs3 (drain_ready 2 evs2 (drain_ready 1 evs1 st))"

record ('p, 'a, 'c) ThreeTurn =
  tt_wall :: Instant
  tt_turn :: "('p, 'a) Turn"
  tt_behaviour :: "NodeId \<Rightarrow> ('p, 'a, 'c) RaftBehaviour"
  tt_stable :: Instant
  tt_elapsed :: Instant

definition read_roles :: "(NodeId \<Rightarrow> ('p, 'a, 'c) RaftBehaviour) \<Rightarrow> ThreeState \<Rightarrow> ThreeState" where
  "read_roles b st =
     (let read = (\<lambda>n. (behaviour_role (b n), behaviour_current_term (b n)))
      in st\<lparr>roles := (roles st)(1 \<mapsto> read 1, 2 \<mapsto> read 2, 3 \<mapsto> read 3)\<rparr>)"

text \<open>The proposal: \<open>Inl\<close> is an error that ends the program.\<close>

definition three_propose ::
  "(NodeId set \<Rightarrow> NodeId list) \<Rightarrow> ((NodeId \<rightharpoonup> Role \<times> Term) \<Rightarrow> string) \<Rightarrow> (NodeId \<Rightarrow> ('p, 'a, 'c) RaftBehaviour) \<Rightarrow>
    ThreeState \<Rightarrow> string + (NodeId \<Rightarrow> ('p, 'a, 'c) RaftBehaviour) \<times> ThreeState" where
  "three_propose ho sr b st0 =
     (let st = println (''stable leader for 1s: '' @ sr (roles st0)) st0 in
      case find (\<lambda>n. fst (the (roles st n)) = Leader) (ho (dom (roles st))) of
        None \<Rightarrow> Inl ''no leader to propose''
      | Some n \<Rightarrow>
          if n = 1 \<or> n = 2 \<or> n = 3 then
            (case behaviour_propose (b n) hello of
               (b1, Inl e) \<Rightarrow> Inl (show_error e)
             | (b1, Inr idx) \<Rightarrow>
                 Inr (b(n := b1),
                   (println (''proposed hello at index='' @ show_nat (unat idx)) st)\<lparr>ts_proposed := True\<rparr>))
          else Inl ''no leader to propose'')"

definition quorum_step ::
  "(NodeId set \<Rightarrow> NodeId list) \<Rightarrow> ((NodeId \<rightharpoonup> Role \<times> Term) \<Rightarrow> string) \<Rightarrow> ('p, 'a, 'c) ThreeTurn \<Rightarrow>
    ThreeState \<Rightarrow> string + (NodeId \<Rightarrow> ('p, 'a, 'c) RaftBehaviour) \<times> ThreeState" where
  "quorum_step ho sr tt st =
     (case consistent_quorum ho (roles st) of
        None \<Rightarrow> Inr (tt_behaviour tt, st\<lparr>stable_since := None\<rparr>)
      | Some (ok, t) \<Rightarrow>
          if ok then
            let st1 = (case stable_since st of
                         Some since \<Rightarrow> st
                       | None \<Rightarrow> println (''quorum ok term='' @ show_nat (unat t) @ '': '' @ sr (roles st))
                           (st\<lparr>stable_since := Some (tt_stable tt)\<rparr>))
            in if \<not> ts_proposed st1 \<and> secs 1 \<le> tt_elapsed tt - the (stable_since st1)
               then three_propose ho sr (tt_behaviour tt) st1
               else Inr (tt_behaviour tt, st1)
          else Inr (tt_behaviour tt, st\<lparr>stable_since := None\<rparr>))"

definition hello_majority :: "(NodeId set \<Rightarrow> NodeId list) \<Rightarrow> ThreeState \<Rightarrow> bool" where
  "hello_majority ho st \<longleftrightarrow> ts_proposed st \<and> 2 \<le> length (filter (\<lambda>c. c) (map_values ho (committed_nodes st)))"

definition majority_line ::
  "(NodeId set \<Rightarrow> NodeId list) \<Rightarrow> (NodeId list \<Rightarrow> string) \<Rightarrow> (NodeId \<Rightarrow> ('p, 'a, 'c) RaftBehaviour) \<Rightarrow> ThreeState \<Rightarrow> string" where
  "majority_line ho sk b st =
     ''majority Committed hello: nodes='' @ sk (ho (dom (committed_nodes st))) @ '' commit_index=['' @
       show_nat (unat (behaviour_commit_index (b 1))) @ '','' @ show_nat (unat (behaviour_commit_index (b 2))) @ '','' @
       show_nat (unat (behaviour_commit_index (b 3))) @ '']''"

text \<open>
  The loop: \<open>None\<close> is a run that has not ended yet, \<open>Inr\<close> is \<open>Ok(())\<close> with what was printed, \<open>Inl\<close> an error.
\<close>

fun three_loop ::
  "(NodeId set \<Rightarrow> NodeId list) \<Rightarrow> ((NodeId \<rightharpoonup> Role \<times> Term) \<Rightarrow> string) \<Rightarrow> ((NodeId \<rightharpoonup> bool) \<Rightarrow> string) \<Rightarrow>
    (NodeId list \<Rightarrow> string) \<Rightarrow> Instant \<Rightarrow>
    ('p, 'a, 'c) ThreeTurn list \<Rightarrow> ThreeState \<Rightarrow> (string + string list) option" where
  "three_loop ho sr sc sk wall [] st = None"
| "three_loop ho sr sc sk wall (tt # tts) st =
     (if \<not> tt_wall tt - wall < secs 20 then
        Some (Inl (''timeout; roles='' @ sr (roles st) @ '' proposed='' @
          (if ts_proposed st then ''true'' else ''false'') @ '' committed='' @ sc (committed_nodes st)))
      else
        (case quorum_step ho sr tt (read_roles (tt_behaviour tt) (turn_handled (tt_turn tt) st)) of
           Inl e \<Rightarrow> Some (Inl e)
         | Inr (b, st1) \<Rightarrow>
             if hello_majority ho st1 then Some (Inr (printed (println (majority_line ho sk b st1) st1)))
             else three_loop ho sr sc sk wall tts st1))"

subsection \<open>The quorum check\<close>

lemma length_map_values: "hash_order ho \<Longrightarrow> finite (dom m) \<Longrightarrow> length (map_values ho m) = card (dom m)"
  by (simp add: map_values_def hash_order_def distinct_card [symmetric])

lemma set_map_values: "hash_order ho \<Longrightarrow> finite (dom m) \<Longrightarrow> set (map_values ho m) = (\<lambda>k. the (m k)) ` dom m"
  by (simp add: map_values_def hash_orderD(2))

lemma filter_map_values:
  assumes "hash_order ho" "finite (dom m)"
  shows "length (filter P (map_values ho m)) = (\<Sum>k \<in> dom m. if P (the (m k)) then 1 else 0)"
proof -
  note h = hash_orderD [OF assms]
  have "length (filter P (map_values ho m)) = card (set (filter (\<lambda>k. P (the (m k))) (ho (dom m))))"
    using distinct_card [OF distinct_filter [OF h(1)]] by (simp add: map_values_def filter_map o_def)
  also have "set (filter (\<lambda>k. P (the (m k))) (ho (dom m))) = {k \<in> dom m. P (the (m k))}"
    by (simp add: h(2))
  also have "card \<dots> = (\<Sum>k \<in> dom m. if P (the (m k)) then 1 else 0)"
    using assms(2) by (simp add: sum.If_cases Int_def)
  finally show ?thesis .
qed

abbreviation node_trio :: "NodeId set" where
  "node_trio \<equiv> {1, 2, 3}"

definition led_by :: "(NodeId \<rightharpoonup> Role \<times> Term) \<Rightarrow> NodeId \<Rightarrow> Term \<Rightarrow> bool" where
  "led_by rs l t \<longleftrightarrow> l \<in> node_trio \<and> rs l = Some (Leader, t) \<and> (\<forall>n \<in> node_trio. n \<noteq> l \<longrightarrow> rs n = Some (Follower, t))"

lemma led_by_cong: "(\<And>n. n \<in> node_trio \<Longrightarrow> rs n = rs' n) \<Longrightarrow> led_by rs l t \<longleftrightarrow> led_by rs' l t"
  unfolding led_by_def by metis

lemma consistent_quorum_trio:
  assumes "hash_order ho" "dom rs = node_trio"
  obtains (some) ok t where "consistent_quorum ho rs = Some (ok, t)"
    "ok \<longleftrightarrow> (\<exists>l. led_by rs l t)" "\<And>t'. \<exists>l. led_by rs l t' \<Longrightarrow> t' = t"
proof -
  from assms(2) have "1 \<in> dom rs" "2 \<in> dom rs" "3 \<in> dom rs" by auto
  then obtain r1 t1 r2 t2 r3 t3 where rs: "rs 1 = Some (r1, t1)" "rs 2 = Some (r2, t2)" "rs 3 = Some (r3, t3)" by auto
  let ?vs = "map_values ho rs"
  have fin: "finite (dom rs)" by (simp add: assms(2))
  have len: "length ?vs = 3" using length_map_values [OF assms(1) fin] by (simp add: assms(2))
  have terms: "set (map snd ?vs) = {t1, t2, t3}"
    using set_map_values [OF assms(1) fin] by (simp add: assms(2) rs image_image)
  define t where "t = hd (map snd ?vs)"
  have "t \<in> set (map snd ?vs)" unfolding t_def using len by (intro hd_in_set) auto
  then have t: "t \<in> {t1, t2, t3}" unfolding terms .
  have cnt: "length (filter (\<lambda>(r, _). r = x) ?vs) =
      (if r1 = x then 1 else 0) + (if r2 = x then 1 else 0) + (if r3 = x then 1 else 0)" for x
    by (simp add: filter_map_values [OF assms(1) fin] assms(2) rs)
  have led: "(\<exists>l. led_by rs l u) \<longleftrightarrow> t1 = u \<and> t2 = u \<and> t3 = u \<and>
      (r1 = Leader \<and> r2 = Follower \<and> r3 = Follower \<or> r1 = Follower \<and> r2 = Leader \<and> r3 = Follower \<or>
       r1 = Follower \<and> r2 = Follower \<and> r3 = Leader)" for u
  proof -
    have "(\<exists>l. led_by rs l u) \<longleftrightarrow> led_by rs 1 u \<or> led_by rs 2 u \<or> led_by rs 3 u"
      unfolding led_by_def by blast
    moreover have "led_by rs 1 u \<longleftrightarrow> r1 = Leader \<and> t1 = u \<and> r2 = Follower \<and> t2 = u \<and> r3 = Follower \<and> t3 = u"
      "led_by rs 2 u \<longleftrightarrow> r1 = Follower \<and> t1 = u \<and> r2 = Leader \<and> t2 = u \<and> r3 = Follower \<and> t3 = u"
      "led_by rs 3 u \<longleftrightarrow> r1 = Follower \<and> t1 = u \<and> r2 = Follower \<and> t2 = u \<and> r3 = Leader \<and> t3 = u"
      by (auto simp: led_by_def rs)
    ultimately show ?thesis by metis
  qed
  show thesis
  proof (rule some)
    show "consistent_quorum ho rs = Some (\<exists>l. led_by rs l t, t)"
    proof (cases "t1 = t \<and> t2 = t \<and> t3 = t")
      case True
      have "consistent_quorum ho rs = Some (length (filter (\<lambda>(r, _). r = Leader) ?vs) = 1 \<and>
          length (filter (\<lambda>(r, _). r = Follower) ?vs) = 2, t)"
        unfolding consistent_quorum_def Let_def t_def [symmetric] terms using True len by simp
      then show ?thesis unfolding cnt led using True by (cases r1; cases r2; cases r3; simp)
    next
      case False
      then have "\<exists>t' \<in> {t1, t2, t3}. t' \<noteq> t" by auto
      then have "consistent_quorum ho rs = Some (False, t)"
        unfolding consistent_quorum_def Let_def t_def [symmetric] terms using len by simp
      with False show ?thesis by (auto simp: led)
    qed
  qed (use led t in auto)
qed

subsection \<open>How the program ends\<close>

fun turn_events :: "('p, 'a) Turn \<Rightarrow> (NodeId \<times> ('p, 'a) SwarmEvent) list" where
  "turn_events (Swarm1 ev) = [(1, ev)]"
| "turn_events (Swarm2 ev) = [(2, ev)]"
| "turn_events (Swarm3 ev) = [(3, ev)]"
| "turn_events (IntervalTick evs1 evs2 evs3) = map (Pair 1) evs1 @ map (Pair 2) evs2 @ map (Pair 3) evs3"

lemma turn_handled_events: "turn_handled t st = fold (\<lambda>(n, ev). handle_ev n ev) (turn_events t) st"
  by (cases t) (simp_all add: drain_ready_def fold_map o_def)

lemma turn_events_trio: "(n, ev) \<in> set (turn_events t) \<Longrightarrow> n \<in> node_trio"
  by (cases t) auto

text \<open>The node \<open>n\<close> has reported an entry with the data \<open>hello\<close> as committed.\<close>

definition reported_hello :: "('p, 'a, 'c) ThreeTurn list \<Rightarrow> NodeId \<Rightarrow> bool" where
  "reported_hello tts n \<longleftrightarrow> (\<exists>tt \<in> set tts. \<exists>es. (n, BehaviourEvent (Committed es)) \<in> set (turn_events (tt_turn tt)) \<and>
     (\<exists>e \<in> set es. command_data (entry_type e) = hello))"

text \<open>In the turn the node \<open>l\<close> leads the two others in the term \<open>t\<close>.\<close>

definition turn_leader :: "('p, 'a, 'c) ThreeTurn \<Rightarrow> NodeId \<Rightarrow> Term \<Rightarrow> bool" where
  "turn_leader tt l t \<longleftrightarrow>
     led_by (\<lambda>n. Some (role (engine (tt_behaviour tt n)), engine_current_term (engine (tt_behaviour tt n)))) l t"

definition three_inv :: "('p, 'a, 'c) ThreeTurn list \<Rightarrow> ThreeState \<Rightarrow> bool" where
  "three_inv tts st \<longleftrightarrow> dom (roles st) \<subseteq> node_trio \<and>
     (\<forall>n \<in> dom (committed_nodes st). n \<in> node_trio \<and> reported_hello tts n) \<and>
     (ts_proposed st \<longrightarrow> (\<exists>tt \<in> set tts. \<exists>l t. turn_leader tt l t))"

lemma handle_ev_inv:
  assumes "three_inv tts st" "(n, ev) \<in> set (turn_events (tt_turn tt))" "tt \<in> set tts"
  shows "three_inv tts (handle_ev n ev st)"
proof -
  have n: "n \<in> node_trio" by (rule turn_events_trio [OF assms(2)])
  show ?thesis
  proof (cases "\<exists>es. ev = BehaviourEvent (Committed es) \<and> (\<exists>e \<in> set es. command_data (entry_type e) = hello)")
    case True
    then obtain es where es: "ev = BehaviourEvent (Committed es)" "\<exists>e \<in> set es. command_data (entry_type e) = hello" by blast
    then have "reported_hello tts n" using assms(2,3) unfolding reported_hello_def by blast
    with es n assms(1) show ?thesis by (simp add: three_inv_def println_def)
  next
    case False
    then show ?thesis using n assms(1)
      by (cases "(n, ev, st)" rule: handle_ev.cases) (auto simp: three_inv_def println_def)
  qed
qed

lemma turn_handled_inv: "three_inv tts st \<Longrightarrow> tt \<in> set tts \<Longrightarrow> three_inv tts (turn_handled (tt_turn tt) st)"
  unfolding turn_handled_events
  by (rule fold_preserves [where P = "three_inv tts"]) (auto intro: handle_ev_inv)

lemma reported_hello_mono: "reported_hello tts n \<Longrightarrow> set tts \<subseteq> set us \<Longrightarrow> reported_hello us n"
  unfolding reported_hello_def by blast

lemma three_inv_mono:
  assumes "three_inv tts st" "set tts \<subseteq> set us"
  shows "three_inv us st"
  unfolding three_inv_def
proof (intro conjI ballI impI)
  show "dom (roles st) \<subseteq> node_trio" using assms(1) by (simp add: three_inv_def)
  show "n \<in> node_trio" "reported_hello us n" if "n \<in> dom (committed_nodes st)" for n
    using assms(1) that reported_hello_mono [OF _ assms(2), of n] by (simp_all add: three_inv_def)
  assume "ts_proposed st"
  with assms(1) have "\<exists>tt \<in> set tts. \<exists>l t. turn_leader tt l t" by (simp add: three_inv_def)
  with assms(2) show "\<exists>tt \<in> set us. \<exists>l t. turn_leader tt l t" by blast
qed

text \<open>After the roles have been read the quorum check sees the behaviours, and a proposal goes to their leader.\<close>

lemma quorum_step_inv:
  fixes tt :: "('p, 'a, 'c) ThreeTurn"
  assumes "hash_order ho" "three_inv tts st" "tt \<in> set tts"
  shows "\<exists>b st'. quorum_step ho sr tt (read_roles (tt_behaviour tt) st) = Inr (b, st') \<and> three_inv tts st'"
proof -
  let ?st = "read_roles (tt_behaviour tt) st"
  have dom: "dom (roles ?st) = node_trio" using assms(2) by (auto simp: read_roles_def three_inv_def Let_def)
  have inv: "three_inv tts ?st" using assms(2) dom by (simp add: three_inv_def read_roles_def Let_def)
  have led: "led_by (roles ?st) l t \<longleftrightarrow> turn_leader tt l t" for l t
    unfolding turn_leader_def by (rule led_by_cong) (auto simp: read_roles_def Let_def)
  have keep: "three_inv tts (st'\<lparr>stable_since := x\<rparr>)" "three_inv tts (println y st')" if "three_inv tts st'" for st' x y
    using that by (simp_all add: three_inv_def println_def)
  obtain ok t where q: "consistent_quorum ho (roles ?st) = Some (ok, t)" "ok \<longleftrightarrow> (\<exists>l. led_by (roles ?st) l t)"
    by (rule consistent_quorum_trio [OF assms(1) dom])
  have proposes: "\<exists>b st''. three_propose ho sr (tt_behaviour tt) st' = Inr (b, st'') \<and> three_inv tts st''"
    if st': "roles st' = roles ?st" "three_inv tts st'" and "turn_leader tt l t" for st' l
  proof -
    have l: "l \<in> node_trio" "roles ?st l = Some (Leader, t)" "\<And>n. n \<in> node_trio \<Longrightarrow> n \<noteq> l \<Longrightarrow> roles ?st n = Some (Follower, t)"
      using that(3) unfolding led [symmetric] led_by_def by auto
    have ho: "set (ho node_trio) = node_trio" by (rule hash_orderD(2) [OF assms(1)]) simp
    have "find (\<lambda>n. fst (the (roles ?st n)) = Leader) (ho node_trio) = Some l"
    proof -
      have "\<exists>x \<in> set (ho node_trio). fst (the (roles ?st x)) = Leader" using l(1,2) ho by force
      then obtain x where x: "find (\<lambda>n. fst (the (roles ?st n)) = Leader) (ho node_trio) = Some x"
        by (cases "find (\<lambda>n. fst (the (roles ?st n)) = Leader) (ho node_trio)") (auto simp: find_None_iff)
      then have "x \<in> node_trio" "fst (the (roles ?st x)) = Leader" using ho by (auto simp: find_Some_iff)
      with l(3) [of x] have "x = l" by force
      with x show ?thesis by simp
    qed
    moreover have "role (engine (tt_behaviour tt l)) = Leader"
      using that(3) by (simp add: turn_leader_def led_by_def)
    then obtain b' idx where "behaviour_propose (tt_behaviour tt l) hello = (b', Inr idx)" using leader_proposes by blast
    ultimately have "three_propose ho sr (tt_behaviour tt) st' = Inr ((tt_behaviour tt)(l := b'),
        (println (''proposed hello at index='' @ show_nat (unat idx))
          (println (''stable leader for 1s: '' @ sr (roles st')) st'))\<lparr>ts_proposed := True\<rparr>)"
      using l(1) by (auto simp: three_propose_def Let_def println_def st'(1) dom)
    moreover have "three_inv tts (x\<lparr>ts_proposed := True\<rparr>)" if "three_inv tts x" for x
      using that assms(3) \<open>turn_leader tt l t\<close> by (auto simp: three_inv_def)
    ultimately show ?thesis using keep(2) [OF keep(2) [OF st'(2)]] by blast
  qed
  show ?thesis
  proof (cases ok)
    case False
    then show ?thesis using q(1) keep(1) [OF inv] by (simp add: quorum_step_def)
  next
    case True
    then obtain l where l: "turn_leader tt l t" using q(2) led by blast
    define st1 where "st1 = (case stable_since ?st of Some since \<Rightarrow> ?st
      | None \<Rightarrow> println (''quorum ok term='' @ show_nat (unat t) @ '': '' @ sr (roles ?st))
          (?st\<lparr>stable_since := Some (tt_stable tt)\<rparr>))"
    have st1: "three_inv tts st1" "roles st1 = roles ?st"
      using inv keep(2) [OF keep(1) [OF inv]] by (simp_all add: st1_def println_def split: option.split)
    have step: "quorum_step ho sr tt ?st =
        (if \<not> ts_proposed st1 \<and> secs 1 \<le> tt_elapsed tt - the (stable_since st1)
         then three_propose ho sr (tt_behaviour tt) st1 else Inr (tt_behaviour tt, st1))"
      using q(1) True by (simp add: quorum_step_def Let_def st1_def)
    show ?thesis
    proof (cases "\<not> ts_proposed st1 \<and> secs 1 \<le> tt_elapsed tt - the (stable_since st1)")
      case True
      then show ?thesis unfolding step using proposes [OF st1(2,1) l] by simp
    next
      case False
      then show ?thesis unfolding step using st1(1) by auto
    qed
  qed
qed

lemma hello_majority_two:
  assumes "hash_order ho" "three_inv tts st" "hello_majority ho st"
  shows "\<exists>m \<in> node_trio. \<exists>n \<in> node_trio. m \<noteq> n \<and> reported_hello tts m \<and> reported_hello tts n"
    and "\<exists>tt \<in> set tts. \<exists>l t. turn_leader tt l t"
proof -
  let ?c = "committed_nodes st"
  have sub: "dom ?c \<subseteq> node_trio" "\<And>n. n \<in> dom ?c \<Longrightarrow> reported_hello tts n" using assms(2) by (auto simp: three_inv_def)
  have fin: "finite (dom ?c)" by (rule finite_subset [OF sub(1)]) simp
  have "2 \<le> length (map_values ho ?c)"
    using assms(3) length_filter_le [of "\<lambda>c. c" "map_values ho ?c"] unfolding hello_majority_def by linarith
  then have two: "2 \<le> card (dom ?c)" by (simp add: length_map_values [OF assms(1) fin])
  then obtain m where m: "m \<in> dom ?c" by fastforce
  have "dom ?c \<noteq> {m}" using two by auto
  then obtain n where "n \<in> dom ?c" "n \<noteq> m" using m by blast
  moreover have "m \<in> node_trio" by (rule subsetD [OF sub(1) m])
  moreover have "n \<in> node_trio" by (rule subsetD [OF sub(1) \<open>n \<in> dom ?c\<close>])
  ultimately show "\<exists>m \<in> node_trio. \<exists>n \<in> node_trio. m \<noteq> n \<and> reported_hello tts m \<and> reported_hello tts n"
    using sub(2) [OF m] sub(2) [of n] by metis
  show "\<exists>tt \<in> set tts. \<exists>l t. turn_leader tt l t"
    using assms(2,3) by (simp add: three_inv_def hello_majority_def)
qed

definition three_ok :: "Instant \<Rightarrow> ('p, 'a, 'c) ThreeTurn list \<Rightarrow> ('p, 'a, 'c) ThreeTurn list \<Rightarrow> bool" where
  "three_ok wall past tts \<longleftrightarrow> (\<exists>ys zs. tts = ys @ zs \<and> (\<forall>tt \<in> set ys. tt_wall tt < wall + secs 20) \<and>
     (\<exists>m \<in> node_trio. \<exists>n \<in> node_trio. m \<noteq> n \<and> reported_hello (past @ ys) m \<and> reported_hello (past @ ys) n) \<and>
     (\<exists>tt \<in> set (past @ ys). \<exists>l t. turn_leader tt l t))"

lemma three_ok_Cons:
  assumes "three_ok wall (past @ [tt]) tts" "tt_wall tt < wall + secs 20"
  shows "three_ok wall past (tt # tts)"
proof -
  have p: "(past @ [tt]) @ ys = past @ tt # ys" for ys by simp
  from assms(1) [unfolded three_ok_def p] obtain ys zs where ys: "tts = ys @ zs"
      "\<forall>tt \<in> set ys. tt_wall tt < wall + secs 20"
      "\<exists>m \<in> node_trio. \<exists>n \<in> node_trio. m \<noteq> n \<and> reported_hello (past @ tt # ys) m \<and> reported_hello (past @ tt # ys) n"
      "\<exists>tt \<in> set (past @ tt # ys). \<exists>l t. turn_leader tt l t"
    by (elim exE conjE)
  have "tt # tts = (tt # ys) @ zs" "\<forall>tt \<in> set (tt # ys). tt_wall tt < wall + secs 20"
    using ys(1,2) assms(2) by simp_all
  with ys(3,4) show ?thesis unfolding three_ok_def by (intro exI [of _ "tt # ys"] exI [of _ zs] conjI)
qed

lemma three_loop_ends:
  assumes "hash_order ho" "three_loop ho sr sc sk wall tts st = Some v" "three_inv past st"
  shows "case v of
      Inl e \<Rightarrow> (\<exists>tt \<in> set tts. wall + secs 20 \<le> tt_wall tt) \<and> (\<exists>text. e = ''timeout; roles='' @ text)
    | Inr out \<Rightarrow> three_ok wall past tts"
  using assms(2,3)
proof (induction tts arbitrary: st past)
  case (Cons tt tts)
  show ?case
  proof (cases "tt_wall tt - wall < secs 20")
    case False
    with Cons.prems(1) have "v = Inl (''timeout; roles='' @ sr (roles st) @ '' proposed='' @
          (if ts_proposed st then ''true'' else ''false'') @ '' committed='' @ sc (committed_nodes st))" by simp
    moreover have "wall + secs 20 \<le> tt_wall tt" using False by (simp add: secs_def)
    ultimately show ?thesis by simp
  next
    case True
    then have early: "tt_wall tt < wall + secs 20" by (simp add: secs_def)
    let ?past = "past @ [tt]"
    have "three_inv ?past st" by (rule three_inv_mono [OF Cons.prems(2)]) auto
    then have inv: "three_inv ?past (turn_handled (tt_turn tt) st)" by (rule turn_handled_inv) simp
    obtain b st' where step: "quorum_step ho sr tt (read_roles (tt_behaviour tt) (turn_handled (tt_turn tt) st)) = Inr (b, st')"
        and inv': "three_inv ?past st'"
      using quorum_step_inv [OF assms(1) inv, of tt sr] by auto
    show ?thesis
    proof (cases "hello_majority ho st'")
      case two: True
      have "three_ok wall past (tt # tts)"
        unfolding three_ok_def using hello_majority_two [OF assms(1) inv' two] early
        by (intro exI [of _ "[tt]"] exI [of _ tts]) simp
      moreover have "v = Inr (printed (println (majority_line ho sk b st') st'))"
        using Cons.prems(1) True step two by simp
      ultimately show ?thesis by simp
    next
      case False
      with Cons.prems(1) True step have "three_loop ho sr sc sk wall tts st' = Some v" by simp
      from Cons.IH [OF this inv'] three_ok_Cons [OF _ early] show ?thesis by (auto split: sum.splits)
    qed
  qed
qed simp

subsection \<open>Properties\<close>

text \<open>
  The quorum check of the demo: with an entry for each of the three nodes it always gives a verdict, whatever
  the iteration order of the map, and the verdict is positive exactly if one node is a leader and the
  two others are followers, all in one term.
\<close>

lemma consistent_quorum_iff:
  assumes "hash_order ho" "dom rs = {1, 2, 3}"
  shows "(\<exists>ok t. consistent_quorum ho rs = Some (ok, t)) \<and>
    (consistent_quorum ho rs = Some (True, t) \<longleftrightarrow>
      (\<exists>l \<in> {1, 2, 3}. rs l = Some (Leader, t) \<and> (\<forall>n \<in> {1, 2, 3}. n \<noteq> l \<longrightarrow> rs n = Some (Follower, t))))"
proof -
  obtain ok u where q: "consistent_quorum ho rs = Some (ok, u)" "ok \<longleftrightarrow> (\<exists>l. led_by rs l u)"
      "\<And>t'. \<exists>l. led_by rs l t' \<Longrightarrow> t' = u"
    by (rule consistent_quorum_trio [OF assms], rule that)
  have "(ok \<and> u = t) = (\<exists>l. led_by rs l t)" using q(2) q(3) [of t] by blast
  then have "consistent_quorum ho rs = Some (True, t) \<longleftrightarrow> (\<exists>l. led_by rs l t)" by (simp add: q(1))
  moreover have "(\<exists>l. led_by rs l t) \<longleftrightarrow>
      (\<exists>l \<in> {1, 2, 3}. rs l = Some (Leader, t) \<and> (\<forall>n \<in> {1, 2, 3}. n \<noteq> l \<longrightarrow> rs n = Some (Follower, t)))"
    unfolding led_by_def Bex_def ..
  ultimately show ?thesis by (intro conjI exI [of _ ok] exI [of _ u] q(1)) (rule trans)
qed

definition demo_roles :: "NodeId \<rightharpoonup> Role \<times> Term" where
  "demo_roles = [1 \<mapsto> (Follower, 4), 2 \<mapsto> (Leader, 4), 3 \<mapsto> (Follower, 4)]"

lemma consistent_quorum_iff_witness: "consistent_quorum sorted_list_of_set demo_roles = Some (True, 4)"
proof -
  have "dom demo_roles = {1, 2, 3}" by (auto simp: demo_roles_def)
  moreover have "demo_roles 2 = Some (Leader, 4) \<and> (\<forall>n \<in> {1, 2, 3}. n \<noteq> 2 \<longrightarrow> demo_roles n = Some (Follower, 4))"
    by (simp add: demo_roles_def)
  ultimately show ?thesis using consistent_quorum_iff [OF hash_order_sorted, of demo_roles 4] by blast
qed

text \<open>
  How the loop ends: it fails only by its timeout, after twenty seconds, never because no leader is found to propose or
  because the proposal is refused; and it succeeds only in that time, after two different nodes have reported an
  entry \<open>hello\<close> as committed and one has led the two others in one term.
\<close>

lemma three_node_ends:
  assumes "hash_order ho" "three_loop ho sr sc sk wall tts three_init = Some v"
  shows "case v of
      Inl e \<Rightarrow> (\<exists>tt \<in> set tts. wall + secs 20 \<le> tt_wall tt) \<and> (\<exists>text. e = ''timeout; roles='' @ text)
    | Inr out \<Rightarrow> \<exists>ys zs. tts = ys @ zs \<and> (\<forall>tt \<in> set ys. tt_wall tt < wall + secs 20) \<and>
        (\<exists>m \<in> {1, 2, 3}. \<exists>n \<in> {1, 2, 3}. m \<noteq> n \<and> reported_hello ys m \<and> reported_hello ys n) \<and>
        (\<exists>tt \<in> set ys. \<exists>l t. turn_leader tt l t)"
proof -
  have "three_inv [] three_init" by (simp add: three_inv_def three_init_def)
  from three_loop_ends [OF assms this] show ?thesis unfolding three_ok_def append_Nil .
qed

text \<open>A run of two turns: node 1 leads, is stable for two seconds, and nodes 1 and 2 report the entry.\<close>

definition demo_trio :: "NodeId \<Rightarrow> (unit, unit, nat) RaftBehaviour" where
  "demo_trio n =
     (let b = RaftBehaviour_new sorted_list_of_set (\<lambda>i. 0) (\<lambda>i. ()) (\<lambda>i. False) (demo_config n) MemoryStorage_new
      in if n = 1 then b\<lparr>engine := (engine b)\<lparr>role := Leader\<rparr>\<rparr> else b)"

definition demo_report :: "(unit, unit) SwarmEvent" where
  "demo_report = BehaviourEvent (Committed [\<lparr>le_index = 1, le_term = 1, entry_type = Command hello\<rparr>])"

definition demo_turns :: "(unit, unit, nat) ThreeTurn list" where
  "demo_turns =
     [\<lparr>tt_wall = 0, tt_turn = Swarm1 OtherEvent, tt_behaviour = demo_trio, tt_stable = 0, tt_elapsed = 0\<rparr>,
      \<lparr>tt_wall = secs 2, tt_turn = IntervalTick [demo_report] [demo_report] [], tt_behaviour = demo_trio,
       tt_stable = secs 2, tt_elapsed = secs 2\<rparr>]"

lemma demo_trio_engine:
  "role (engine (demo_trio n)) = (if n = 1 then Leader else Follower)" "engine_current_term (engine (demo_trio n)) = 0"
  by (simp_all add: demo_trio_def demo_config_def behaviour_eval cong: let_weak_cong)

lemma demo_turns_run:
  "\<exists>out. three_loop sorted_list_of_set (\<lambda>_. []) (\<lambda>_. []) (\<lambda>_. []) 0 demo_turns three_init = Some (Inr out)"
proof -
  obtain b idx where p: "behaviour_propose (demo_trio 1) hello = (b, Inr idx)"
    using leader_proposes [of "demo_trio 1" hello] demo_trio_engine(1) [of 1] by auto
  then show ?thesis
    by (simp add: demo_turns_def three_init_def demo_report_def drain_ready_def read_roles_def demo_trio_engine Let_def
        quorum_step_def consistent_quorum_def map_values_def three_propose_def println_def hello_majority_def secs_def)
qed

end
