(* ===== verification/EchoPeers.thy ===== *)
theory EchoPeers
  imports RaftNodeProps
begin

text \<open>
  \<open>examples/echo_two_peers.rs\<close>: two nodes in one process; the program ends when one of them reports a change
  of role. As in \<open>ThreeNode\<close> the swarms are libp2p's: a turn of a loop is the event the \<open>select!\<close> took.
\<close>

definition echo_cfg_a :: "'p \<Rightarrow> 'a \<Rightarrow> ('p, 'a) RaftConfig" where
  "echo_cfg_a peer_b addr_b =
     \<lparr>cfg_node_id = 1, cfg_voters = [1, 2],
      cfg_seed_peers = [\<lparr>sp_node_id = 2, sp_peer_id = peer_b, sp_addrs = [addr_b]\<rparr>],
      cfg_election_timeout = from_millis 400, cfg_election_jitter = from_millis 50,
      cfg_heartbeat_interval = from_millis 100, cfg_rpc_timeout = secs 2,
      cfg_rpc_max_retries = 0, cfg_snapshot_threshold = 10000\<rparr>"

definition echo_cfg_b :: "'p \<Rightarrow> 'a \<Rightarrow> ('p, 'a) RaftConfig" where
  "echo_cfg_b peer_a addr_a =
     \<lparr>cfg_node_id = 2, cfg_voters = [1, 2],
      cfg_seed_peers = [\<lparr>sp_node_id = 1, sp_peer_id = peer_a, sp_addrs = [addr_a]\<rparr>],
      cfg_election_timeout = from_millis 600, cfg_election_jitter = from_millis 80,
      cfg_heartbeat_interval = from_millis 100, cfg_rpc_timeout = secs 2,
      cfg_rpc_max_retries = 0, cfg_snapshot_threshold = 10000\<rparr>"

text \<open>The event of a turn, from swarm A or swarm B.\<close>

datatype ('p, 'a) EchoEvent = SwarmA "('p, 'a) SwarmEvent" | SwarmB "('p, 'a) SwarmEvent"

text \<open>Waiting until both listen: the events that are left, or \<open>None\<close> if it never happens.\<close>

fun echo_listening :: "bool \<Rightarrow> bool \<Rightarrow> ('p, 'a) EchoEvent list \<Rightarrow> ('p, 'a) EchoEvent list option" where
  "echo_listening a_listening b_listening [] = (if a_listening \<and> b_listening then Some [] else None)"
| "echo_listening a_listening b_listening (SwarmA ev # evs) =
     (if a_listening \<and> b_listening then Some (SwarmA ev # evs)
      else echo_listening (a_listening \<or> is_new_listen_addr ev) b_listening evs)"
| "echo_listening a_listening b_listening (SwarmB ev # evs) =
     (if a_listening \<and> b_listening then Some (SwarmB ev # evs)
      else echo_listening a_listening (b_listening \<or> is_new_listen_addr ev) evs)"

definition show_bool :: "bool \<Rightarrow> string" where
  "show_bool b = (if b then ''true'' else ''false'')"

text \<open>
  The loop. A turn is the clock reading at its head and the event it then waits for, if one comes; \<open>None\<close> is
  a run that has not ended, \<open>Inr\<close> is \<open>Ok(())\<close> with the line printed.
\<close>

fun echo_loop :: "Instant \<Rightarrow> bool \<Rightarrow> (Instant \<times> ('p, 'a) EchoEvent option) list \<Rightarrow> (string + string) option" where
  "echo_loop deadline conn_up [] = None"
| "echo_loop deadline conn_up ((now, waited) # turns) =
     (if deadline < now then Some (Inl ''timeout waiting for election RPC path'')
      else
        (case waited of
           None \<Rightarrow> None
         | Some (SwarmA (SwarmConnectionEstablished peer)) \<Rightarrow> echo_loop deadline True turns
         | Some (SwarmA (BehaviourEvent (RoleChanged r t l))) \<Rightarrow>
             Some (Inr (''echo path ok: peer A role='' @ show_role r @ '' term='' @ show_nat (unat t) @
               '' connected='' @ show_bool conn_up))
         | Some (SwarmB (BehaviourEvent (RoleChanged r t l))) \<Rightarrow>
             Some (Inr (''echo path ok: peer B role='' @ show_role r @ '' term='' @ show_nat (unat t)))
         | Some _ \<Rightarrow> echo_loop deadline conn_up turns))"

definition echo_nodes ::
  "(NodeId set \<Rightarrow> NodeId list) \<Rightarrow> (bool \<Rightarrow> nat \<Rightarrow> Instant) \<Rightarrow> (bool \<Rightarrow> nat \<Rightarrow> 'p) \<Rightarrow> (bool \<Rightarrow> nat \<Rightarrow> bool) \<Rightarrow>
    'p \<Rightarrow> 'p \<Rightarrow> 'a \<Rightarrow> 'a \<Rightarrow> ('p, 'a, 'c) RaftBehaviour \<times> ('p, 'a, 'c) RaftBehaviour" where
  "echo_nodes hov clk rnd rdy peer_a peer_b addr_a addr_b =
     (RaftBehaviour_new hov (clk False) (rnd False) (rdy False) (echo_cfg_a peer_b addr_b) MemoryStorage_new,
      RaftBehaviour_new hov (clk True) (rnd True) (rdy True) (echo_cfg_b peer_a addr_a) MemoryStorage_new)"

subsection \<open>How it ends\<close>

fun role_change :: "('p, 'a) EchoEvent \<Rightarrow> bool" where
  "role_change (SwarmA (BehaviourEvent (RoleChanged r t l))) = True"
| "role_change (SwarmB (BehaviourEvent (RoleChanged r t l))) = True"
| "role_change ev = False"

lemma echo_turn:
  "\<not> deadline < now \<Longrightarrow> role_change ev \<Longrightarrow> \<exists>line. echo_loop deadline c ((now, Some ev) # turns) = Some (Inr line)"
  "\<not> deadline < now \<Longrightarrow> \<not> role_change ev \<Longrightarrow> \<exists>c'. echo_loop deadline c ((now, Some ev) # turns) = echo_loop deadline c' turns"
  by (cases ev rule: role_change.cases; auto)+

text \<open>A turn after which the loop goes round again.\<close>

definition quiet_turn :: "Instant \<Rightarrow> Instant \<times> ('p, 'a) EchoEvent option \<Rightarrow> bool" where
  "quiet_turn deadline turn \<longleftrightarrow> fst turn \<le> deadline \<and> (\<exists>ev. snd turn = Some ev \<and> \<not> role_change ev)"

lemma echo_quiet: "quiet_turn deadline turn \<Longrightarrow> \<exists>c'. echo_loop deadline c (turn # turns) = echo_loop deadline c' turns"
  using echo_turn(2) [of deadline "fst turn"] by (cases turn) (auto simp: quiet_turn_def)

lemma echo_turns:
  "\<forall>turn \<in> set ys. quiet_turn deadline turn \<Longrightarrow> \<exists>c'. echo_loop deadline c (ys @ zs) = echo_loop deadline c' zs"
proof (induction ys arbitrary: c)
  case (Cons turn ys)
  then obtain c1 where "echo_loop deadline c (turn # ys @ zs) = echo_loop deadline c1 (ys @ zs)"
    using echo_quiet [of deadline turn c "ys @ zs"] by auto
  with Cons show ?case by simp
qed auto

text \<open>
  The ten seconds of the demo are checked only when an event has come. After turns without a role
  change it fails if the next one starts after the deadline, succeeds if that one brings a role change in
  time, and if neither swarm returns an event it keeps waiting, whatever the time.
\<close>

lemma echo_deadline_at_events:
  assumes "\<forall>turn \<in> set ys. quiet_turn deadline turn"
  shows "(deadline < now \<longrightarrow>
      echo_loop deadline c (ys @ (now, waited) # zs) = Some (Inl ''timeout waiting for election RPC path'')) \<and>
    (now \<le> deadline \<and> role_change ev \<longrightarrow> (\<exists>line. echo_loop deadline c (ys @ (now, Some ev) # zs) = Some (Inr line))) \<and>
    (now \<le> deadline \<longrightarrow> echo_loop deadline c (ys @ (now, None) # zs) = None)"
proof (intro conjI impI)
  obtain c1 where "echo_loop deadline c (ys @ (now, waited) # zs) = echo_loop deadline c1 ((now, waited) # zs)"
    using echo_turns [OF assms] by blast
  then show "echo_loop deadline c (ys @ (now, waited) # zs) = Some (Inl ''timeout waiting for election RPC path'')"
    if "deadline < now" using that by simp
  obtain c2 where "echo_loop deadline c (ys @ (now, Some ev) # zs) = echo_loop deadline c2 ((now, Some ev) # zs)"
    using echo_turns [OF assms] by blast
  then show "\<exists>line. echo_loop deadline c (ys @ (now, Some ev) # zs) = Some (Inr line)"
    if "now \<le> deadline \<and> role_change ev" using that echo_turn(1) [of deadline now ev c2 zs] by simp
  obtain c3 where "echo_loop deadline c (ys @ (now, None) # zs) = echo_loop deadline c3 ((now, None) # zs)"
    using echo_turns [OF assms] by blast
  then show "echo_loop deadline c (ys @ (now, None) # zs) = None" if "now \<le> deadline" using that by simp
qed

lemma echo_deadline_at_events_witness:
  "echo_loop (secs 10) False [(0, Some (SwarmA (SwarmConnectionEstablished ()))), (secs 1, None :: (unit, unit) EchoEvent option)] = None"
proof -
  have "\<forall>turn \<in> set [(0, Some (SwarmA (SwarmConnectionEstablished ())))]. quiet_turn (secs 10) (turn :: nat \<times> (unit, unit) EchoEvent option)"
    by (simp add: quiet_turn_def)
  from echo_deadline_at_events [OF this, where now = "secs 1" and zs = "[]"] show ?thesis by (simp add: secs_def)
qed

end
