(* ===== verification/Programs.thy ===== *)
theory Programs
  imports ThreeNode EchoPeers
begin

text \<open>
  The three programs as a whole: \<open>main\<close> of \<open>src/bin/raft-node.rs\<close>, of \<open>examples/three_node.rs\<close> and of
  \<open>examples/echo_two_peers.rs\<close>, composed of the parts the other theories define, with the building of the swarms
  between them. What libp2p and the operating system do is given: whether the transport, the behaviour and
  the listener can be set up (\<open>SwarmLib\<close>), and which events come when.
\<close>

subsection \<open>Building a swarm\<close>

text \<open>A failed step is its error. The order of the steps is that of the builder.\<close>

record ('k, 'a) SwarmLib =
  sl_with_tcp :: "'k \<Rightarrow> string + unit"
  sl_with_behaviour :: "'k \<Rightarrow> string + unit"
  sl_listen_on :: "'k \<Rightarrow> 'a \<Rightarrow> string + unit"

record ('p, 'a, 'k, 'c) Swarm =
  sw_key :: 'k
  sw_behaviour :: "('p, 'a, 'c) RaftBehaviour"
  sw_idle_timeout :: Duration
  sw_listen :: "'a list"

definition swarm_built ::
  "('k, 'a) SwarmLib \<Rightarrow> 'k \<Rightarrow> ('p, 'a, 'c) RaftBehaviour \<Rightarrow> Duration \<Rightarrow> string + ('p, 'a, 'k, 'c) Swarm" where
  "swarm_built lib kp b idle =
     (case sl_with_tcp lib kp of
        Inl e \<Rightarrow> Inl e
      | Inr _ \<Rightarrow>
          (case sl_with_behaviour lib kp of
             Inl e \<Rightarrow> Inl e
           | Inr _ \<Rightarrow> Inr \<lparr>sw_key = kp, sw_behaviour = b, sw_idle_timeout = idle, sw_listen = []\<rparr>))"

definition listen_on :: "('k, 'a) SwarmLib \<Rightarrow> 'a \<Rightarrow> ('p, 'a, 'k, 'c) Swarm \<Rightarrow> string + ('p, 'a, 'k, 'c) Swarm" where
  "listen_on lib addr sw =
     (case sl_listen_on lib (sw_key sw) addr of
        Inl e \<Rightarrow> Inl e
      | Inr _ \<Rightarrow> Inr (sw\<lparr>sw_listen := sw_listen sw @ [addr]\<rparr>))"

text \<open>\<open>new cfg\<close> stands for \<open>RaftBehaviour::new(cfg, MemoryStorage::new())\<close> in the world of that node.\<close>

definition node_swarm ::
  "('k, 'a) SwarmLib \<Rightarrow> (('p, 'a) RaftConfig \<Rightarrow> ('p, 'a, 'c) RaftBehaviour) \<Rightarrow> 'k \<Rightarrow> ('p, 'a) RaftConfig \<Rightarrow> 'a \<Rightarrow>
    string + ('p, 'a, 'k, 'c) Swarm" where
  "node_swarm lib new kp cfg listen =
     (case swarm_built lib kp (new cfg) (secs 60) of Inl e \<Rightarrow> Inl e | Inr sw \<Rightarrow> listen_on lib listen sw)"

subsection \<open>raft-node\<close>

text \<open>
  What happens to the program once its swarm is built: the events of the listen loop with their times, what the
  swarm makes of the behaviour meanwhile, and the rounds of the main loop, given the behaviour they start from.
\<close>

record ('p, 'a, 'c) NodeRun =
  nr_events :: "nat \<Rightarrow> (Instant \<times> ('p, 'a) SwarmEvent) option"
  nr_clock :: "nat \<Rightarrow> Instant"
  nr_tie :: "nat \<Rightarrow> bool"
  nr_polled :: "('p, 'a, 'c) RaftBehaviour \<Rightarrow> ('p, 'a, 'c) RaftBehaviour"
  nr_rounds :: "('p, 'a, 'c) RaftBehaviour \<Rightarrow> nat \<Rightarrow> ('p, 'a, 'c) Round"

text \<open>The main loop: it has no exit but the \<open>?\<close> of the proposal. \<open>None\<close> is a loop that does not end.\<close>

partial_function (option) main_loop ::
  "('p \<Rightarrow> string) \<Rightarrow> ('a \<Rightarrow> string) \<Rightarrow> (u8 list \<Rightarrow> string) \<Rightarrow> NodeId \<Rightarrow> bool \<Rightarrow> (nat \<Rightarrow> ('p, 'a, 'c) Round) \<Rightarrow>
    nat \<Rightarrow> Stability \<Rightarrow> Error option" where
  "main_loop sp sa sd node_id propose_hello rounds i st =
     (case main_round sp sa sd node_id propose_hello (rounds i) st of
        Inl e \<Rightarrow> Some e
      | Inr (b, st1, lines) \<Rightarrow> main_loop sp sa sd node_id propose_hello rounds (Suc i) st1)"

text \<open>
  \<open>main\<close>: \<open>Inr\<close> is \<open>Ok(())\<close> with the node list it printed, \<open>Inl\<close> the error it ends with, \<open>None\<close> a program that does
  not end.
\<close>

definition raft_node_main ::
  "('p \<Rightarrow> string) \<Rightarrow> ('a \<Rightarrow> string) \<Rightarrow> (u8 list \<Rightarrow> string) \<Rightarrow> ('k, 'a) SwarmLib \<Rightarrow>
    (('p, 'a) RaftConfig \<Rightarrow> ('p, 'a, 'c) RaftBehaviour) \<Rightarrow> ('p, 'a, 'c) NodeRun \<Rightarrow>
    (nat \<Rightarrow> ('p, 'a, 'k) NodeWorld) \<Rightarrow> (nat \<Rightarrow> Instant) \<Rightarrow> string list \<Rightarrow> (string + string list) option" where
  "raft_node_main sp sa sd lib new run w clk args =
     (case main_startup w clk args of
        None \<Rightarrow> None
      | Some (Inl e) \<Rightarrow> Some (Inl e)
      | Some (Inr (Listed ids)) \<Rightarrow> Some (Inr ids)
      | Some (Inr (Configured cfg kp listen propose_hello)) \<Rightarrow>
          (case node_swarm lib new kp cfg listen of
             Inl e \<Rightarrow> Some (Inl e)
           | Inr sw \<Rightarrow>
               (case listen_wait (nr_events run) (nr_clock run) (nr_tie run) 0 of
                  None \<Rightarrow> None
                | Some (_, Inl e) \<Rightarrow> Some (Inl e)
                | Some (_, Inr _) \<Rightarrow>
                    map_option (\<lambda>e. Inl (show_error e))
                      (main_loop sp sa sd (cfg_node_id cfg) propose_hello
                        (nr_rounds run (dial_seeds (cfg_seed_peers cfg) (nr_polled run (sw_behaviour sw))))
                        0 \<lparr>stable_leader_since = None, proposed = False\<rparr>))))"

subsection \<open>three_node\<close>

definition build_swarm ::
  "('k, 'a) SwarmLib \<Rightarrow> (('p, 'a) RaftConfig \<Rightarrow> ('p, 'a, 'c) RaftBehaviour) \<Rightarrow> 'k \<Rightarrow> ('p, 'a) RaftConfig \<Rightarrow> 'a \<Rightarrow>
    string + ('p, 'a, 'k, 'c) Swarm" where
  "build_swarm lib new kp cfg listen =
     (case swarm_built lib kp (new cfg) (secs 30) of Inl e \<Rightarrow> Inl e | Inr sw \<Rightarrow> listen_on lib listen sw)"

text \<open>The course of the demo after its swarms are built, as \<open>NodeRun\<close>; the keys are generated.\<close>

record ('p, 'a, 'c) ThreeRun =
  tr_events :: "(nat \<times> ('p, 'a) SwarmEvent) list"
  tr_polled :: "(NodeId \<Rightarrow> ('p, 'a, 'c) RaftBehaviour) \<Rightarrow> NodeId \<Rightarrow> ('p, 'a, 'c) RaftBehaviour"
  tr_wall :: Instant
  tr_turns :: "(NodeId \<Rightarrow> ('p, 'a, 'c) RaftBehaviour) \<Rightarrow> ('p, 'a, 'c) ThreeTurn list"

definition three_addrs :: "('p, 'a, 'k) NodeWorld \<Rightarrow> string + (NodeId \<Rightarrow> 'a)" where
  "three_addrs w =
     (case w_multiaddr w ''/ip4/127.0.0.1/tcp/4101'' of
        Inl e \<Rightarrow> Inl e
      | Inr a1 \<Rightarrow>
          (case w_multiaddr w ''/ip4/127.0.0.1/tcp/4102'' of
             Inl e \<Rightarrow> Inl e
           | Inr a2 \<Rightarrow>
               (case w_multiaddr w ''/ip4/127.0.0.1/tcp/4103'' of
                  Inl e \<Rightarrow> Inl e
                | Inr a3 \<Rightarrow> Inr (\<lambda>n. if n = 1 then a1 else if n = 2 then a2 else a3))))"

definition three_swarms ::
  "('k, 'a) SwarmLib \<Rightarrow> (NodeId \<Rightarrow> ('p, 'a) RaftConfig \<Rightarrow> ('p, 'a, 'c) RaftBehaviour) \<Rightarrow> (NodeId \<Rightarrow> 'k) \<Rightarrow>
    (NodeId \<Rightarrow> 'p) \<Rightarrow> (NodeId \<Rightarrow> 'a) \<Rightarrow> string + (NodeId \<Rightarrow> ('p, 'a, 'k, 'c) Swarm)" where
  "three_swarms lib new kp p a =
     (case build_swarm lib (new 1) (kp 1) (three_cfg p a 1 500 10) (a 1) of
        Inl e \<Rightarrow> Inl e
      | Inr s1 \<Rightarrow>
          (case build_swarm lib (new 2) (kp 2) (three_cfg p a 2 700 40) (a 2) of
             Inl e \<Rightarrow> Inl e
           | Inr s2 \<Rightarrow>
               (case build_swarm lib (new 3) (kp 3) (three_cfg p a 3 900 70) (a 3) of
                  Inl e \<Rightarrow> Inl e
                | Inr s3 \<Rightarrow> Inr (\<lambda>n. if n = 1 then s1 else if n = 2 then s2 else s3))))"

definition three_main ::
  "(NodeId set \<Rightarrow> NodeId list) \<Rightarrow> ((NodeId \<rightharpoonup> Role \<times> Term) \<Rightarrow> string) \<Rightarrow> ((NodeId \<rightharpoonup> bool) \<Rightarrow> string) \<Rightarrow>
    (NodeId list \<Rightarrow> string) \<Rightarrow> ('k, 'a) SwarmLib \<Rightarrow> (NodeId \<Rightarrow> ('p, 'a) RaftConfig \<Rightarrow> ('p, 'a, 'c) RaftBehaviour) \<Rightarrow>
    (NodeId \<Rightarrow> 'k) \<Rightarrow> ('p, 'a, 'c) ThreeRun \<Rightarrow> ('p, 'a, 'k) NodeWorld \<Rightarrow> (string + string list) option" where
  "three_main ho sr sc sk lib new kp run w =
     (let p = (\<lambda>n. w_peer_id w (kp n)) in
      case three_addrs w of
        Inl e \<Rightarrow> Some (Inl e)
      | Inr a \<Rightarrow>
          (case three_swarms lib new kp p a of
             Inl e \<Rightarrow> Some (Inl e)
           | Inr s \<Rightarrow>
               (case wait_listeners [False, False, False] (tr_events run) of
                  None \<Rightarrow> None
                | Some _ \<Rightarrow>
                    three_loop ho sr sc sk (tr_wall run)
                      (tr_turns run (full_mesh_dial p (tr_polled run (\<lambda>n. sw_behaviour (s n))))) three_init)))"

subsection \<open>echo_two_peers\<close>

definition echo_swarms ::
  "('k, 'a) SwarmLib \<Rightarrow> 'k \<Rightarrow> 'k \<Rightarrow> ('p, 'a, 'c) RaftBehaviour \<Rightarrow> ('p, 'a, 'c) RaftBehaviour \<Rightarrow> 'a \<Rightarrow> 'a \<Rightarrow>
    string + ('p, 'a, 'k, 'c) Swarm \<times> ('p, 'a, 'k, 'c) Swarm" where
  "echo_swarms lib kp_a kp_b behaviour_a behaviour_b addr_a addr_b =
     (case swarm_built lib kp_a behaviour_a (secs 30) of
        Inl e \<Rightarrow> Inl e
      | Inr swarm_a \<Rightarrow>
          (case swarm_built lib kp_b behaviour_b (secs 30) of
             Inl e \<Rightarrow> Inl e
           | Inr swarm_b \<Rightarrow>
               (case listen_on lib addr_a swarm_a of
                  Inl e \<Rightarrow> Inl e
                | Inr swarm_a \<Rightarrow>
                    (case listen_on lib addr_b swarm_b of
                       Inl e \<Rightarrow> Inl e
                     | Inr swarm_b \<Rightarrow> Inr (swarm_a, swarm_b)))))"

record ('p, 'a, 'c) EchoRun =
  er_events :: "('p, 'a) EchoEvent list"
  er_polled :: "('p, 'a, 'c) RaftBehaviour \<Rightarrow> ('p, 'a, 'c) RaftBehaviour"
  er_start :: Instant
  er_turns :: "('p, 'a, 'c) RaftBehaviour \<Rightarrow> ('p, 'a, 'c) RaftBehaviour \<Rightarrow> (Instant \<times> ('p, 'a) EchoEvent option) list"

definition echo_main ::
  "('k, 'a) SwarmLib \<Rightarrow> (bool \<Rightarrow> ('p, 'a) RaftConfig \<Rightarrow> ('p, 'a, 'c) RaftBehaviour) \<Rightarrow> 'k \<Rightarrow> 'k \<Rightarrow>
    ('p, 'a, 'c) EchoRun \<Rightarrow> ('p, 'a, 'k) NodeWorld \<Rightarrow> (string + string) option" where
  "echo_main lib new kp_a kp_b run w =
     (let peer_a = w_peer_id w kp_a; peer_b = w_peer_id w kp_b in
      case w_multiaddr w ''/ip4/127.0.0.1/tcp/4001'' of
        Inl e \<Rightarrow> Some (Inl e)
      | Inr addr_a \<Rightarrow>
          (case w_multiaddr w ''/ip4/127.0.0.1/tcp/4002'' of
             Inl e \<Rightarrow> Some (Inl e)
           | Inr addr_b \<Rightarrow>
               (case echo_swarms lib kp_a kp_b (new False (echo_cfg_a peer_b addr_b)) (new True (echo_cfg_b peer_a addr_a))
                       addr_a addr_b of
                  Inl e \<Rightarrow> Some (Inl e)
                | Inr (swarm_a, swarm_b) \<Rightarrow>
                    (case echo_listening False False (er_events run) of
                       None \<Rightarrow> None
                     | Some _ \<Rightarrow>
                         echo_loop (er_start run + secs 10) False
                           (er_turns run (dial_seed (er_polled run (sw_behaviour swarm_a)) peer_b)
                              (er_polled run (sw_behaviour swarm_b)))))))"

subsection \<open>How the programs end\<close>

text \<open>No round ends the main loop.\<close>

lemma main_round_goes_on: "\<exists>b st1 lines. main_round sp sa sd n hw rd st = Inr (b, st1, lines)"
  using main_round_cases [OF refl, of sp sa sd n hw rd st] by metis

lemma main_loop_forever: "main_loop sp sa sd n hw rounds i st = None"
proof (rule ccontr)
  assume "main_loop sp sa sd n hw rounds i st \<noteq> None"
  then obtain e where e: "main_loop sp sa sd n hw rounds i st = Some e" by blast
  show False
  proof (rule main_loop.raw_induct [OF _ e])
    fix loop :: "('a \<Rightarrow> string) \<Rightarrow> ('b \<Rightarrow> string) \<Rightarrow> (u8 list \<Rightarrow> string) \<Rightarrow> NodeId \<Rightarrow> bool \<Rightarrow> (nat \<Rightarrow> ('a, 'b, 'c) Round) \<Rightarrow>
      nat \<Rightarrow> Stability \<Rightarrow> Error option"
    fix sp sa sd n hw rounds i st e
    assume IH: "\<And>sp sa sd n hw rounds i st e. loop sp sa sd n hw rounds i st = Some e \<Longrightarrow> False"
      and turn: "(case main_round sp sa sd n hw (rounds i) st of Inl e \<Rightarrow> Some e
        | Inr (b, st1, lines) \<Rightarrow> loop sp sa sd n hw rounds (Suc i) st1) = Some e"
    obtain b st1 lines where "main_round sp sa sd n hw (rounds i) st = Inr (b, st1, lines)"
      using main_round_goes_on by blast
    with turn show False using IH by simp
  qed
qed

lemma startup_listed:
  "main_startup w clk args = Some (Inr (Listed ids)) \<longleftrightarrow> ''--list-nodes'' \<in> set args \<and> list_nodes (w 0) = Inr ids"
proof (cases "''--list-nodes'' \<in> set args")
  case True
  then show ?thesis by (cases "list_nodes (w 0)") (simp_all add: main_startup_def)
next
  case False
  then show ?thesis by (auto simp: main_startup_def Let_def split: sum.splits option.splits)
qed

text \<open>
  C38: The node program never ends by itself: it returns \<open>Ok\<close> exactly when it was asked for the list of nodes and could read
  it, and once its configuration is complete, its swarm is built and the listen address has been reported it runs
  for ever, whatever events come and whatever the roles and clocks are; the \<open>?\<close> of its proposal
  never ends it. Every other end is an error before the node is listening.
\<close>

theorem raft_node_runs_forever:
  "(raft_node_main sp sa sd lib new run w clk args = Some (Inr out) \<longleftrightarrow>
      ''--list-nodes'' \<in> set args \<and> list_nodes (w 0) = Inr out) \<and>
   (main_startup w clk args = Some (Inr (Configured cfg kp listen hw)) \<and> node_swarm lib new kp cfg listen = Inr sw \<and>
      listen_wait (nr_events run) (nr_clock run) (nr_tie run) 0 = Some (k, Inr u) \<longrightarrow>
    raft_node_main sp sa sd lib new run w clk args = None)"
proof
  have "raft_node_main sp sa sd lib new run w clk args = Some (Inr out) \<longleftrightarrow> main_startup w clk args = Some (Inr (Listed out))"
    by (auto simp: raft_node_main_def main_loop_forever split: option.splits sum.splits Startup.splits)
  then show "raft_node_main sp sa sd lib new run w clk args = Some (Inr out) \<longleftrightarrow>
      ''--list-nodes'' \<in> set args \<and> list_nodes (w 0) = Inr out"
    unfolding startup_listed .
qed (auto simp: raft_node_main_def main_loop_forever)

text \<open>Node 1 of a deployment without a configuration file, in a world where everything can be set up.\<close>

definition demo_lib :: "(u8 list, string) SwarmLib" where
  "demo_lib = \<lparr>sl_with_tcp = (\<lambda>k. Inr ()), sl_with_behaviour = (\<lambda>k. Inr ()), sl_listen_on = (\<lambda>k a. Inr ())\<rparr>"

definition demo_node_run :: "(u8 list, string, nat) NodeRun" where
  "demo_node_run =
     \<lparr>nr_events = (\<lambda>i. Some (0, NewListenAddr ''/ip4/10.0.0.1/tcp/4101'')), nr_clock = (\<lambda>i. 0), nr_tie = (\<lambda>i. False),
      nr_polled = (\<lambda>b. b), nr_rounds = (\<lambda>b i. \<lparr>rd_events = [], rd_behaviour = b, rd_now = secs i\<rparr>)\<rparr>"

definition demo_new :: "(u8 list, string) RaftConfig \<Rightarrow> (u8 list, string, nat) RaftBehaviour" where
  "demo_new cfg = RaftBehaviour_new sorted_list_of_set (\<lambda>i. 0) (\<lambda>i. []) (\<lambda>i. False) cfg MemoryStorage_new"

theorem raft_node_runs_forever_witness:
  "raft_node_main (\<lambda>p. []) (\<lambda>a. a) (\<lambda>d. []) demo_lib demo_new demo_node_run
     (\<lambda>i. demo_world\<lparr>w_env := [''NODE_ID'' \<mapsto> ''1'']\<rparr>) (\<lambda>i. 0) [''raft-node''] = None"
proof -
  let ?w = "\<lambda>i :: nat. demo_world\<lparr>w_env := [''NODE_ID'' \<mapsto> ''1'']\<rparr>"
  have "show_nat 1 = ''1''" by code_simp
  then have id: "env_u64 (?w 0) ''NODE_ID'' 0 = 1" using parse_u64_show [of 1] by (simp add: env_u64_def)
  have peers: "parse_peers_legacy (?w 0) [] 1 = Inr []"
    by (simp add: parse_peers_legacy_def comma_list_def trim_def)
  have "show_nat 2 = ''2''" "show_nat 3 = ''3''" by code_simp+
  with \<open>show_nat 1 = ''1''\<close> have voters: "parse_voters ''1,2,3'' = Inr [1, 2, 3]"
    using parse_voters_roundtrip [of "[([], 1, []), ([], 2, []), ([], 3, [])]"] by simp
  have seeds: "seed_peers_with_retry (\<lambda>i. parse_peers_legacy (?w i) [] 1) (\<lambda>i. 0) = Some (0, Inr [])"
    unfolding seed_peers_with_retry_def by (subst retry_loop.simps) (simp add: peers)
  have "\<not> w_is_file (?w 0) path" for path by (simp add: demo_world_def)
  then obtain rt where rt: "load_runtime_config ?w (\<lambda>i. 0) 1 = Some (Inr rt)"
    using seeds voters by (simp add: load_runtime_config_def Let_def)
  obtain cfg kp listen hw where c: "main_startup ?w (\<lambda>i. 0) [''raft-node''] = Some (Inr (Configured cfg kp listen hw))"
    using id rt by (simp add: main_startup_def Let_def keypair_for_node_def) (simp add: demo_world_def)
  have l: "listen_wait (nr_events demo_node_run) (nr_clock demo_node_run) (nr_tie demo_node_run) 0 = Some (0, Inr ())"
    by (subst listen_wait.simps) (simp add: demo_node_run_def secs_def)
  have s: "\<exists>sw. node_swarm demo_lib demo_new kp cfg listen = Inr sw"
    by (simp add: node_swarm_def swarm_built_def listen_on_def demo_lib_def)
  from s c l show ?thesis
    using raft_node_runs_forever [of "\<lambda>p. []" "\<lambda>a. a" "\<lambda>d. []" demo_lib demo_new demo_node_run ?w "\<lambda>i. 0" "[''raft-node'']"]
    by blast
qed

text \<open>
  C39: How the demo of three nodes ends, if it does. It fails because an address cannot be parsed, or because a transport, a
  behaviour or a listener of one of its swarms cannot be set up, or by its timeout, after twenty seconds; never because no
  leader is found to propose or because the proposal is refused. It succeeds only if all of that could be set up, before
  the timeout, and after two different nodes have reported an entry \<open>hello\<close> as committed and one node has led the
  two others in one term.
\<close>

theorem three_demo_ends:
  fixes run :: "('p, 'a, 'c) ThreeRun" and w :: "('p, 'a, 'k) NodeWorld"
  defines "p \<equiv> (\<lambda>kp n. w_peer_id w (kp n)) :: (NodeId \<Rightarrow> 'k) \<Rightarrow> NodeId \<Rightarrow> 'p"
  assumes "hash_order ho" "three_main ho sr sc sk lib new kp run w = Some v"
  shows "case v of
      Inl e \<Rightarrow> three_addrs w = Inl e \<or> (\<exists>a. three_addrs w = Inr a \<and> three_swarms lib new kp (p kp) a = Inl e) \<or>
        (\<exists>a s. three_addrs w = Inr a \<and> three_swarms lib new kp (p kp) a = Inr s \<and>
          (\<exists>tt \<in> set (tr_turns run (full_mesh_dial (p kp) (tr_polled run (\<lambda>n. sw_behaviour (s n))))).
             tr_wall run + secs 20 \<le> tt_wall tt) \<and> (\<exists>text. e = ''timeout; roles='' @ text))
    | Inr out \<Rightarrow> \<exists>a s ys zs. three_addrs w = Inr a \<and> three_swarms lib new kp (p kp) a = Inr s \<and>
        tr_turns run (full_mesh_dial (p kp) (tr_polled run (\<lambda>n. sw_behaviour (s n)))) = ys @ zs \<and>
        (\<forall>tt \<in> set ys. tt_wall tt < tr_wall run + secs 20) \<and>
        (\<exists>m \<in> {1, 2, 3}. \<exists>n \<in> {1, 2, 3}. m \<noteq> n \<and> reported_hello ys m \<and> reported_hello ys n) \<and>
        (\<exists>tt \<in> set ys. \<exists>l t. turn_leader tt l t)"
proof (cases "three_addrs w")
  case (Inl e)
  then show ?thesis using assms(3) by (auto simp: three_main_def Let_def)
next
  case a: (Inr a)
  show ?thesis
  proof (cases "three_swarms lib new kp (p kp) a")
    case (Inl e)
    then show ?thesis using assms(3) a by (auto simp: three_main_def Let_def p_def)
  next
    case s: (Inr s)
    let ?turns = "tr_turns run (full_mesh_dial (p kp) (tr_polled run (\<lambda>n. sw_behaviour (s n))))"
    have "three_loop ho sr sc sk (tr_wall run) ?turns three_init = Some v"
      using assms(3) a s by (simp add: three_main_def Let_def p_def split: option.splits)
    from three_node_ends [OF assms(2) this] a s show ?thesis by (cases v) auto
  qed
qed

text \<open>The run of two turns of \<open>ThreeNode\<close>, in a world where everything can be set up.\<close>

definition demo_three_world :: "(unit, unit, unit) NodeWorld" where
  "demo_three_world =
     \<lparr>w_env = Map.empty, w_is_file = (\<lambda>p. False), w_read_to_string = Inr, w_toml = (\<lambda>s. Inl s),
      w_socket_addrs = (\<lambda>h p. Inr [V4 h]), w_multiaddr = (\<lambda>s. Inr ()), w_secret_key = (\<lambda>s. Inr ()), w_peer_id = (\<lambda>k. ())\<rparr>"

definition demo_three_lib :: "(unit, unit) SwarmLib" where
  "demo_three_lib = \<lparr>sl_with_tcp = (\<lambda>k. Inr ()), sl_with_behaviour = (\<lambda>k. Inr ()), sl_listen_on = (\<lambda>k a. Inr ())\<rparr>"

definition demo_three_new :: "NodeId \<Rightarrow> (unit, unit) RaftConfig \<Rightarrow> (unit, unit, nat) RaftBehaviour" where
  "demo_three_new n cfg = RaftBehaviour_new sorted_list_of_set (\<lambda>i. 0) (\<lambda>i. ()) (\<lambda>i. False) cfg MemoryStorage_new"

definition demo_three_run :: "(unit, unit, nat) ThreeRun" where
  "demo_three_run =
     \<lparr>tr_events = [(0, NewListenAddr ()), (1, NewListenAddr ()), (2, NewListenAddr ())], tr_polled = (\<lambda>b. b), tr_wall = 0,
      tr_turns = (\<lambda>b. demo_turns)\<rparr>"

theorem three_demo_ends_witness:
  "\<exists>out m n. three_main sorted_list_of_set (\<lambda>_. []) (\<lambda>_. []) (\<lambda>_. []) demo_three_lib demo_three_new (\<lambda>n. ()) demo_three_run
       demo_three_world = Some (Inr out) \<and>
     m \<noteq> n \<and> reported_hello demo_turns m \<and> reported_hello demo_turns n"
proof -
  let ?main = "three_main sorted_list_of_set (\<lambda>_. []) (\<lambda>_. []) (\<lambda>_. []) demo_three_lib demo_three_new (\<lambda>n. ())
    demo_three_run demo_three_world"
  obtain out where "three_loop sorted_list_of_set (\<lambda>_. []) (\<lambda>_. []) (\<lambda>_. []) 0 demo_turns three_init = Some (Inr out)"
    using demo_turns_run by blast
  then have main: "?main = Some (Inr out)"
    by (simp add: three_main_def three_addrs_def three_swarms_def build_swarm_def swarm_built_def listen_on_def
        demo_three_lib_def demo_three_run_def demo_three_world_def)
  have turns: "tr_turns demo_three_run b = demo_turns" for b by (simp add: demo_three_run_def)
  from three_demo_ends [OF hash_order_sorted main, unfolded sum.case turns] obtain ys zs m n where
    ys: "demo_turns = ys @ zs" "m \<noteq> n" "reported_hello ys m" "reported_hello ys n"
    by blast
  have "set ys \<subseteq> set demo_turns" unfolding ys(1) by simp
  with ys main show ?thesis using reported_hello_mono [of ys _ demo_turns] by blast
qed

end
